(* ===== verification/Prelude.thy ===== *)
theory Prelude
  imports Main "HOL-Library.Word" "HOL-Library.AList" "HOL-Library.Sublist"
begin

text \<open>
  The shared vocabulary of the development: bytes and bit strings, the errors of
  \<^verbatim>\<open>src/src/error.rs\<close> and the ways a call can fail, the two combinators that thread
  failures through the model (\<open>and_then\<close> for pure code, \<open>bindS\<close> for code that mutates
  a state through \<^verbatim>\<open>&mut\<close>), hash maps as association lists, slot maps, and the list
  lemmas that several components use.
\<close>

section \<open>Collections of facts\<close>

named_theorems run_simps \<open>equations that execute one step of a monadic definition\<close>
named_theorems hm_simps \<open>how the hash map operations act on lookups\<close>

section \<open>Bytes and bits\<close>

type_synonym byte = "8 word"
type_synonym bytes = "byte list"
type_synonym bits = "bool list"

section \<open>Errors\<close>

text \<open>
  \<open>BonsaiStorageError\<close>: the database error is a type parameter, the decoding error of the
  codec crate carries nothing the code looks at.
\<close>

datatype 'e storage_error =
    TrieError string
  | GoTo string
  | Transaction string
  | Merge string
  | Database 'e
  | NodeDecodeError
  | KeyLength (expected: nat) (got: nat)

text \<open>
  A call ends with a value, with an error value (\<^verbatim>\<open>Err\<close>), with a panic (a failed
  \<^verbatim>\<open>expect\<close>, \<^verbatim>\<open>unwrap\<close>, assertion or index), or the model's loop bound is used up.
\<close>

datatype 'e failure =
    Err "'e storage_error"
  | Panic string
  | OutOfFuel

type_synonym ('e, 'a) outcome = "'e failure + 'a"

text \<open>A computation over a state that keeps the state reached when it fails.\<close>

type_synonym ('s, 'e, 'a) action = "'s \<Rightarrow> ('e, 'a) outcome \<times> 's"

definition and_then :: "('e, 'a) outcome \<Rightarrow> ('a \<Rightarrow> ('e, 'b) outcome) \<Rightarrow> ('e, 'b) outcome" where
  "and_then m f = (case m of Inl e \<Rightarrow> Inl e | Inr a \<Rightarrow> f a)"

definition bindS :: "('s, 'e, 'a) action \<Rightarrow> ('a \<Rightarrow> ('s, 'e, 'b) action) \<Rightarrow> ('s, 'e, 'b) action" where
  "bindS m f s = (case m s of (r, s') \<Rightarrow> (case r of Inl e \<Rightarrow> (Inl e, s') | Inr a \<Rightarrow> f a s'))"

definition retS :: "'a \<Rightarrow> ('s, 'e, 'a) action" where
  "retS a s = (Inr a, s)"

definition failS :: "'e failure \<Rightarrow> ('s, 'e, 'a) action" where
  "failS e s = (Inl e, s)"

text \<open>A pure fallible call inside a stateful one, and a call on a part of the state.\<close>

definition liftS :: "('e, 'a) outcome \<Rightarrow> ('s, 'e, 'a) action" where
  "liftS r s = (r, s)"

section \<open>Containers\<close>

text \<open>
  A \<^verbatim>\<open>HashMap\<close> is an association list; its order stands for the iteration order, about
  which the crate promises nothing.
\<close>

type_synonym ('k, 'v) hash_map = "('k \<times> 'v) list"

definition hm_get :: "('k, 'v) hash_map \<Rightarrow> 'k \<Rightarrow> 'v option" where
  "hm_get m k = map_of m k"

definition hm_insert :: "'k \<Rightarrow> 'v \<Rightarrow> ('k, 'v) hash_map \<Rightarrow> ('k, 'v) hash_map" where
  "hm_insert k v m = AList.update k v m"

definition hm_remove :: "'k \<Rightarrow> ('k, 'v) hash_map \<Rightarrow> ('k, 'v) hash_map" where
  "hm_remove k m = AList.delete k m"

definition hm_wf :: "('k, 'v) hash_map \<Rightarrow> bool" where
  "hm_wf m \<longleftrightarrow> distinct (map fst m)"

text \<open>
  A \<^verbatim>\<open>SlotMap\<close>: \<open>insert\<close> hands out a key that was never handed out before,
  \<open>get\<close> of a removed key is \<open>None\<close>.
\<close>

record 'v slot_map =
  sm_next :: nat
  sm_slots :: "nat \<rightharpoonup> 'v"

definition sm_empty :: "'v slot_map" where
  "sm_empty = \<lparr>sm_next = 0, sm_slots = Map.empty\<rparr>"

definition sm_insert :: "'v \<Rightarrow> 'v slot_map \<Rightarrow> nat \<times> 'v slot_map" where
  "sm_insert v m =
     (sm_next m, m\<lparr>sm_next := Suc (sm_next m), sm_slots := (sm_slots m)(sm_next m \<mapsto> v)\<rparr>)"

definition sm_get :: "'v slot_map \<Rightarrow> nat \<Rightarrow> 'v option" where
  "sm_get m k = sm_slots m k"

definition sm_set :: "nat \<Rightarrow> 'v \<Rightarrow> 'v slot_map \<Rightarrow> 'v slot_map" where
  "sm_set k v m = m\<lparr>sm_slots := (sm_slots m)(k \<mapsto> v)\<rparr>"

definition sm_remove :: "nat \<Rightarrow> 'v slot_map \<Rightarrow> 'v slot_map" where
  "sm_remove k m = m\<lparr>sm_slots := (sm_slots m)(k := None)\<rparr>"

definition sm_wf :: "'v slot_map \<Rightarrow> bool" where
  "sm_wf m \<longleftrightarrow> (\<forall>k \<in> dom (sm_slots m). k < sm_next m)"

section \<open>Indexing that panics\<close>

definition index :: "'a list \<Rightarrow> nat \<Rightarrow> ('e, 'a) outcome" where
  "index xs i = (if i < length xs then Inr (xs ! i) else Inl (Panic ''index out of bounds''))"

definition slice_from :: "'a list \<Rightarrow> nat \<Rightarrow> ('e, 'a list) outcome" where
  "slice_from xs i =
     (if i \<le> length xs then Inr (drop i xs) else Inl (Panic ''slice index out of bounds''))"

definition slice_to :: "'a list \<Rightarrow> nat \<Rightarrow> ('e, 'a list) outcome" where
  "slice_to xs i =
     (if i \<le> length xs then Inr (take i xs) else Inl (Panic ''slice index out of bounds''))"

text \<open>The length of the longest common prefix, as the code counts it.\<close>

definition common_len :: "'a list \<Rightarrow> 'a list \<Rightarrow> nat" where
  "common_len xs ys = length (takeWhile (\<lambda>(a, b). a = b) (zip xs ys))"

section \<open>Lemmas on the combinators\<close>

lemma and_then_simps [simp]:
  "and_then (Inl e) f = Inl e"
  "and_then (Inr a) f = f a"
  by (simp_all add: and_then_def)

lemma and_then_Inr_iff:
  "and_then m f = Inr b \<longleftrightarrow> (\<exists>a. m = Inr a \<and> f a = Inr b)"
  by (cases m) auto

lemma bindS_Inr [run_simps]: "m s = (Inr a, s') \<Longrightarrow> bindS m f s = f a s'"
  by (simp add: bindS_def)

lemma bindS_Inl [run_simps]: "m s = (Inl e, s') \<Longrightarrow> bindS m f s = (Inl e, s')"
  by (simp add: bindS_def)

lemma retS_simp [simp]: "retS a s = (Inr a, s)"
  by (simp add: retS_def)

lemma failS_simp [simp]: "failS e s = (Inl e, s)"
  by (simp add: failS_def)

lemma liftS_simp [simp]: "liftS r s = (r, s)"
  by (simp add: liftS_def)

lemma bindS_retS [simp]: "bindS (retS a) f = f a"
  by (rule ext) (simp add: bindS_def)

lemma bindS_failS [simp]: "bindS (failS e) f = failS e"
  by (rule ext) (simp add: bindS_def)

lemma bindS_liftS [simp]:
  "bindS (liftS (Inr a)) f = f a"
  "bindS (liftS (Inl e)) f = failS e"
  by (rule ext, simp add: bindS_def)+

section \<open>Lemmas on the containers\<close>

lemma hm_get_insert [hm_simps]:
  "hm_get (hm_insert k v m) k' = (if k' = k then Some v else hm_get m k')"
  by (simp add: hm_get_def hm_insert_def AList.update_conv')

lemma hm_get_remove [hm_simps]:
  "hm_get (hm_remove k m) k' = (if k' = k then None else hm_get m k')"
  by (simp add: hm_get_def hm_remove_def AList.delete_conv')

lemma hm_get_Nil [simp]: "hm_get [] k = None"
  by (simp add: hm_get_def)

lemma hm_wf_Nil [simp]: "hm_wf []"
  by (simp add: hm_wf_def)

lemma hm_wf_insert [simp]: "hm_wf m \<Longrightarrow> hm_wf (hm_insert k v m)"
  by (simp add: hm_wf_def hm_insert_def AList.distinct_update)

lemma hm_wf_remove [simp]: "hm_wf m \<Longrightarrow> hm_wf (hm_remove k m)"
  by (simp add: hm_wf_def hm_remove_def AList.distinct_delete)

lemma sm_wf_empty [simp]: "sm_wf sm_empty"
  by (simp add: sm_wf_def sm_empty_def)

lemma sm_wf_insert: "sm_wf m \<Longrightarrow> sm_insert v m = (k, m') \<Longrightarrow> sm_wf m'"
  by (fastforce simp: sm_wf_def sm_insert_def less_Suc_eq split: if_splits)

lemma sm_wf_set: "sm_wf m \<Longrightarrow> sm_get m k \<noteq> None \<Longrightarrow> sm_wf (sm_set k v m)"
  by (auto simp: sm_wf_def sm_set_def sm_get_def)

lemma sm_wf_remove: "sm_wf m \<Longrightarrow> sm_wf (sm_remove k m)"
  by (auto simp: sm_wf_def sm_remove_def split: if_splits)

lemma sm_insert_fresh: "sm_wf m \<Longrightarrow> sm_insert v m = (k, m') \<Longrightarrow> sm_get m k = None"
  by (auto simp: sm_wf_def sm_insert_def sm_get_def)

section \<open>Lemmas on lists\<close>

lemma index_simps [simp]: "i < length xs \<Longrightarrow> index xs i = Inr (xs ! i)"
  by (simp add: index_def)

lemma slice_from_simps [simp]: "i \<le> length xs \<Longrightarrow> slice_from xs i = Inr (drop i xs)"
  by (simp add: slice_from_def)

lemma slice_to_simps [simp]: "i \<le> length xs \<Longrightarrow> slice_to xs i = Inr (take i xs)"
  by (simp add: slice_to_def)

lemma common_len_simps [simp]:
  "common_len [] ys = 0"
  "common_len xs [] = 0"
  "common_len (x # xs) (y # ys) = (if x = y then Suc (common_len xs ys) else 0)"
  by (simp_all add: common_len_def)

lemma common_len_le: "common_len xs ys \<le> length xs" "common_len xs ys \<le> length ys"
  by (induction xs ys rule: list_induct2') auto

lemma common_len_take: "take (common_len xs ys) xs = take (common_len xs ys) ys"
  by (induction xs ys rule: list_induct2') auto

lemma common_len_differ:
  "common_len xs ys < length xs \<Longrightarrow> common_len xs ys < length ys \<Longrightarrow>
    xs ! common_len xs ys \<noteq> ys ! common_len xs ys"
  by (induction xs ys rule: list_induct2') auto

lemma common_len_prefix: "common_len xs ys = length ys \<longleftrightarrow> take (length ys) xs = ys"
  by (induction xs ys rule: list_induct2') auto

lemma not_prefix_split:
  assumes no: "\<not> prefix q k" and le: "length q \<le> length k"
  obtains c b k' q' where "k = c @ b # k'" and "q = c @ (\<not> b) # q'" and "length c = common_len k q"
proof -
  let ?n = "common_len k q"
  have lt: "?n < length q"
    using no common_len_le(2) [of k q] common_len_prefix [of k q] take_is_prefix [of "length q" k]
    by (metis le_neq_implies_less)
  then have lk: "?n < length k" using le by simp
  have "k = take ?n k @ k ! ?n # drop (Suc ?n) k"
    using lk by (simp add: id_take_nth_drop)
  moreover have "q = take ?n k @ q ! ?n # drop (Suc ?n) q"
    using lt common_len_take [of k q] by (simp add: id_take_nth_drop)
  moreover have "q ! ?n = (\<not> k ! ?n)"
    using common_len_differ [OF lk lt] by auto
  ultimately show thesis using that [of "take ?n k" "k ! ?n" "drop (Suc ?n) k" "drop (Suc ?n) q"] lk
    by simp
qed

lemma prefix_same_length: "length xs = length ys \<Longrightarrow> prefix xs ys \<longleftrightarrow> xs = ys"
  by (auto simp: prefix_def)

lemma take_eq_iff_append: "take (length q) k = q \<longleftrightarrow> (\<exists>k'. k = q @ k')"
  by (metis append_eq_conv_conj append_take_drop_id)

end
