(* ===== verification/Trie_Path.thy ===== *)
theory Trie_Path
  imports Prelude
begin

text \<open>
  Paths (\<^verbatim>\<open>src/src/trie/path.rs\<close>) and the two conversions between keys and bytes at the
  end of \<^verbatim>\<open>src/src/trie/tree.rs\<close>. A \<open>Path\<close> is a bit vector; it is encoded as one
  length byte followed by the bits packed most significant first. Both loops are written as
  in the source. A key is a bit slice, which starts somewhere in a byte: the repository's own
  keys are \<open>[5..]\<close> of the 32 bytes of a field element. The slice is modelled by its bits and the
  offset \<open>off\<close> of its first bit in its byte, a number below eight. Paths are written bit by bit, so
  that the offset does not matter for them; it does for the raw bytes of a key.
\<close>

unbundle bit_operations_syntax

section \<open>Definitions\<close>

datatype direction = Left | Right

fun invert :: "direction \<Rightarrow> direction" where
  "invert Left = Right"
| "invert Right = Left"

definition direction_of_bool :: "bool \<Rightarrow> direction" where
  "direction_of_bool tf = (if tf then Right else Left)"

definition bool_of_direction :: "direction \<Rightarrow> bool" where
  "bool_of_direction d = (case d of Left \<Rightarrow> False | Right \<Rightarrow> True)"

definition new_with_direction :: "bits \<Rightarrow> direction \<Rightarrow> bits" where
  "new_with_direction path direction = path @ [bool_of_direction direction]"

subsection \<open>Encoding: \<open>impl Encode for Path\<close>\<close>

text \<open>The loop over the bits: the byte being filled, and the position of the next bit in it.\<close>

fun encode_loop :: "bits \<Rightarrow> byte \<Rightarrow> nat \<Rightarrow> bytes" where
  "encode_loop [] next_store pos = (if pos < 7 then [next_store] else [])"
| "encode_loop (b # bs) next_store pos =
     (let next_store = next_store OR push_bit pos (if b then 1 else 0) in
      if pos = 0 then next_store # encode_loop bs 0 7
      else encode_loop bs next_store (pos - 1))"

definition path_encode :: "bits \<Rightarrow> bytes" where
  "path_encode path = word_of_nat (length path) # encode_loop path 0 7"

definition path_size_hint :: "bits \<Rightarrow> nat" where
  "path_size_hint path = 1 + (length path + 7) div 8"

subsection \<open>Decoding: \<open>impl Decode for Path\<close>\<close>

fun decode_loop :: "nat \<Rightarrow> byte option \<Rightarrow> nat \<Rightarrow> bytes \<Rightarrow> bits \<Rightarrow> (bits \<times> bytes) option" where
  "decode_loop 0 current_byte bt input bits = Some (bits, input)"
| "decode_loop (Suc remaining) current_byte bt input bits =
     (case (case current_byte of Some store \<Rightarrow> Some (store, input)
            | None \<Rightarrow> (case input of [] \<Rightarrow> None | s # input' \<Rightarrow> Some (s, input'))) of
        None \<Rightarrow> None
      | Some (store, input') \<Rightarrow>
          (let res = (drop_bit bt store AND 1 = 1) in
           if bt = 0 then decode_loop remaining None 7 input' (bits @ [res])
           else decode_loop remaining (Some store) (bt - 1) input' (bits @ [res])))"

text \<open>\<open>Path::decode\<close>: the decoded path and the input that is left; \<open>None\<close> when it runs out.\<close>

definition path_decode :: "bytes \<Rightarrow> (bits \<times> bytes) option" where
  "path_decode input =
     (case input of [] \<Rightarrow> None | len # input' \<Rightarrow> decode_loop (unat len) None 7 input' [])"

subsection \<open>Keys as bytes\<close>

fun pack_byte :: "nat \<Rightarrow> bits \<Rightarrow> byte" where
  "pack_byte pos [] = 0"
| "pack_byte pos (b # bs) = push_bit pos (if b then 1 else 0) OR pack_byte (pos - 1) bs"

text \<open>Bits packed into bytes, the first one into the most significant place.\<close>

fun pack_bytes :: "bits \<Rightarrow> bytes" where
  "pack_bytes bs = (if bs = [] then [] else pack_byte 7 (take 8 bs) # pack_bytes (drop 8 bs))"

declare pack_bytes.simps [simp del]

text \<open>
  \<open>to_bitvec().as_raw_slice()\<close>: the copy keeps the offset of the slice, and the bits around it are
  zero.
\<close>

definition as_raw_slice :: "nat \<Rightarrow> bits \<Rightarrow> bytes" where
  "as_raw_slice off bs = pack_bytes (replicate off False @ bs)"

definition byte_bits :: "byte \<Rightarrow> bits" where
  "byte_bits w = map (bit w) [7, 6, 5, 4, 3, 2, 1, 0]"

definition bitslice_to_bytes :: "nat \<Rightarrow> bits \<Rightarrow> bytes" where
  "bitslice_to_bytes off bitslice =
     (if bitslice = [] then [] else word_of_nat (length bitslice) # as_raw_slice off bitslice)"

text \<open>\<open>bytes[1..]\<close> panics on the empty slice.\<close>

definition bytes_to_bitvec :: "bytes \<Rightarrow> ('e, bits) outcome" where
  "bytes_to_bitvec bs = and_then (slice_from bs 1) (\<lambda>bs'. Inr (concat (map byte_bits bs')))"

section \<open>Directions\<close>

lemma direction_bool_inverse [simp]:
  "bool_of_direction (direction_of_bool b) = b"
  "direction_of_bool (bool_of_direction d) = d"
  by (auto simp: direction_of_bool_def bool_of_direction_def split: direction.splits)

lemma invert_invert [simp]: "invert (invert d) = d"
  by (cases d) auto

lemma bool_of_invert [simp]: "bool_of_direction (invert d) = (\<not> bool_of_direction d)"
  by (cases d) (auto simp: bool_of_direction_def)

section \<open>The path codec\<close>

lemma bit_byte_push_bool:
  "bit (push_bit pos (if b then 1 else 0) :: byte) i \<longleftrightarrow> b \<and> i = pos \<and> i < 8"
  by (auto simp: bit_simps)

lemma drop_bit_AND_1: "drop_bit i (w :: byte) AND 1 = 1 \<longleftrightarrow> bit w i"
  by (simp add: bit_iff_odd_drop_bit and_one_eq odd_iff_mod_2_eq_one)

lemma AND_1_bit_0: "(w :: byte) AND 1 = 1 \<longleftrightarrow> bit w 0"
  using drop_bit_AND_1 [of 0 w] by simp

text \<open>
  The decoder undoes the encoder: the bits already in the byte above \<open>pos\<close> stay, and the
  bits read from \<open>pos\<close> on are the ones that were written.
\<close>

lemma decode_encode_loop:
  assumes "\<forall>i \<le> pos. \<not> bit store i" and "pos \<le> 7" and "bs \<noteq> [] \<or> pos < 7"
  shows "\<exists>x rest. encode_loop bs store pos = x # rest \<and> (\<forall>i > pos. bit x i = bit store i) \<and>
           (\<forall>zs acc. decode_loop (length bs) (Some x) pos (rest @ zs) acc = Some (acc @ bs, zs))"
  using assms
proof (induction bs arbitrary: store pos)
  case Nil
  then show ?case by simp
next
  case (Cons b bs)
  define store' where "store' = store OR push_bit pos (if b then 1 else 0 :: byte)"
  have above: "bit store' i = bit store i" if "i > pos" for i
    using that by (simp add: store'_def bit_or_iff bit_byte_push_bool)
  have below: "\<not> bit store' i" if "i < pos" for i
    using that Cons.prems(1) by (simp add: store'_def bit_or_iff bit_byte_push_bool)
  have at: "bit store' pos = b"
    using Cons.prems(1,2) by (simp add: store'_def bit_or_iff bit_byte_push_bool)
  show ?case
  proof (cases "pos = 0")
    case True
    have "decode_loop (length bs) None 7 (encode_loop bs 0 7 @ zs) acc = Some (acc @ bs, zs)" for zs acc
    proof (cases "bs = []")
      case False
      then obtain x rest where *: "encode_loop bs 0 7 = x # rest"
        "\<And>zs acc. decode_loop (length bs) (Some x) 7 (rest @ zs) acc = Some (acc @ bs, zs)"
        using Cons.IH [of 7 0] by auto
      then show ?thesis using False by (cases bs) (simp_all add: Let_def)
    qed simp
    moreover have "encode_loop (b # bs) store pos = store' # encode_loop bs 0 7"
      using True by (simp add: store'_def Let_def)
    ultimately show ?thesis
      using True above at by (simp add: AND_1_bit_0)
  next
    case False
    then have "pos - 1 \<le> 7" "pos - 1 < 7" "\<forall>i \<le> pos - 1. \<not> bit store' i"
      using Cons.prems(2) below by auto
    then obtain x rest where *: "encode_loop bs store' (pos - 1) = x # rest"
      "\<forall>i > pos - 1. bit x i = bit store' i"
      "\<And>zs acc. decode_loop (length bs) (Some x) (pos - 1) (rest @ zs) acc = Some (acc @ bs, zs)"
      using Cons.IH [of "pos - 1" store'] by blast
    then have "bit x pos = b" using at False by auto
    moreover have "encode_loop (b # bs) store pos = x # rest"
      using False * by (simp add: store'_def Let_def)
    ultimately show ?thesis
      using False * above by (simp add: drop_bit_AND_1)
  qed
qed

lemma encode_loop_7_Nil [simp]: "encode_loop [] 0 7 = []"
  by simp

lemma decode_loop_encode:
  "decode_loop (length bs) None 7 (encode_loop bs 0 7 @ zs) acc = Some (acc @ bs, zs)"
proof (cases bs)
  case (Cons b bs')
  then obtain x rest where "encode_loop bs 0 7 = x # rest"
    "\<And>zs acc. decode_loop (length bs) (Some x) 7 (rest @ zs) acc = Some (acc @ bs, zs)"
    using decode_encode_loop [of 7 0 bs] by auto
  then show ?thesis using Cons by (simp add: Let_def)
qed simp

lemma path_decode_encode:
  assumes "length p \<le> 255"
  shows "path_decode (path_encode p @ zs) = Some (p, zs)"
proof -
  have "unat (word_of_nat (length p) :: byte) = length p"
    using assms by (simp add: unat_of_nat)
  then show ?thesis
    using decode_loop_encode [of p zs "[]"]
    by (simp only: path_decode_def path_encode_def append_Cons list.case append_Nil)
qed

lemma path_encode_inj:
  assumes "length p \<le> 255" "length q \<le> 255" "path_encode p = path_encode q"
  shows "p = q"
  using path_decode_encode [OF assms(1), of "[]"] path_decode_encode [OF assms(2), of "[]"] assms(3)
  by (metis option.inject prod.inject)

text \<open>No encoding is a proper prefix of another one.\<close>

lemma path_encode_append_inj:
  assumes "length p \<le> 255" "length q \<le> 255" "path_encode p @ xs = path_encode q @ ys"
  shows "p = q \<and> xs = ys"
  using path_decode_encode [OF assms(1), of xs] path_decode_encode [OF assms(2), of ys] assms(3)
  by (metis option.inject prod.inject)

lemma length_encode_loop:
  "pos \<le> 7 \<Longrightarrow> length (encode_loop bs st pos) = (length bs + (7 - pos) + 7) div 8"
proof (induction bs arbitrary: st pos)
  case Nil
  then show ?case by auto
next
  case (Cons b bs)
  show ?case
  proof (cases "pos = 0")
    case True
    then show ?thesis using Cons.IH [of 7] by (simp add: Let_def)
  next
    case False
    then show ?thesis using Cons.IH [of "pos - 1"] Cons.prems by (simp add: Let_def)
  qed
qed

lemma length_path_encode: "length (path_encode p) = path_size_hint p"
  by (simp add: path_encode_def path_size_hint_def length_encode_loop)

section \<open>Keys as bytes\<close>

lemma encode_loop_pack:
  "pos \<le> 7 \<Longrightarrow> encode_loop bs st pos =
     (if bs = [] \<and> pos = 7 then [] else
      (st OR pack_byte pos (take (Suc pos) bs)) # encode_loop (drop (Suc pos) bs) 0 7)"
proof (induction bs arbitrary: st pos)
  case (Cons b bs)
  show ?case
  proof (cases "pos = 0")
    case False
    then have "pos - 1 < 7" using Cons.prems by simp
    then show ?thesis
      using False Cons.IH [of "pos - 1"] Cons.prems by (simp add: Let_def or.assoc)
  qed (simp add: Let_def)
qed auto

lemma encode_loop_raw: "encode_loop bs 0 7 = pack_bytes bs"
proof (induction bs rule: pack_bytes.induct)
  case (1 bs)
  show ?case
  proof (cases "bs = []")
    case True
    then show ?thesis by (simp add: pack_bytes.simps)
  next
    case False
    then show ?thesis
      using "1.IH" encode_loop_pack [of 7 bs 0] by (simp add: pack_bytes.simps [of bs])
  qed
qed

lemma bitslice_to_bytes_path: "k \<noteq> [] \<Longrightarrow> bitslice_to_bytes 0 k = path_encode k"
  by (simp add: bitslice_to_bytes_def as_raw_slice_def path_encode_def encode_loop_raw)

lemma hd_bitslice_to_bytes: "k \<noteq> [] \<Longrightarrow> bitslice_to_bytes off k = word_of_nat (length k) # as_raw_slice off k"
  by (simp add: bitslice_to_bytes_def)

lemma bitslice_to_bytes_Nil [simp]: "bitslice_to_bytes off [] = []" "bitslice_to_bytes off k = [] \<longleftrightarrow> k = []"
  by (simp_all add: bitslice_to_bytes_def)

lemma path_encode_Nil: "path_encode [] = [0]"
  by (simp add: path_encode_def)

lemma path_encode_not_Nil [simp]: "path_encode p \<noteq> []"
  by (simp add: path_encode_def)

lemma hd_path_encode [simp]: "hd (path_encode p) = word_of_nat (length p)"
  by (simp add: path_encode_def)

lemma bit_pack_byte:
  "pos \<le> 7 \<Longrightarrow> length bs \<le> Suc pos \<Longrightarrow>
    bit (pack_byte pos bs) i \<longleftrightarrow> i \<le> pos \<and> pos - i < length bs \<and> bs ! (pos - i)"
proof (induction bs arbitrary: pos)
  case (Cons b bs)
  show ?case
  proof (cases "pos = 0")
    case True
    then show ?thesis using Cons.prems by (auto simp: bit_or_iff bit_1_iff)
  next
    case False
    then have IH: "bit (pack_byte (pos - 1) bs) i \<longleftrightarrow>
        i \<le> pos - 1 \<and> pos - 1 - i < length bs \<and> bs ! (pos - 1 - i)"
      using Cons by simp
    show ?thesis
    proof (cases "i < pos")
      case True
      then have "pos - i = Suc (pos - 1 - i)" by simp
      then show ?thesis using True Cons.prems IH by (auto simp: bit_or_iff bit_byte_push_bool)
    next
      case False
      then show ?thesis using \<open>pos \<noteq> 0\<close> Cons.prems IH by (auto simp: bit_or_iff bit_byte_push_bool)
    qed
  qed
qed simp

lemma byte_bits_pack_byte:
  assumes "length bs \<le> 8"
  shows "byte_bits (pack_byte 7 bs) = bs @ replicate (8 - length bs) False"
proof (rule nth_equalityI)
  fix i assume "i < length (byte_bits (pack_byte 7 bs))"
  then have i: "i < 8" by (simp add: byte_bits_def)
  have "byte_bits (pack_byte 7 bs) ! i = bit (pack_byte 7 bs) ([7, 6, 5, 4, 3, 2, 1, 0] ! i)"
    using i unfolding byte_bits_def by (subst nth_map) simp_all
  also have "[7, 6, 5, 4, 3, 2, 1, 0 :: nat] ! i = 7 - i"
    using i by (auto simp: less_Suc_eq numeral_eq_Suc)
  finally show "byte_bits (pack_byte 7 bs) ! i = (bs @ replicate (8 - length bs) False) ! i"
    using i assms by (auto simp: bit_pack_byte nth_append)
qed (use assms in \<open>simp add: byte_bits_def\<close>)

lemma concat_byte_bits_pack:
  "concat (map byte_bits (pack_bytes bs)) = bs @ replicate ((8 - length bs mod 8) mod 8) False"
proof (induction bs rule: pack_bytes.induct)
  case (1 bs)
  show ?case
  proof (cases "bs = []")
    case True
    then show ?thesis by (simp add: pack_bytes.simps)
  next
    case False
    show ?thesis
    proof (cases "length bs \<le> 8")
      case True
      then have "(8 - length bs mod 8) mod 8 = 8 - length bs"
        using False by (cases "length bs = 8") auto
      then show ?thesis
        using False True by (simp add: pack_bytes.simps [of bs] pack_bytes.simps [of "[]"]
            byte_bits_pack_byte)
    next
      case gt: False
      then have "(length bs - 8) mod 8 = length bs mod 8"
        by (metis le_mod_geq linorder_not_le nat_less_le)
      then show ?thesis
        using False gt "1.IH" by (simp add: pack_bytes.simps [of bs] byte_bits_pack_byte)
    qed
  qed
qed

lemma pack_bytes_inj:
  assumes "length bs = length cs" "pack_bytes bs = pack_bytes cs"
  shows "bs = cs"
proof -
  have "concat (map byte_bits (pack_bytes bs)) = concat (map byte_bits (pack_bytes cs))" by (simp only: assms(2))
  then show ?thesis by (simp only: concat_byte_bits_pack assms(1) append_same_eq)
qed

text \<open>Keys of one offset have different bytes.\<close>

lemma bitslice_to_bytes_inj:
  assumes "length k \<le> 255" "length k' \<le> 255" "bitslice_to_bytes off k = bitslice_to_bytes off k'"
  shows "k = k'"
proof (cases "k = [] \<or> k' = []")
  case True
  then show ?thesis using assms(3) by (auto simp: bitslice_to_bytes_def split: if_splits)
next
  case False
  then have len: "(word_of_nat (length k) :: byte) = word_of_nat (length k')" and raw: "as_raw_slice off k = as_raw_slice off k'"
    using assms(3) by (simp_all add: bitslice_to_bytes_def)
  have "unat (word_of_nat (length k) :: byte) = length k" "unat (word_of_nat (length k') :: byte) = length k'"
    using assms(1,2) by (simp_all add: unat_of_nat)
  then have "length k = length k'" using len by metis
  then have "replicate off False @ k = replicate off False @ k'"
    by (intro pack_bytes_inj raw [unfolded as_raw_slice_def]) simp
  then show ?thesis by (simp only: same_append_eq)
qed

lemma bytes_to_bitvec_of_key:
  "k \<noteq> [] \<Longrightarrow> bytes_to_bitvec (bitslice_to_bytes off k) =
     Inr (replicate off False @ k @ replicate ((8 - (off + length k) mod 8) mod 8) False)"
  by (simp add: bytes_to_bitvec_def bitslice_to_bytes_def as_raw_slice_def concat_byte_bits_pack slice_from_def)

text \<open>
  Keys of different offsets can have the same bytes, and so can a key and the path to another node:
  zeros at the end of the one are the offset of the other.
\<close>

lemma padding: "(8 - l mod 8) mod 8 = 8 * ((l + 7) div 8) - (l :: nat)"
proof -
  define q r where "q = l div 8" and "r = l mod 8"
  then have l: "l = 8 * q + r" "r < 8" by simp_all
  show ?thesis
  proof (cases "r = 0")
    case False
    then have "(l + 7) div 8 = Suc q" using l by simp
    then show ?thesis using l False by simp
  qed (use l in simp)
qed

lemma length_pack_bytes: "length (pack_bytes bs) = (length bs + 7) div 8"
  using length_encode_loop [of 7 bs 0] encode_loop_raw [of bs] by simp

lemma byte_bits_inj: "byte_bits x = byte_bits y \<Longrightarrow> x = y"
proof (rule bit_word_eqI)
  fix i assume eq: "byte_bits x = byte_bits y" and i: "i < LENGTH(8)"
  have "byte_bits z ! (7 - i) = bit z i" for z
  proof -
    have "[7, 6, 5, 4, 3, 2, 1, 0 :: nat] ! (7 - i) = i" using i by (auto simp: less_Suc_eq numeral_eq_Suc)
    then show ?thesis unfolding byte_bits_def by (subst nth_map) simp_all
  qed
  then show "bit x i = bit y i" using eq by metis
qed

lemma concat_byte_bits_inj: "length xs = length ys \<Longrightarrow> concat (map byte_bits xs) = concat (map byte_bits ys) \<Longrightarrow> xs = ys"
proof (induction xs ys rule: list_induct2)
  case (Cons x xs y ys)
  have "length (byte_bits x) = length (byte_bits y)" by (simp add: byte_bits_def)
  then have "byte_bits x = byte_bits y" "concat (map byte_bits xs) = concat (map byte_bits ys)"
    using Cons.prems append_eq_append_conv [of "byte_bits x" "byte_bits y"] by auto
  then show ?case using Cons.IH byte_bits_inj by blast
qed simp

text \<open>The raw bytes of a slice of bytes whose bits before the slice are zero are these bytes.\<close>

lemma length_concat_byte_bits [simp]: "length (concat (map byte_bits bs)) = 8 * length bs"
  by (induction bs) (simp_all add: byte_bits_def)

lemma as_raw_slice_of_bytes:
  assumes "take off (concat (map byte_bits bs)) = replicate off False"
  shows "as_raw_slice off (drop off (concat (map byte_bits bs))) = bs"
proof -
  let ?x = "concat (map byte_bits bs)"
  have "replicate off False @ drop off ?x = ?x" using assms by (metis append_take_drop_id)
  moreover have "concat (map byte_bits (pack_bytes ?x)) = ?x" by (simp add: concat_byte_bits_pack)
  ultimately show ?thesis by (simp add: as_raw_slice_def concat_byte_bits_inj length_pack_bytes)
qed

lemma pack_bytes_zeros:
  assumes "(length bs + 7) div 8 = (length bs + n + 7) div 8"
  shows "pack_bytes (bs @ replicate n False) = pack_bytes bs"
proof -
  let ?l = "length bs"
  have "?l + n \<le> 8 * ((?l + 7) div 8)" unfolding assms by simp
  then have "n + (8 * ((?l + n + 7) div 8) - (?l + n)) = 8 * ((?l + 7) div 8) - ?l" unfolding assms by simp
  then have "concat (map byte_bits (pack_bytes (bs @ replicate n False))) = concat (map byte_bits (pack_bytes bs))"
    unfolding concat_byte_bits_pack padding by (simp add: replicate_app_Cons_same flip: replicate_add)
  then show ?thesis using assms by (intro concat_byte_bits_inj) (simp_all add: length_pack_bytes)
qed

lemma offset_collides:
  assumes "k \<noteq> []" "(length k + off + 7) div 8 = (length k + off + off + 7) div 8"
  shows "bitslice_to_bytes off (k @ replicate off False) = path_encode (replicate off False @ k)"
proof -
  have "pack_bytes ((replicate off False @ k) @ replicate off False) = pack_bytes (replicate off False @ k)"
    by (rule pack_bytes_zeros) (use assms(2) in \<open>simp add: ac_simps\<close>)
  then show ?thesis
    using assms(1) by (simp add: bitslice_to_bytes_def as_raw_slice_def path_encode_def encode_loop_raw add.commute)
qed

end
