(* ===== verification/Trie_Key.thy ===== *)
theory Trie_Key
  imports Trie_Path
begin

text \<open>
  Database keys: \<^verbatim>\<open>src/src/trie/trie_db.rs\<close> and the \<open>DatabaseKey\<close> of
  \<^verbatim>\<open>src/src/bonsai_database.rs\<close>. A trie key is the identifier of the tree followed by
  the encoded position, in one of two columns; the identifier is not delimited, so the lemmas
  say when the keys of two trees are kept apart.
\<close>

section \<open>Definitions\<close>

datatype trie_key = Trie bytes | Flat bytes

datatype trie_key_type = TrieType | FlatType

fun trie_key_type_u8 :: "trie_key_type \<Rightarrow> byte" where
  "trie_key_type_u8 TrieType = 0"
| "trie_key_type_u8 FlatType = 1"

fun trie_key_u8 :: "trie_key \<Rightarrow> byte" where
  "trie_key_u8 (Trie _) = trie_key_type_u8 TrieType"
| "trie_key_u8 (Flat _) = trie_key_type_u8 FlatType"

definition trie_key_new :: "bytes \<Rightarrow> trie_key_type \<Rightarrow> bytes \<Rightarrow> trie_key" where
  "trie_key_new identifier key_type key =
     (let final_key = identifier @ key in
      case key_type of TrieType \<Rightarrow> Trie final_key | FlatType \<Rightarrow> Flat final_key)"

definition from_variant_and_bytes :: "byte \<Rightarrow> bytes \<Rightarrow> ('e, trie_key) outcome" where
  "from_variant_and_bytes variant bs =
     (if variant = trie_key_type_u8 TrieType then Inr (Trie bs)
      else if variant = trie_key_type_u8 FlatType then Inr (Flat bs)
      else Inl (Panic ''Invalid trie key type''))"

fun as_slice :: "trie_key \<Rightarrow> bytes" where
  "as_slice (Trie bs) = bs"
| "as_slice (Flat bs) = bs"

datatype database_key = DbTrie bytes | DbFlat bytes | DbTrieLog bytes

fun db_as_slice :: "database_key \<Rightarrow> bytes" where
  "db_as_slice (DbTrie bs) = bs"
| "db_as_slice (DbFlat bs) = bs"
| "db_as_slice (DbTrieLog bs) = bs"

fun database_key_of :: "trie_key \<Rightarrow> database_key" where
  "database_key_of (Trie bs) = DbTrie bs"
| "database_key_of (Flat bs) = DbFlat bs"

text \<open>The key of the node at a position of a tree, and of a leaf value.\<close>

abbreviation branch_key :: "bytes \<Rightarrow> bits \<Rightarrow> trie_key" where
  "branch_key identifier path \<equiv> trie_key_new identifier TrieType (path_encode path)"

abbreviation leaf_key :: "nat \<Rightarrow> bytes \<Rightarrow> bits \<Rightarrow> trie_key" where
  "leaf_key off identifier key \<equiv> trie_key_new identifier FlatType (bitslice_to_bytes off key)"

section \<open>Lemmas\<close>

lemma trie_key_new_simps [simp]:
  "trie_key_new i TrieType k = Trie (i @ k)"
  "trie_key_new i FlatType k = Flat (i @ k)"
  by (simp_all add: trie_key_new_def)

lemma from_variant_and_bytes_key [simp]: "from_variant_and_bytes (trie_key_u8 k) (as_slice k) = Inr k"
  by (cases k) (simp_all add: from_variant_and_bytes_def)

lemma from_variant_and_bytes_type [simp]:
  "from_variant_and_bytes 0 bs = Inr (Trie bs)" "from_variant_and_bytes 1 bs = Inr (Flat bs)"
  by (simp_all add: from_variant_and_bytes_def)

lemma database_key_of_inj [simp]: "database_key_of k = database_key_of k' \<longleftrightarrow> k = k'"
  by (cases k; cases k') simp_all

lemma database_key_of_not_log [simp]:
  "database_key_of k \<noteq> DbTrieLog l" "DbTrieLog l \<noteq> database_key_of k"
  by (cases k, simp_all)+

lemma branch_key_inj:
  "length p \<le> 255 \<Longrightarrow> length q \<le> 255 \<Longrightarrow> branch_key i p = branch_key i q \<longleftrightarrow> p = q"
  using path_encode_inj by auto

lemma leaf_key_inj:
  "length p \<le> 255 \<Longrightarrow> length q \<le> 255 \<Longrightarrow> leaf_key off i p = leaf_key off i q \<longleftrightarrow> p = q"
  using bitslice_to_bytes_inj by auto

text \<open>Two trees whose identifiers are not prefixes of each other share no key.\<close>

lemma trie_key_new_separate:
  assumes "trie_key_new i ty k = trie_key_new i' ty' k'"
  shows "prefix i i' \<or> prefix i' i"
proof -
  have "i @ k = i' @ k'"
    using assms by (cases ty; cases ty') simp_all
  then show ?thesis by (metis prefixI prefix_same_cases)
qed

end
