(* ===== verification/Bonsai_Db.thy ===== *)
theory Bonsai_Db
  imports Trie_Key
begin

text \<open>
  The interface to a store (\<^verbatim>\<open>src/src/bonsai_database.rs\<close>). The trait
  \<open>BonsaiDatabase\<close> is a record of its methods and \<open>BonsaiPersistentDatabase\<close> another one; a
  method that takes \<^verbatim>\<open>&mut self\<close> returns the store it leaves. The locale states
  what the trait documents: a batch collects writes that \<open>write_batch\<close> makes visible.
\<close>

section \<open>The methods\<close>

text \<open>A method of a store ends with a value, with an error of the store or with a panic.\<close>

datatype 'e db_failure =
    DbError 'e
  | DbPanic string

record ('db, 'batch, 'e) db_ops =
  create_batch :: "'db \<Rightarrow> 'batch"
  db_get :: "'db \<Rightarrow> database_key \<Rightarrow> 'e db_failure + bytes option"
  db_get_by_prefix :: "'db \<Rightarrow> database_key \<Rightarrow> 'e db_failure + (bytes \<times> bytes) list"
  db_contains :: "'db \<Rightarrow> database_key \<Rightarrow> 'e db_failure + bool"
  db_insert :: "'db \<Rightarrow> database_key \<Rightarrow> bytes \<Rightarrow> 'batch option \<Rightarrow> ('e db_failure + bytes option) \<times> 'db \<times> 'batch option"
  db_remove :: "'db \<Rightarrow> database_key \<Rightarrow> 'batch option \<Rightarrow> ('e db_failure + bytes option) \<times> 'db \<times> 'batch option"
  db_remove_by_prefix :: "'db \<Rightarrow> database_key \<Rightarrow> ('e db_failure + unit) \<times> 'db"
  db_write_batch :: "'db \<Rightarrow> 'batch \<Rightarrow> ('e db_failure + unit) \<times> 'db"

record ('db, 'id, 'txn, 'e) persistent_ops =
  db_snapshot :: "'db \<Rightarrow> 'id \<Rightarrow> 'db"
  db_transaction :: "'db \<Rightarrow> 'id \<Rightarrow> string + ('id \<times> 'txn) option"
  db_merge :: "'db \<Rightarrow> 'txn \<Rightarrow> ('e db_failure + unit) \<times> 'db"

text \<open>
  \<open>transaction\<close> returns no error, it can only panic (the left values). An error of the store
  becomes a \<open>BonsaiStorageError::Database\<close> by \<^verbatim>\<open>?\<close>.
\<close>

fun db_abort :: "'e db_failure \<Rightarrow> 'e failure" where
  "db_abort (DbError e) = Err (Database e)"
| "db_abort (DbPanic msg) = Panic msg"

definition db_result :: "'e db_failure + 'a \<Rightarrow> ('e, 'a) outcome" where
  "db_result r = (case r of Inl e \<Rightarrow> Inl (db_abort e) | Inr a \<Rightarrow> Inr a)"

text \<open>A key in the column of another key.\<close>

fun same_column :: "database_key \<Rightarrow> bytes \<Rightarrow> database_key" where
  "same_column (DbTrie _) b = DbTrie b"
| "same_column (DbFlat _) b = DbFlat b"
| "same_column (DbTrieLog _) b = DbTrieLog b"

definition under_prefix :: "database_key \<Rightarrow> database_key \<Rightarrow> bool" where
  "under_prefix p k \<longleftrightarrow> same_column p (db_as_slice k) = k \<and> prefix (db_as_slice p) (db_as_slice k)"

section \<open>The contract\<close>

locale batch_database =
  fixes B :: "('db, 'batch, 'e) db_ops"
    and ok :: "'db \<Rightarrow> bool"
    and view :: "'db \<Rightarrow> database_key \<Rightarrow> bytes option"
    and pending :: "'db \<Rightarrow> 'batch \<Rightarrow> database_key \<Rightarrow> bytes option"
  assumes get_view: "ok db \<Longrightarrow> db_get B db k = Inr (view db k)"
    and contains_view: "ok db \<Longrightarrow> db_contains B db k = Inr (view db k \<noteq> None)"
    and create_pending: "ok db \<Longrightarrow> pending db (create_batch B db) = view db"
    and insert_pending: "ok db \<Longrightarrow> \<exists>old db' b'. db_insert B db k v (Some b) = (Inr old, db', Some b') \<and>
      ok db' \<and> pending db' b' = (pending db b)(k \<mapsto> v)"
    and remove_pending: "ok db \<Longrightarrow> \<exists>old db' b'. db_remove B db k (Some b) = (Inr old, db', Some b') \<and>
      ok db' \<and> pending db' b' = (pending db b)(k := None)"
    and write_view: "ok db \<Longrightarrow> \<exists>db'. db_write_batch B db b = (Inr (), db') \<and> ok db' \<and> view db' = pending db b"

text \<open>The methods that take a prefix see the same data.\<close>

locale bonsai_database = batch_database +
  assumes prefix_view: "ok db \<Longrightarrow> \<exists>xs. db_get_by_prefix B db p = Inr xs \<and> distinct (map fst xs) \<and>
      (\<forall>b. map_of xs b = (if prefix (db_as_slice p) b then view db (same_column p b) else None))"
    and remove_prefix_view: "ok db \<Longrightarrow> \<exists>db'. db_remove_by_prefix B db p = (Inr (), db') \<and> ok db' \<and>
      view db' = (\<lambda>k. if under_prefix p k then None else view db k)"

end
