(* ===== verification/Commit_Id.thy ===== *)
theory Commit_Id
  imports Prelude
begin

text \<open>
  Commit identifiers (\<^verbatim>\<open>src/src/id.rs\<close>). The trait \<open>Id\<close> is a record of its three
  functions; \<open>BasicId\<close> is an unsigned 64-bit number whose bytes are big-endian. The locale
  states what the trie logs need of an identifier: all identifiers have byte strings of one
  length, and different ones have different byte strings.
\<close>

section \<open>Definitions\<close>

record 'id id_ops =
  to_bytes :: "'id \<Rightarrow> bytes"
  as_u64 :: "'id \<Rightarrow> 64 word"
  from_u64 :: "64 word \<Rightarrow> 'id"

datatype basic_id = BasicId "64 word"

text \<open>\<open>u64::to_be_bytes\<close>.\<close>

definition to_be_bytes :: "64 word \<Rightarrow> bytes" where
  "to_be_bytes w = map (\<lambda>i. ucast (drop_bit (8 * i) w)) [7, 6, 5, 4, 3, 2, 1, 0]"

fun basic_to_bytes :: "basic_id \<Rightarrow> bytes" where
  "basic_to_bytes (BasicId w) = to_be_bytes w"

fun basic_as_u64 :: "basic_id \<Rightarrow> 64 word" where
  "basic_as_u64 (BasicId w) = w"

definition basic_ops :: "basic_id id_ops" where
  "basic_ops = \<lparr>to_bytes = basic_to_bytes, as_u64 = basic_as_u64, from_u64 = BasicId\<rparr>"

record basic_id_builder =
  last_id :: "64 word"

definition builder_new :: basic_id_builder where
  "builder_new = \<lparr>last_id = 0\<rparr>"

text \<open>\<open>checked_add(1).expect(\<dots>)\<close>: the builder panics at the last identifier, with the state as it was.\<close>

definition new_id :: "(basic_id_builder, 'e, basic_id) action" where
  "new_id b =
     (let i = BasicId (last_id b) in
      if last_id b = - 1 then (Inl (Panic ''Id overflow''), b)
      else (Inr i, b\<lparr>last_id := last_id b + 1\<rparr>))"

fun new_ids_upto :: "nat \<Rightarrow> (basic_id_builder, 'e, basic_id list) action" where
  "new_ids_upto 0 = retS []"
| "new_ids_upto (Suc n) = bindS new_id (\<lambda>i. bindS (new_ids_upto n) (\<lambda>is. retS (i # is)))"

section \<open>What the trie logs need\<close>

locale commit_id =
  fixes I :: "'id id_ops" and width :: nat
  assumes to_bytes_length: "length (to_bytes I i) = width"
    and to_bytes_inj: "to_bytes I i = to_bytes I j \<Longrightarrow> i = j"
    and from_as_u64: "from_u64 I (as_u64 I i) = i"
    and as_from_u64: "as_u64 I (from_u64 I w) = w"
begin

lemma to_bytes_prefix: "prefix (to_bytes I i) (to_bytes I j @ s) \<longleftrightarrow> i = j"
proof
  assume "prefix (to_bytes I i) (to_bytes I j @ s)"
  then have "to_bytes I i = to_bytes I j"
    using to_bytes_length [of i] to_bytes_length [of j] by (auto simp: prefix_def)
  then show "i = j" by (rule to_bytes_inj)
qed simp

lemma as_u64_inj: "as_u64 I i = as_u64 I j \<Longrightarrow> i = j"
  using from_as_u64 by metis

end

section \<open>\<open>BasicId\<close>\<close>

lemma length_to_be_bytes [simp]: "length (to_be_bytes w) = 8"
  by (simp add: to_be_bytes_def)

lemma bit_to_be_bytes:
  assumes "i < 8" "j < 8"
  shows "bit (to_be_bytes w ! i) j \<longleftrightarrow> bit w (8 * (7 - i) + j)"
proof -
  have nth: "[7, 6, 5, 4, 3, 2, 1, 0 :: nat] ! i = 7 - i"
    using assms(1) by (auto simp: less_Suc_eq numeral_eq_Suc)
  have "to_be_bytes w ! i = ucast (drop_bit (8 * ([7, 6, 5, 4, 3, 2, 1, 0] ! i)) w)"
    unfolding to_be_bytes_def using assms(1) by (subst nth_map) simp_all
  then show ?thesis using assms nth by (simp add: bit_simps)
qed

lemma to_be_bytes_inj: "to_be_bytes v = to_be_bytes w \<Longrightarrow> v = w"
proof (rule bit_word_eqI)
  fix n assume eq: "to_be_bytes v = to_be_bytes w" and n: "n < LENGTH(64)"
  have i: "7 - n div 8 < 8" "n mod 8 < 8" by simp_all
  have "7 - (7 - n div 8) = n div 8" using n by simp
  then have "8 * (7 - (7 - n div 8)) + n mod 8 = n" by simp
  then show "bit v n = bit w n"
    using bit_to_be_bytes [OF i, of v] bit_to_be_bytes [OF i, of w] eq by simp
qed

interpretation basic: commit_id basic_ops 8
proof
  fix i j :: basic_id and w :: "64 word"
  show "length (to_bytes basic_ops i) = 8" by (cases i) (simp add: basic_ops_def)
  show "to_bytes basic_ops i = to_bytes basic_ops j \<Longrightarrow> i = j"
    using to_be_bytes_inj by (cases i; cases j) (simp add: basic_ops_def)
  show "from_u64 basic_ops (as_u64 basic_ops i) = i" by (cases i) (simp add: basic_ops_def)
  show "as_u64 basic_ops (from_u64 basic_ops w) = w" by (simp add: basic_ops_def)
qed

section \<open>The builder\<close>

lemma new_ids_upto_Inr:
  "unat (last_id b) + n < 2 ^ 64 \<Longrightarrow>
   new_ids_upto n b = (Inr (map (\<lambda>i. BasicId (last_id b + word_of_nat i)) [0..<n]) :: ('e, basic_id list) outcome,
     b\<lparr>last_id := last_id b + word_of_nat n\<rparr>)"
proof (induction n arbitrary: b)
  case (Suc n)
  have suc: "unat (last_id b + 1) = Suc (unat (last_id b))"
  proof -
    have "unat (last_id b + 1) = (unat (last_id b) + unat (1 :: 64 word)) mod 2 ^ 64"
      by (simp add: unat_word_ariths)
    then show ?thesis using Suc.prems by simp
  qed
  have ne: "last_id b \<noteq> - 1"
  proof
    assume "last_id b = - 1"
    then show False using suc by simp
  qed
  from suc have "unat (last_id b + 1) + n < 2 ^ 64" using Suc.prems by simp
  then have "new_ids_upto n (b\<lparr>last_id := last_id b + 1\<rparr>) =
      (Inr (map (\<lambda>i. BasicId (last_id b + 1 + word_of_nat i)) [0..<n]) :: ('e, basic_id list) outcome,
       b\<lparr>last_id := last_id b + 1 + word_of_nat n\<rparr>)"
    using Suc.IH [of "b\<lparr>last_id := last_id b + 1\<rparr>"] by simp
  moreover have "map (\<lambda>i. BasicId (last_id b + word_of_nat i)) [0..<Suc n] =
      BasicId (last_id b) # map (\<lambda>i. BasicId (last_id b + 1 + word_of_nat i)) [0..<n]"
    by (simp add: upt_conv_Cons map_Suc_upt [symmetric] del: upt_Suc)
  ultimately show ?case
    using ne by (simp add: new_id_def bindS_def Let_def add.assoc del: upt_Suc)
qed simp

end
