(* ===== verification/Hashmap_Db.thy ===== *)
theory Hashmap_Db
  imports Bonsai_Db Commit_Id
begin

text \<open>
  The in-memory store \<open>HashMapDb\<close> (\<^verbatim>\<open>src/src/databases/hashmap_db.rs\<close>): three hash
  maps and an ordered map of snapshots, which are stores themselves. Its batch is empty, writes
  are visible at once. It is shown to satisfy the contract of the store interface.
\<close>

section \<open>Definitions\<close>

text \<open>\<open>BTreeMap\<close>: an association list in the order of its keys.\<close>

fun btree_insert :: "'k::linorder \<Rightarrow> 'v \<Rightarrow> ('k \<times> 'v) list \<Rightarrow> ('k \<times> 'v) list" where
  "btree_insert k v [] = [(k, v)]"
| "btree_insert k v ((k', v') # xs) =
     (if k < k' then (k, v) # (k', v') # xs
      else if k = k' then (k, v) # xs else (k', v') # btree_insert k v xs)"

text \<open>\<open>range(..&id).next()\<close>: the first entry below a bound.\<close>

definition btree_first_below :: "'k::linorder \<Rightarrow> ('k \<times> 'v) list \<Rightarrow> ('k \<times> 'v) option" where
  "btree_first_below k xs = List.find (\<lambda>(k', _). k' < k) xs"

datatype 'id hashmap_db =
  HashMapDb (trie_db: "(bytes, bytes) hash_map") (flat_db: "(bytes, bytes) hash_map")
    (trie_log_db: "(bytes, bytes) hash_map") (snapshots: "('id \<times> 'id hashmap_db) list")

datatype hashmap_db_error = HashMapDbError

definition hashmap_default :: "'id hashmap_db" where
  "hashmap_default = HashMapDb [] [] [] []"

fun get_map :: "'id hashmap_db \<Rightarrow> database_key \<Rightarrow> (bytes, bytes) hash_map" where
  "get_map db (DbTrie _) = trie_db db"
| "get_map db (DbFlat _) = flat_db db"
| "get_map db (DbTrieLog _) = trie_log_db db"

text \<open>Assignment through \<open>get_map_mut\<close>.\<close>

fun set_map_mut :: "'id hashmap_db \<Rightarrow> database_key \<Rightarrow> (bytes, bytes) hash_map \<Rightarrow> 'id hashmap_db" where
  "set_map_mut (HashMapDb t f l s) (DbTrie _) m = HashMapDb m f l s"
| "set_map_mut (HashMapDb t f l s) (DbFlat _) m = HashMapDb t m l s"
| "set_map_mut (HashMapDb t f l s) (DbTrieLog _) m = HashMapDb t f m s"

definition hashmap_remove_by_prefix ::
  "'id hashmap_db \<Rightarrow> database_key \<Rightarrow> (hashmap_db_error db_failure + unit) \<times> 'id hashmap_db" where
  "hashmap_remove_by_prefix db p =
     (let m = get_map db p;
          keys_to_remove = filter (prefix (db_as_slice p)) (map fst m)
      in (Inr (), set_map_mut db p (fold hm_remove keys_to_remove m)))"

definition hashmap_get :: "'id hashmap_db \<Rightarrow> database_key \<Rightarrow> hashmap_db_error db_failure + bytes option" where
  "hashmap_get db key = Inr (hm_get (get_map db key) (db_as_slice key))"

definition hashmap_get_by_prefix ::
  "'id hashmap_db \<Rightarrow> database_key \<Rightarrow> hashmap_db_error db_failure + (bytes \<times> bytes) list" where
  "hashmap_get_by_prefix db p = Inr (filter (\<lambda>(key, value). prefix (db_as_slice p) key) (get_map db p))"

definition hashmap_insert ::
  "'id hashmap_db \<Rightarrow> database_key \<Rightarrow> bytes \<Rightarrow> unit option \<Rightarrow>
     (hashmap_db_error db_failure + bytes option) \<times> 'id hashmap_db \<times> unit option" where
  "hashmap_insert db key value batch =
     (let m = get_map db key in
      (Inr (hm_get m (db_as_slice key)), set_map_mut db key (hm_insert (db_as_slice key) value m), batch))"

definition hashmap_remove ::
  "'id hashmap_db \<Rightarrow> database_key \<Rightarrow> unit option \<Rightarrow>
     (hashmap_db_error db_failure + bytes option) \<times> 'id hashmap_db \<times> unit option" where
  "hashmap_remove db key batch =
     (let m = get_map db key in
      (Inr (hm_get m (db_as_slice key)), set_map_mut db key (hm_remove (db_as_slice key) m), batch))"

definition hashmap_contains :: "'id hashmap_db \<Rightarrow> database_key \<Rightarrow> hashmap_db_error db_failure + bool" where
  "hashmap_contains db key = Inr (hm_get (get_map db key) (db_as_slice key) \<noteq> None)"

definition hashmap_write_batch :: "'id hashmap_db \<Rightarrow> unit \<Rightarrow> (hashmap_db_error db_failure + unit) \<times> 'id hashmap_db" where
  "hashmap_write_batch db batch = (Inr (), db)"

definition hashmap_ops :: "('id hashmap_db, unit, hashmap_db_error) db_ops" where
  "hashmap_ops =
     \<lparr>create_batch = (\<lambda>_. ()), db_get = hashmap_get, db_get_by_prefix = hashmap_get_by_prefix,
      db_contains = hashmap_contains, db_insert = hashmap_insert, db_remove = hashmap_remove,
      db_remove_by_prefix = hashmap_remove_by_prefix, db_write_batch = hashmap_write_batch\<rparr>"

fun hashmap_snapshot :: "'id::linorder hashmap_db \<Rightarrow> 'id \<Rightarrow> 'id hashmap_db" where
  "hashmap_snapshot (HashMapDb t f l s) i = HashMapDb t f l (btree_insert i (HashMapDb t f l s) s)"

definition hashmap_transaction ::
  "'id::linorder hashmap_db \<Rightarrow> 'id \<Rightarrow> string + ('id \<times> 'id hashmap_db) option" where
  "hashmap_transaction db i = Inr (btree_first_below i (snapshots db))"

fun hashmap_merge :: "'id hashmap_db \<Rightarrow> 'id hashmap_db \<Rightarrow> (hashmap_db_error db_failure + unit) \<times> 'id hashmap_db" where
  "hashmap_merge (HashMapDb t f l s) (HashMapDb t' f' l' s') = (Inr (), HashMapDb t' f' l' s)"

definition hashmap_persistent ::
  "('id::linorder hashmap_db, 'id, 'id hashmap_db, hashmap_db_error) persistent_ops" where
  "hashmap_persistent =
     \<lparr>db_snapshot = hashmap_snapshot, db_transaction = hashmap_transaction, db_merge = hashmap_merge\<rparr>"

text \<open>The order of \<open>BasicId\<close>, derived from that of its number.\<close>

instantiation basic_id :: linorder
begin

definition less_eq_basic_id :: "basic_id \<Rightarrow> basic_id \<Rightarrow> bool" where
  "less_eq_basic_id i j \<longleftrightarrow> basic_as_u64 i \<le> basic_as_u64 j"

definition less_basic_id :: "basic_id \<Rightarrow> basic_id \<Rightarrow> bool" where
  "less_basic_id i j \<longleftrightarrow> basic_as_u64 i < basic_as_u64 j"

instance
proof
  fix x y z :: basic_id
  show "(x < y) = (x \<le> y \<and> \<not> y \<le> x)" by (auto simp: less_basic_id_def less_eq_basic_id_def)
  show "x \<le> x" by (simp add: less_eq_basic_id_def)
  show "x \<le> y \<Longrightarrow> y \<le> z \<Longrightarrow> x \<le> z" by (auto simp: less_eq_basic_id_def)
  show "x \<le> y \<Longrightarrow> y \<le> x \<Longrightarrow> x = y" by (cases x; cases y) (auto simp: less_eq_basic_id_def)
  show "x \<le> y \<or> y \<le> x" by (auto simp: less_eq_basic_id_def)
qed

end

lemma btree_insert_keys: "fst ` set (btree_insert k v xs) = insert k (fst ` set xs)"
  by (induction k v xs rule: btree_insert.induct) auto

lemma btree_insert_sorted: "sorted_wrt (<) (map fst xs) \<Longrightarrow> sorted_wrt (<) (map fst (btree_insert k v xs))"
proof (induction k v xs rule: btree_insert.induct)
  case (2 k v k' v' xs)
  have "\<forall>y \<in> set (map fst (btree_insert k v xs)). k' < y" if "k' < k"
    using "2.prems" that btree_insert_keys [of k v xs] by auto
  then show ?case using 2 by auto
qed simp

section \<open>The contract\<close>

definition hashmap_ok :: "'id hashmap_db \<Rightarrow> bool" where
  "hashmap_ok db \<longleftrightarrow> hm_wf (trie_db db) \<and> hm_wf (flat_db db) \<and> hm_wf (trie_log_db db)"

definition hashmap_view :: "'id hashmap_db \<Rightarrow> database_key \<Rightarrow> bytes option" where
  "hashmap_view db k = hm_get (get_map db k) (db_as_slice k)"

definition hashmap_pending :: "'id hashmap_db \<Rightarrow> unit \<Rightarrow> database_key \<Rightarrow> bytes option" where
  "hashmap_pending db b = hashmap_view db"

lemma hashmap_ok_set_map [simp]: "hashmap_ok db \<Longrightarrow> hm_wf m \<Longrightarrow> hashmap_ok (set_map_mut db k m)"
  by (cases db; cases k) (auto simp: hashmap_ok_def)

lemma hashmap_ok_get_map [simp]: "hashmap_ok db \<Longrightarrow> hm_wf (get_map db k)"
  by (cases k) (auto simp: hashmap_ok_def)

lemma get_map_set_map: "get_map (set_map_mut db k m) k' =
    (if same_column k (db_as_slice k') = k' then m else get_map db k')"
  by (cases db; cases k; cases k') auto

lemma hashmap_view_update:
  "hashmap_view (set_map_mut db k (hm_insert (db_as_slice k) v (get_map db k))) = (hashmap_view db)(k \<mapsto> v)"
  "hashmap_view (set_map_mut db k (hm_remove (db_as_slice k) (get_map db k))) = (hashmap_view db)(k := None)"
  by (rule ext, rename_tac k', case_tac k; case_tac k'; cases db;
      auto simp: hashmap_view_def hm_get_insert hm_get_remove)+

lemma hm_wf_fold_remove: "hm_wf m \<Longrightarrow> hm_wf (fold hm_remove ks m)"
  by (induction ks arbitrary: m) auto

lemma hm_get_fold_remove: "hm_get (fold hm_remove ks m) k = (if k \<in> set ks then None else hm_get m k)"
  by (induction ks arbitrary: m) (auto simp: hm_get_remove)

interpretation hashmap: bonsai_database hashmap_ops hashmap_ok hashmap_view hashmap_pending
proof
  fix db :: "'id hashmap_db" and k p :: database_key and v :: bytes and b :: unit
  assume ok: "hashmap_ok db"
  show "db_get hashmap_ops db k = Inr (hashmap_view db k)"
    by (simp add: hashmap_ops_def hashmap_get_def hashmap_view_def)
  show "db_contains hashmap_ops db k = Inr (hashmap_view db k \<noteq> None)"
    by (simp add: hashmap_ops_def hashmap_contains_def hashmap_view_def)
  show "hashmap_pending db (create_batch hashmap_ops db) = hashmap_view db"
    by (simp add: hashmap_pending_def)
  show "\<exists>old db' b'. db_insert hashmap_ops db k v (Some b) = (Inr old, db', Some b') \<and>
      hashmap_ok db' \<and> hashmap_pending db' b' = (hashmap_pending db b)(k \<mapsto> v)"
    using ok by (simp add: hashmap_ops_def hashmap_insert_def hashmap_pending_def hashmap_view_update Let_def)
  show "\<exists>old db' b'. db_remove hashmap_ops db k (Some b) = (Inr old, db', Some b') \<and>
      hashmap_ok db' \<and> hashmap_pending db' b' = (hashmap_pending db b)(k := None)"
    using ok by (simp add: hashmap_ops_def hashmap_remove_def hashmap_pending_def hashmap_view_update Let_def)
  show "\<exists>db'. db_write_batch hashmap_ops db b = (Inr (), db') \<and> hashmap_ok db' \<and> hashmap_view db' = hashmap_pending db b"
    using ok by (simp add: hashmap_ops_def hashmap_write_batch_def hashmap_pending_def)
  show "\<exists>xs. db_get_by_prefix hashmap_ops db p = Inr xs \<and> distinct (map fst xs) \<and>
      (\<forall>b. map_of xs b = (if prefix (db_as_slice p) b then hashmap_view db (same_column p b) else None))"
  proof -
    have "map_of (filter (\<lambda>(key, value). P key) m) b = (if P b then map_of m b else None)"
      for P :: "bytes \<Rightarrow> bool" and m :: "(bytes, bytes) hash_map" and b
      by (induction m) auto
    moreover have "hashmap_view db (same_column p b) = map_of (get_map db p) b" for b
      by (cases p) (simp_all add: hashmap_view_def hm_get_def)
    moreover have "distinct (map fst (filter (\<lambda>(key, value). prefix (db_as_slice p) key) (get_map db p)))"
      using hashmap_ok_get_map [OF ok, of p] by (simp add: hm_wf_def distinct_map_filter)
    ultimately show ?thesis by (simp add: hashmap_ops_def hashmap_get_by_prefix_def)
  qed
  show "\<exists>db'. db_remove_by_prefix hashmap_ops db p = (Inr (), db') \<and> hashmap_ok db' \<and>
      hashmap_view db' = (\<lambda>k. if under_prefix p k then None else hashmap_view db k)"
  proof -
    let ?ks = "filter (prefix (db_as_slice p)) (map fst (get_map db p))"
    let ?db' = "set_map_mut db p (fold hm_remove ?ks (get_map db p))"
    have rm: "hm_get (fold hm_remove ?ks (get_map db p)) x =
        (if prefix (db_as_slice p) x then None else hm_get (get_map db p) x)" for x
      unfolding hm_get_fold_remove
      by (cases "x \<in> fst ` set (get_map db p)") (simp_all add: hm_get_def map_of_eq_None_iff)
    have col: "get_map db k = get_map db p" if "same_column p (db_as_slice k) = k" for k
      using that by (cases p; cases k) auto
    have "hashmap_view ?db' k = (if under_prefix p k then None else hashmap_view db k)" for k
      using rm col [of k] by (simp add: hashmap_view_def get_map_set_map under_prefix_def)
    then show ?thesis
      using ok by (auto simp: hashmap_ops_def hashmap_remove_by_prefix_def Let_def hm_wf_fold_remove)
  qed
qed

end
