(* ===== verification/Changes.thy ===== *)
theory Changes
  imports Commit_Id Trie_Key
begin

text \<open>
  The log of changes of a commit (\<^verbatim>\<open>src/src/changes.rs\<close>): the old and the new value of
  every key written since the last commit, its serialisation into the key/value pairs of the
  trie log, and the way back. The main fact is the round trip: reading what was written gives
  the changes that change something.
\<close>

section \<open>Definitions\<close>

record change =
  old_value :: "bytes option"
  new_value :: "bytes option"

type_synonym change_batch = "(trie_key, change) hash_map"

definition KEY_SEPARATOR :: byte where "KEY_SEPARATOR = 0"
definition NEW_VALUE :: byte where "NEW_VALUE = 0"
definition OLD_VALUE :: byte where "OLD_VALUE = 1"

definition change_default :: change where
  "change_default = \<lparr>old_value = None, new_value = None\<rparr>"

text \<open>The first old value is kept, unless there was none; the last new value counts.\<close>

definition insert_in_place :: "trie_key \<Rightarrow> change \<Rightarrow> change_batch \<Rightarrow> change_batch" where
  "insert_in_place key c batch =
     (case hm_get batch key of
        Some e \<Rightarrow>
          hm_insert key (let e = (if old_value e = None then e\<lparr>old_value := old_value c\<rparr> else e)
                         in e\<lparr>new_value := new_value c\<rparr>) batch
      | None \<Rightarrow> hm_insert key c batch)"

definition key_old_value :: "'id id_ops \<Rightarrow> 'id \<Rightarrow> trie_key \<Rightarrow> bytes" where
  "key_old_value I i key = to_bytes I i @ [KEY_SEPARATOR] @ as_slice key @ [trie_key_u8 key] @ [OLD_VALUE]"

definition key_new_value :: "'id id_ops \<Rightarrow> 'id \<Rightarrow> trie_key \<Rightarrow> bytes" where
  "key_new_value I i key = to_bytes I i @ [KEY_SEPARATOR] @ as_slice key @ [trie_key_u8 key] @ [NEW_VALUE]"

definition serialize_one :: "'id id_ops \<Rightarrow> 'id \<Rightarrow> trie_key \<times> change \<Rightarrow> (bytes \<times> bytes) list" where
  "serialize_one I i = (\<lambda>(change_key, change).
     case old_value change of
       Some old \<Rightarrow>
         (if new_value change = Some old then []
          else (key_old_value I i change_key, old) #
               (case new_value change of None \<Rightarrow> [] | Some new \<Rightarrow> [(key_new_value I i change_key, new)]))
     | None \<Rightarrow> (case new_value change of None \<Rightarrow> [] | Some new \<Rightarrow> [(key_new_value I i change_key, new)]))"

definition serialize :: "'id id_ops \<Rightarrow> 'id \<Rightarrow> change_batch \<Rightarrow> (bytes \<times> bytes) list" where
  "serialize I i batch = concat (map (serialize_one I i) batch)"

text \<open>One key of the log: the change type, the trie key; \<open>panic!\<close> on a key that is too short.\<close>

definition parse_log_key :: "'id id_ops \<Rightarrow> 'id \<Rightarrow> bytes \<Rightarrow> ('e, byte \<times> trie_key) outcome" where
  "parse_log_key I i key =
     (if length key < length (to_bytes I i) + 3 then Inl (Panic ''Invalid key format'')
      else let change_type = last key; key = butlast key;
               key_type = last key; key = butlast key
           in and_then (from_variant_and_bytes key_type (drop (length (to_bytes I i) + 1) key))
                (\<lambda>change_key. Inr (change_type, change_key)))"

fun deserialize_loop ::
  "'id id_ops \<Rightarrow> 'id \<Rightarrow> (bytes \<times> bytes) list \<Rightarrow> change_batch \<Rightarrow> change \<Rightarrow> trie_key option \<Rightarrow>
     ('e, change_batch \<times> change \<times> trie_key option) outcome" where
  "deserialize_loop I i [] batch current last_key = Inr (batch, current, last_key)"
| "deserialize_loop I i ((key, value) # changes) batch current last_key =
     and_then (parse_log_key I i key) (\<lambda>(change_type, change_key).
       let (batch, current) =
             (case last_key of
                Some k \<Rightarrow> if k \<noteq> change_key then (insert_in_place k current batch, change_default)
                          else (batch, current)
              | None \<Rightarrow> (batch, current))
       in and_then
            (if change_type = NEW_VALUE then Inr (current\<lparr>new_value := Some value\<rparr>)
             else if change_type = OLD_VALUE then Inr (current\<lparr>old_value := Some value\<rparr>)
             else Inl (Panic ''Invalid change type''))
            (\<lambda>current. deserialize_loop I i changes batch current (Some change_key)))"

definition deserialize :: "'id id_ops \<Rightarrow> 'id \<Rightarrow> (bytes \<times> bytes) list \<Rightarrow> ('e, change_batch) outcome" where
  "deserialize I i changes =
     and_then (deserialize_loop I i changes [] change_default None) (\<lambda>(batch, current, last_key).
       Inr (case last_key of
              Some k \<Rightarrow> if new_value current \<noteq> None \<or> old_value current \<noteq> None
                        then insert_in_place k current batch else batch
            | None \<Rightarrow> batch))"

record change_store =
  current_changes :: change_batch

definition change_store_new :: change_store where
  "change_store_new = \<lparr>current_changes = []\<rparr>"

section \<open>Recording changes\<close>

lemma insert_in_place_get:
  "hm_get (insert_in_place key c batch) k =
     (if k = key
      then Some (case hm_get batch key of
             None \<Rightarrow> c
           | Some e \<Rightarrow> \<lparr>old_value = (if old_value e = None then old_value c else old_value e), new_value = new_value c\<rparr>)
      else hm_get batch k)"
  by (auto simp: insert_in_place_def hm_get_insert Let_def split: option.split)

lemma hm_wf_insert_in_place [simp]: "hm_wf batch \<Longrightarrow> hm_wf (insert_in_place key c batch)"
  by (simp add: insert_in_place_def split: option.split)

lemma insert_in_place_new:
  "key \<notin> fst ` set batch \<Longrightarrow> insert_in_place key c batch = batch @ [(key, c)]"
proof -
  assume a: "key \<notin> fst ` set batch"
  then have "hm_get batch key = None" by (simp add: hm_get_def map_of_eq_None_iff)
  moreover have "AList.update key c batch = batch @ [(key, c)]"
    using a by (induction batch) auto
  ultimately show ?thesis by (simp add: insert_in_place_def hm_insert_def)
qed

section \<open>The round trip\<close>

definition effective :: "trie_key \<times> change \<Rightarrow> bool" where
  "effective x \<longleftrightarrow> old_value (snd x) \<noteq> new_value (snd x)"

lemma serialize_one_effective: "\<not> effective x \<Longrightarrow> serialize_one I i x = []"
  by (auto simp: effective_def serialize_one_def split: prod.split option.split)

lemma serialize_effective: "serialize I i batch = serialize I i (filter effective batch)"
  by (induction batch) (auto simp: serialize_def serialize_one_effective)

lemma parse_log_key_simps [simp]:
  "parse_log_key I i (key_old_value I i k) = Inr (OLD_VALUE, k)"
  "parse_log_key I i (key_new_value I i k) = Inr (NEW_VALUE, k)"
  by (simp_all add: parse_log_key_def key_old_value_def key_new_value_def Let_def butlast_append)

text \<open>The entries of one key, when the key before it was another one.\<close>

lemma deserialize_loop_one:
  assumes "effective (k, c)" "last_key \<noteq> Some k" "last_key = None \<Longrightarrow> current = change_default"
  shows "deserialize_loop I i (serialize_one I i (k, c) @ xs) batch current last_key =
    deserialize_loop I i xs (case last_key of None \<Rightarrow> batch | Some l \<Rightarrow> insert_in_place l current batch) c (Some k)"
proof -
  obtain a b where c: "c = \<lparr>old_value = a, new_value = b\<rparr>" by (cases c) simp
  have "OLD_VALUE \<noteq> NEW_VALUE" by (simp add: OLD_VALUE_def NEW_VALUE_def)
  then show ?thesis
    using assms unfolding c
    by (cases a; cases b; cases last_key) (auto simp: serialize_one_def effective_def change_default_def Let_def)
qed

lemma deserialize_loop_serialize:
  assumes "distinct (map fst batch)" "\<forall>x \<in> set batch. effective x"
    "distinct (map fst (acc @ [(l, c)]))" "set (map fst (acc @ [(l, c)])) \<inter> set (map fst batch) = {}"
  shows "\<exists>acc' l' c'. deserialize_loop I i (serialize I i batch) acc c (Some l) =
      (Inr (acc', c', Some l') :: ('e, change_batch \<times> change \<times> trie_key option) outcome) \<and>
    acc' @ [(l', c')] = acc @ [(l, c)] @ batch"
  using assms
proof (induction batch arbitrary: acc l c)
  case Nil
  then show ?case by (simp add: serialize_def)
next
  case (Cons x batch)
  obtain k d where x: "x = (k, d)" by fastforce
  have "l \<noteq> k" "l \<notin> fst ` set acc" using Cons.prems x by auto
  then have "(deserialize_loop I i (serialize I i (x # batch)) acc c (Some l) :: ('e, _) outcome) =
      deserialize_loop I i (serialize I i batch) (acc @ [(l, c)]) d (Some k)"
    using deserialize_loop_one [of k d "Some l" c I i "serialize I i batch" acc] Cons.prems(2) x
      insert_in_place_new [of l acc c] by (simp add: serialize_def)
  moreover have "\<exists>acc' l' c'. deserialize_loop I i (serialize I i batch) (acc @ [(l, c)]) d (Some k) =
        (Inr (acc', c', Some l') :: ('e, _) outcome) \<and>
      acc' @ [(l', c')] = (acc @ [(l, c)]) @ [(k, d)] @ batch"
    using Cons.prems x by (intro Cons.IH) auto
  ultimately show ?case using x by simp
qed

lemma deserialize_serialize:
  assumes "hm_wf batch"
  shows "deserialize I i (serialize I i batch) = (Inr (filter effective batch) :: ('e, change_batch) outcome)"
proof -
  let ?b = "filter effective batch"
  have d: "distinct (map fst ?b)" using assms by (simp add: hm_wf_def distinct_map_filter)
  show ?thesis
  proof (cases ?b)
    case Nil
    then show ?thesis by (simp add: serialize_effective [of I i batch]) (simp add: deserialize_def serialize_def)
  next
    case (Cons x xs)
    obtain k c where x: "x = (k, c)" by fastforce
    have set_b: "set ?b = insert (k, c) (set xs)" unfolding Cons x by simp
    have eff: "effective (k, c)" using set_b by auto
    have "\<forall>y \<in> set xs. effective y" using set_b by auto
    moreover have "distinct (map fst xs)" "set (map fst ([] @ [(k, c)])) \<inter> set (map fst xs) = {}"
      using d Cons x by auto
    ultimately obtain acc l d' where loop: "deserialize_loop I i (serialize I i xs) [] c (Some k) =
        (Inr (acc, d', Some l) :: ('e, _) outcome)"
      and acc: "acc @ [(l, d')] = [(k, c)] @ xs"
      using deserialize_loop_serialize [of xs "[]" k c I i] by auto
    have "deserialize_loop I i (serialize I i ?b) [] change_default None = (Inr (acc, d', Some l) :: ('e, _) outcome)"
      using Cons x loop by (simp add: serialize_def deserialize_loop_one [OF eff])
    moreover have "(l, d') \<in> set ?b" using acc Cons x by (metis append_Cons append_Nil in_set_conv_decomp)
    then have "effective (l, d')" by simp
    then have "new_value d' \<noteq> None \<or> old_value d' \<noteq> None" by (metis effective_def snd_conv)
    moreover have "distinct (map fst (acc @ [(l, d')]))" using acc d Cons x by simp
    then have "l \<notin> fst ` set acc" by simp
    ultimately show ?thesis
      using serialize_effective [of I i batch] acc Cons x insert_in_place_new [of l acc d']
      by (simp add: deserialize_def)
  qed
qed

end
