(* ===== verification/Key_Value_Db.thy ===== *)
theory Key_Value_Db
  imports Hashmap_Db Changes
begin

text \<open>
  The layer between the tries and a store (\<^verbatim>\<open>src/src/key_value_db.rs\<close>): it records
  every write as a change and turns the changes of a commit into trie logs. The store and the
  commit identifiers are given by their records of methods. The locale proves what the tries
  rely on once for every store that keeps its contract, and is interpreted for the hash map
  store.
\<close>

section \<open>Definitions\<close>

record kv_config =
  max_saved_trie_logs :: "64 word option"
  max_saved_snapshots :: "64 word option"
  snapshot_interval :: "64 word"

definition kv_config_default :: kv_config where
  "kv_config_default = \<lparr>max_saved_trie_logs = None, max_saved_snapshots = None, snapshot_interval = 5\<rparr>"

record ('db, 'id) key_value_db =
  kv_db :: 'db
  changes_store :: change_store
  config :: kv_config
  created_at :: "'id option"

definition kv_new :: "'db \<Rightarrow> kv_config \<Rightarrow> 'id option \<Rightarrow> ('db, 'id) key_value_db" where
  "kv_new db c created =
     \<lparr>kv_db = db, changes_store = change_store_new, config = c, created_at = created\<rparr>"

text \<open>The methods that are \<open>todo!()\<close>.\<close>

definition todo :: "('e, 'a) outcome" where
  "todo = Inl (Panic ''not yet implemented'')"

definition kv_get_changes :: "('db, 'id) key_value_db \<Rightarrow> 'id \<Rightarrow> ('e, change_batch) outcome" where
  "kv_get_changes kv i = todo"

definition kv_get_at :: "('db, 'id) key_value_db \<Rightarrow> trie_key \<Rightarrow> 'id \<Rightarrow> ('e, bytes option) outcome" where
  "kv_get_at kv key i = todo"

definition kv_get_latest_id :: "('db, 'id) key_value_db \<Rightarrow> ('e, 'id option) outcome" where
  "kv_get_latest_id kv = todo"

definition kv_merge :: "('txn, 'id) key_value_db \<Rightarrow> (('db, 'id) key_value_db, 'e, unit) action" where
  "kv_merge transaction kv = (todo, kv)"

definition kv_get ::
  "('db, 'batch, 'e) db_ops \<Rightarrow> ('db, 'id) key_value_db \<Rightarrow> trie_key \<Rightarrow> ('e, bytes option) outcome" where
  "kv_get B kv key = db_result (db_get B (kv_db kv) (database_key_of key))"

definition kv_contains ::
  "('db, 'batch, 'e) db_ops \<Rightarrow> ('db, 'id) key_value_db \<Rightarrow> trie_key \<Rightarrow> ('e, bool) outcome" where
  "kv_contains B kv key = db_result (db_contains B (kv_db kv) (database_key_of key))"

text \<open>The two writes; the state is the layer and the batch that the caller lends.\<close>

type_synonym ('db, 'batch, 'id, 'e, 'a) kv_action =
  "(('db, 'id) key_value_db \<times> 'batch option, 'e, 'a) action"

definition record_change ::
  "trie_key \<Rightarrow> bytes option \<Rightarrow> bytes option \<Rightarrow> ('db, 'id) key_value_db \<Rightarrow> ('db, 'id) key_value_db" where
  "record_change key old new kv =
     kv\<lparr>changes_store := (changes_store kv)\<lparr>current_changes :=
          insert_in_place key \<lparr>old_value = old, new_value = new\<rparr> (current_changes (changes_store kv))\<rparr>\<rparr>"

definition kv_insert ::
  "('db, 'batch, 'e) db_ops \<Rightarrow> trie_key \<Rightarrow> bytes \<Rightarrow> ('db, 'batch, 'id, 'e, unit) kv_action" where
  "kv_insert B key value = (\<lambda>(kv, batch).
     case db_insert B (kv_db kv) (database_key_of key) value batch of
       (Inl e, db, batch) \<Rightarrow> (Inl (db_abort e), kv\<lparr>kv_db := db\<rparr>, batch)
     | (Inr old, db, batch) \<Rightarrow> (Inr (), record_change key old (Some value) (kv\<lparr>kv_db := db\<rparr>), batch))"

definition kv_remove ::
  "('db, 'batch, 'e) db_ops \<Rightarrow> trie_key \<Rightarrow> ('db, 'batch, 'id, 'e, unit) kv_action" where
  "kv_remove B key = (\<lambda>(kv, batch).
     case db_remove B (kv_db kv) (database_key_of key) batch of
       (Inl e, db, batch) \<Rightarrow> (Inl (db_abort e), kv\<lparr>kv_db := db\<rparr>, batch)
     | (Inr old, db, batch) \<Rightarrow> (Inr (), record_change key old None (kv\<lparr>kv_db := db\<rparr>), batch))"

definition kv_write_batch ::
  "('db, 'batch, 'e) db_ops \<Rightarrow> 'batch \<Rightarrow> (('db, 'id) key_value_db, 'e, unit) action" where
  "kv_write_batch B batch kv =
     (case db_write_batch B (kv_db kv) batch of (r, db) \<Rightarrow> (db_result r, kv\<lparr>kv_db := db\<rparr>))"

text \<open>The loop of \<open>commit\<close> over the serialised changes.\<close>

fun write_logs ::
  "('db, 'batch, 'e) db_ops \<Rightarrow> (bytes \<times> bytes) list \<Rightarrow> ('db \<times> 'batch option, 'e, unit) action" where
  "write_logs B [] = retS ()"
| "write_logs B ((key, change) # logs) = (\<lambda>(db, batch).
     case db_insert B db (DbTrieLog key) change batch of
       (Inl e, db, batch) \<Rightarrow> (Inl (db_abort e), db, batch)
     | (Inr _, db, batch) \<Rightarrow> write_logs B logs (db, batch))"

text \<open>\<open>checked_sub\<close> on \<open>u64\<close>.\<close>

definition checked_sub :: "64 word \<Rightarrow> 64 word \<Rightarrow> 64 word option" where
  "checked_sub a b = (if b \<le> a then Some (a - b) else None)"

definition kv_commit ::
  "('db, 'batch, 'e) db_ops \<Rightarrow> 'id id_ops \<Rightarrow> 'id \<Rightarrow> (('db, 'id) key_value_db, 'e, unit) action" where
  "kv_commit B I i kv =
     (let batch = create_batch B (kv_db kv);
          changes = current_changes (changes_store kv);
          kv = kv\<lparr>changes_store := (changes_store kv)\<lparr>current_changes := []\<rparr>\<rparr> in
      if max_saved_trie_logs (config kv) = Some 0 then (Inr (), kv)
      else
        case write_logs B (serialize I i changes) (kv_db kv, Some batch) of
          (Inl e, db, _) \<Rightarrow> (Inl e, kv\<lparr>kv_db := db\<rparr>)
        | (Inr _, db, written) \<Rightarrow>
            bindS (kv_write_batch B (case written of Some b \<Rightarrow> b | None \<Rightarrow> batch)) (\<lambda>_ kv.
              case Option.bind (max_saved_trie_logs (config kv)) (checked_sub (as_u64 I i)) of
                None \<Rightarrow> (Inr (), kv)
              | Some j \<Rightarrow>
                  (case db_remove_by_prefix B (kv_db kv) (DbTrieLog (to_bytes I (from_u64 I j))) of
                     (r, db) \<Rightarrow> (db_result r, kv\<lparr>kv_db := db\<rparr>)))
              (kv\<lparr>kv_db := db\<rparr>))"

text \<open>The remainder by an interval of zero panics.\<close>

definition create_snapshot ::
  "('db, 'id, 'txn, 'e) persistent_ops \<Rightarrow> 'id id_ops \<Rightarrow> 'id \<Rightarrow> (('db, 'id) key_value_db, 'e, unit) action" where
  "create_snapshot P I i kv =
     (if snapshot_interval (config kv) = 0
      then (Inl (Panic ''attempt to calculate the remainder with a divisor of zero''), kv)
      else if as_u64 I i mod snapshot_interval (config kv) = 0
      then (Inr (), kv\<lparr>kv_db := db_snapshot P (kv_db kv) i\<rparr>)
      else (Inr (), kv))"

text \<open>\<open>get_transaction\<close>: the old values of the logs are written over the snapshot.\<close>

fun apply_backwards ::
  "('txn, 'batch, 'e) db_ops \<Rightarrow> change_batch \<Rightarrow> ('txn \<times> 'batch option, 'e, unit) action" where
  "apply_backwards T [] = retS ()"
| "apply_backwards T ((key, c) # changes) = (\<lambda>(txn, batch).
     case (case (old_value c, new_value c) of
             (Some old, Some _) \<Rightarrow> Some (db_insert T txn (database_key_of key) old batch)
           | (Some old, None) \<Rightarrow> Some (db_insert T txn (database_key_of key) old batch)
           | (None, Some _) \<Rightarrow> Some (db_remove T txn (database_key_of key) batch)
           | (None, None) \<Rightarrow> None) of
       None \<Rightarrow> (Inl (Panic ''internal error: entered unreachable code''), txn, batch)
     | Some (Inl e, txn, batch) \<Rightarrow> (Inl (db_abort e), txn, batch)
     | Some (Inr _, txn, batch) \<Rightarrow> apply_backwards T changes (txn, batch))"

fun apply_logs ::
  "('db, 'batch, 'e) db_ops \<Rightarrow> ('txn, 'batch2, 'e2) db_ops \<Rightarrow> 'id id_ops \<Rightarrow> ('db, 'id) key_value_db \<Rightarrow>
     nat list \<Rightarrow> ('txn \<times> 'batch2 option, 'e2, unit) action" where
  "apply_logs B T I kv [] = retS ()"
| "apply_logs B T I kv (n # ns) =
     (let cur_id = from_u64 I (word_of_nat n) in
      case db_get_by_prefix B (kv_db kv) (DbTrieLog (to_bytes I cur_id)) of
        Inl (DbError _) \<Rightarrow> failS (Err (Transaction ''database is missing trie logs''))
      | Inl (DbPanic msg) \<Rightarrow> failS (Panic msg)
      | Inr logs \<Rightarrow>
          (case deserialize I cur_id logs of
             Inl e \<Rightarrow> failS e
           | Inr changes \<Rightarrow> bindS (apply_backwards T changes) (\<lambda>_. apply_logs B T I kv ns)))"

definition get_transaction ::
  "('db, 'batch, 'e) db_ops \<Rightarrow> ('db, 'id, 'txn, 'e) persistent_ops \<Rightarrow> ('txn, 'batch2, 'e2) db_ops \<Rightarrow>
     'id id_ops \<Rightarrow> ('db, 'id) key_value_db \<Rightarrow> 'id \<Rightarrow> ('e2, 'txn option) outcome" where
  "get_transaction B P T I kv i =
     (case db_transaction P (kv_db kv) i of
        Inl msg \<Rightarrow> Inl (Panic msg)
      | Inr None \<Rightarrow> Inr None
      | Inr (Some (snap_id, txn)) \<Rightarrow>
          (let batch = create_batch T txn in
           case apply_logs B T I kv [unat (as_u64 I snap_id)..<unat (as_u64 I i)] (txn, Some batch) of
             (Inl e, _) \<Rightarrow> Inl e
           | (Inr _, txn, written) \<Rightarrow>
               (case db_write_batch T txn (case written of Some b \<Rightarrow> b | None \<Rightarrow> batch) of
                  (Inl e, _) \<Rightarrow> Inl (db_abort e)
                | (Inr _, txn) \<Rightarrow> Inr (Some txn))))"

section \<open>What the tries rely on\<close>

context batch_database
begin

lemma kv_get_view: "ok (kv_db kv) \<Longrightarrow> kv_get B kv key = Inr (view (kv_db kv) (database_key_of key))"
  by (simp add: kv_get_def get_view db_result_def)

lemma kv_contains_view:
  "ok (kv_db kv) \<Longrightarrow> kv_contains B kv key = Inr (view (kv_db kv) (database_key_of key) \<noteq> None)"
  by (simp add: kv_contains_def contains_view db_result_def)

lemma kv_insert_pending:
  assumes "ok (kv_db kv)"
  shows "\<exists>kv' b'. kv_insert B key v (kv, Some b) = (Inr () :: ('e, unit) outcome, kv', Some b') \<and> ok (kv_db kv') \<and>
    pending (kv_db kv') b' = (pending (kv_db kv) b)(database_key_of key \<mapsto> v) \<and> config kv' = config kv"
  using insert_pending [OF assms, of "database_key_of key" v b]
  by (auto simp: kv_insert_def record_change_def)

lemma kv_remove_pending:
  assumes "ok (kv_db kv)"
  shows "\<exists>kv' b'. kv_remove B key (kv, Some b) = (Inr () :: ('e, unit) outcome, kv', Some b') \<and> ok (kv_db kv') \<and>
    pending (kv_db kv') b' = (pending (kv_db kv) b)(database_key_of key := None) \<and> config kv' = config kv"
  using remove_pending [OF assms, of "database_key_of key" b]
  by (auto simp: kv_remove_def record_change_def)

lemma write_logs_pending:
  "ok db \<Longrightarrow> \<exists>db' b'. write_logs B logs (db, Some b) = (Inr () :: ('e, unit) outcome, db', Some b') \<and> ok db' \<and>
     pending db' b' = fold (\<lambda>(k, v) m. m(DbTrieLog k \<mapsto> v)) logs (pending db b)"
proof (induction logs arbitrary: db b)
  case Nil
  then show ?case by simp
next
  case (Cons l logs)
  obtain key change where l: "l = (key, change)" by fastforce
  obtain old db1 b1 where ins: "db_insert B db (DbTrieLog key) change (Some b) = (Inr old, db1, Some b1)"
    "ok db1" "pending db1 b1 = (pending db b)(DbTrieLog key \<mapsto> change)"
    using insert_pending [OF Cons.prems, of "DbTrieLog key" change b] by blast
  show ?case using Cons.IH [OF ins(2), of b1] ins l by auto
qed

lemma fold_logs_other: "\<forall>l. k \<noteq> DbTrieLog l \<Longrightarrow> fold (\<lambda>(k, v) m. m(DbTrieLog k \<mapsto> v)) logs m k = m k"
  by (induction logs arbitrary: m) auto

end

text \<open>The rows of the log that a commit drops: those of the commit that leaves the window of saved logs.\<close>

definition out_of_window :: "'id id_ops \<Rightarrow> kv_config \<Rightarrow> 'id \<Rightarrow> database_key \<Rightarrow> bool" where
  "out_of_window I cfg i k \<longleftrightarrow> (\<exists>j. Option.bind (max_saved_trie_logs cfg) (checked_sub (as_u64 I i)) = Some j \<and>
     under_prefix (DbTrieLog (to_bytes I (from_u64 I j))) k)"

lemma out_of_window_log: "out_of_window I cfg i k \<Longrightarrow> \<exists>l. k = DbTrieLog l"
  by (cases k) (auto simp: out_of_window_def under_prefix_def)

locale kv_store = bonsai_database B ok view pending + commit_id I width
  for B :: "('db, 'batch, 'e) db_ops" and ok :: "'db \<Rightarrow> bool"
    and view :: "'db \<Rightarrow> database_key \<Rightarrow> bytes option"
    and pending :: "'db \<Rightarrow> 'batch \<Rightarrow> database_key \<Rightarrow> bytes option"
    and I :: "'id id_ops" and width :: nat
begin

text \<open>A commit that saves logs adds its own log and drops that one.\<close>

lemma kv_commit_rows:
  assumes ok: "ok (kv_db kv)" and max: "max_saved_trie_logs (config kv) \<noteq> Some 0"
  shows "\<exists>kv'. kv_commit B I i kv = (Inr () :: ('e, unit) outcome, kv') \<and> ok (kv_db kv') \<and>
    current_changes (changes_store kv') = [] \<and> config kv' = config kv \<and>
    view (kv_db kv') = (\<lambda>k. if out_of_window I (config kv) i k then None
      else fold (\<lambda>(k, v) m. m(DbTrieLog k \<mapsto> v)) (serialize I i (current_changes (changes_store kv))) (view (kv_db kv)) k)"
proof -
  let ?logs = "serialize I i (current_changes (changes_store kv))"
  let ?kv0 = "kv\<lparr>changes_store := (changes_store kv)\<lparr>current_changes := []\<rparr>\<rparr>"
  obtain db1 b1 where logs: "write_logs B ?logs (kv_db kv, Some (create_batch B (kv_db kv))) =
      (Inr () :: ('e, unit) outcome, db1, Some b1)"
    "ok db1" "pending db1 b1 = fold (\<lambda>(k, v) m. m(DbTrieLog k \<mapsto> v)) ?logs (view (kv_db kv))"
    using write_logs_pending [OF ok, of ?logs "create_batch B (kv_db kv)"] create_pending [OF ok] by auto
  obtain db2 where wr: "db_write_batch B db1 b1 = (Inr (), db2)" "ok db2" "view db2 = pending db1 b1"
    using write_view [OF logs(2)] by blast
  show ?thesis
  proof (cases "Option.bind (max_saved_trie_logs (config kv)) (checked_sub (as_u64 I i))")
    case None
    then have "kv_commit B I i kv = (Inr () :: ('e, unit) outcome, ?kv0\<lparr>kv_db := db2\<rparr>)"
      using max logs(1) wr(1) by (simp add: kv_commit_def Let_def bindS_def kv_write_batch_def db_result_def)
    then show ?thesis using wr logs(3) None by (simp add: out_of_window_def)
  next
    case (Some j)
    obtain db3 where rm: "db_remove_by_prefix B db2 (DbTrieLog (to_bytes I (from_u64 I j))) = (Inr (), db3)" "ok db3"
      "view db3 = (\<lambda>k. if under_prefix (DbTrieLog (to_bytes I (from_u64 I j))) k then None else view db2 k)"
      using remove_prefix_view [OF wr(2)] by blast
    have "kv_commit B I i kv = (Inr () :: ('e, unit) outcome, ?kv0\<lparr>kv_db := db3\<rparr>)"
      using max Some logs(1) wr(1) rm(1)
      by (simp add: kv_commit_def Let_def bindS_def kv_write_batch_def db_result_def)
    then show ?thesis using rm wr(3) logs(3) Some by (simp add: out_of_window_def cong: if_cong)
  qed
qed

text \<open>A commit empties the change store and leaves the nodes and the leaves of the tries alone.\<close>

lemma kv_commit_view:
  assumes ok: "ok (kv_db kv)"
  shows "\<exists>kv'. kv_commit B I i kv = (Inr () :: ('e, unit) outcome, kv') \<and> ok (kv_db kv') \<and>
    current_changes (changes_store kv') = [] \<and> config kv' = config kv \<and>
    (\<forall>k. (\<forall>l. k \<noteq> DbTrieLog l) \<longrightarrow> view (kv_db kv') k = view (kv_db kv) k)"
proof (cases "max_saved_trie_logs (config kv) = Some 0")
  case True
  then show ?thesis using ok by (auto simp: kv_commit_def Let_def)
next
  case False
  from kv_commit_rows [OF ok this, of i] obtain kv' where kv': "kv_commit B I i kv = (Inr () :: ('e, unit) outcome, kv')"
    "ok (kv_db kv')" "current_changes (changes_store kv') = []" "config kv' = config kv"
    "view (kv_db kv') = (\<lambda>k. if out_of_window I (config kv) i k then None
      else fold (\<lambda>(k, v) m. m(DbTrieLog k \<mapsto> v)) (serialize I i (current_changes (changes_store kv))) (view (kv_db kv)) k)"
    by blast
  then have "view (kv_db kv') k = view (kv_db kv) k" if "\<forall>l. k \<noteq> DbTrieLog l" for k
    using that out_of_window_log [of I "config kv" i k] by (auto simp: fold_logs_other)
  then show ?thesis using kv' by blast
qed

end

interpretation hashmap_kv: kv_store hashmap_ops hashmap_ok hashmap_view hashmap_pending basic_ops 8
  by unfold_locales

end
