(* ===== verification/Merkle_Node.thy ===== *)
theory Merkle_Node
  imports Trie_Key
begin

text \<open>
  The nodes of the tree (\<^verbatim>\<open>src/src/trie/merkle_node.rs\<close>). Field elements are values of
  a type \<open>'f\<close>; what the code takes from other crates about them (the zero element,
  addition, the reading of big-endian bytes, the hash function, the two derived codecs) is a
  record of functions that every definition takes as its first argument. Heights are depths
  in a tree of at most 255 levels and are modelled as natural numbers.
\<close>

section \<open>Definitions\<close>

datatype 'f node_handle = Hash 'f | InMemory nat

fun as_hash :: "'f node_handle \<Rightarrow> 'f option" where
  "as_hash (Hash felt) = Some felt"
| "as_hash (InMemory _) = None"

record 'f binary_node =
  b_hash :: "'f option"
  b_height :: nat
  b_left :: "'f node_handle"
  b_right :: "'f node_handle"

record 'f edge_node =
  e_hash :: "'f option"
  e_height :: nat
  e_path :: bits
  e_child :: "'f node_handle"

datatype 'f node = Binary "'f binary_node" | Edge "'f edge_node"

text \<open>
  The functions of other crates: \<open>Felt::ZERO\<close>, \<open>+\<close> on \<open>Felt\<close>,
  \<open>Felt::from_bytes_be\<close>, \<open>StarkHash::hash\<close>, and the \<open>Encode\<close> and \<open>Decode\<close> instances
  of \<open>Felt\<close> and \<open>Node\<close> (a decoder that fails gives \<open>None\<close>).
\<close>

record 'f ext_ops =
  ZERO :: 'f
  felt_add :: "'f \<Rightarrow> 'f \<Rightarrow> 'f"
  from_bytes_be :: "bytes \<Rightarrow> 'f"
  stark_hash :: "'f \<Rightarrow> 'f \<Rightarrow> 'f"
  felt_encode :: "'f \<Rightarrow> bytes"
  felt_decode :: "bytes \<Rightarrow> 'f option"
  node_encode :: "'f node \<Rightarrow> bytes"
  node_decode :: "bytes \<Rightarrow> 'f node option"

definition direction :: "'f binary_node \<Rightarrow> bits \<Rightarrow> ('e, direction) outcome" where
  "direction node key = and_then (index key (b_height node)) (\<lambda>b. Inr (direction_of_bool b))"

definition get_child :: "'f binary_node \<Rightarrow> direction \<Rightarrow> 'f node_handle" where
  "get_child node d = (case d of Left \<Rightarrow> b_left node | Right \<Rightarrow> b_right node)"

text \<open>Assignment through \<open>get_child_mut\<close>.\<close>

definition set_child :: "'f binary_node \<Rightarrow> direction \<Rightarrow> 'f node_handle \<Rightarrow> 'f binary_node" where
  "set_child node d h =
     (case d of Left \<Rightarrow> node\<lparr>b_left := h\<rparr> | Right \<Rightarrow> node\<lparr>b_right := h\<rparr>)"

fun as_binary :: "'f node \<Rightarrow> 'f binary_node option" where
  "as_binary (Binary node) = Some node"
| "as_binary (Edge _) = None"

fun get_hash :: "'f node \<Rightarrow> 'f option" where
  "get_hash (Binary binary) = b_hash binary"
| "get_hash (Edge edge) = e_hash edge"

text \<open>Assignment to the hash field of a node.\<close>

fun set_hash :: "'f node \<Rightarrow> 'f \<Rightarrow> 'f node" where
  "set_hash (Binary binary) h = Binary (binary\<lparr>b_hash := Some h\<rparr>)"
| "set_hash (Edge edge) h = Edge (edge\<lparr>e_hash := Some h\<rparr>)"

definition path_matches :: "'f edge_node \<Rightarrow> bits \<Rightarrow> nat \<Rightarrow> ('e, bool) outcome" where
  "path_matches edge key node_height =
     (if e_height edge \<noteq> node_height then Inl (Panic ''assertion failed'')
      else let lower_bound = min node_height (length key);
               upper_bound = min (node_height + length (e_path edge)) (length key)
           in Inr (prefix (drop lower_bound (take upper_bound key)) (e_path edge)))"

definition common_path :: "'f edge_node \<Rightarrow> bits \<Rightarrow> bits" where
  "common_path edge key =
     (let key_path = drop (e_height edge) key;
          common_length = common_len key_path (e_path edge)
      in take common_length (e_path edge))"

definition hash_binary_node :: "'f ext_ops \<Rightarrow> 'f \<Rightarrow> 'f \<Rightarrow> 'f" where
  "hash_binary_node F left_hash right_hash = stark_hash F left_hash right_hash"

text \<open>
  The path right-aligned in 32 bytes, and its length in the last byte of another 32 bytes.
  The slice expression panics for a path of more than 256 bits.
\<close>

definition hash_edge_node :: "'f ext_ops \<Rightarrow> bits \<Rightarrow> 'f \<Rightarrow> ('e, 'f) outcome" where
  "hash_edge_node F path child_hash =
     (if 256 < length path then Inl (Panic ''slice index out of bounds'')
      else let bytes = pack_bytes (replicate (256 - length path) False @ path);
               felt_path = from_bytes_be F bytes;
               len = from_bytes_be F (replicate 31 0 @ [word_of_nat (length path)])
           in Inr (felt_add F (stark_hash F child_hash felt_path) len))"

section \<open>Lemmas\<close>

text \<open>The value of \<open>hash_edge_node\<close> where it does not panic.\<close>

definition edge_hash :: "'f ext_ops \<Rightarrow> bits \<Rightarrow> 'f \<Rightarrow> 'f" where
  "edge_hash F path child_hash =
     felt_add F (stark_hash F child_hash
       (from_bytes_be F (pack_bytes (replicate (256 - length path) False @ path))))
       (from_bytes_be F (replicate 31 0 @ [word_of_nat (length path)]))"

lemma hash_edge_node_Inr: "length p \<le> 256 \<Longrightarrow> hash_edge_node F p c = Inr (edge_hash F p c)"
  by (simp add: hash_edge_node_def edge_hash_def)

lemma get_child_bool [simp]:
  "get_child n (direction_of_bool b) = (if b then b_right n else b_left n)"
  by (simp add: get_child_def direction_of_bool_def)

lemma set_child_bool [simp]:
  "set_child n (direction_of_bool b) h = (if b then n\<lparr>b_right := h\<rparr> else n\<lparr>b_left := h\<rparr>)"
  by (simp add: set_child_def direction_of_bool_def)

lemma direction_simps [simp]:
  "b_height n < length key \<Longrightarrow> direction n key = Inr (direction_of_bool (key ! b_height n))"
  by (simp add: direction_def)

text \<open>On a key that reaches past the edge, \<open>path_matches\<close> compares the whole path.\<close>

lemma path_matches_full:
  assumes "e_height edge = h" "h + length (e_path edge) \<le> length key"
  shows "path_matches edge key h = Inr (take (length (e_path edge)) (drop h key) = e_path edge)"
proof -
  have "drop h (take (h + length (e_path edge)) key) = take (length (e_path edge)) (drop h key)"
    by (simp add: take_drop add.commute)
  moreover have "length (take (length (e_path edge)) (drop h key)) = length (e_path edge)"
    using assms(2) by simp
  ultimately show ?thesis
    using assms by (simp add: path_matches_def Let_def min_absorb1 prefix_same_length)
qed

lemma common_path_prefix:
  "prefix (common_path edge key) (e_path edge)"
  "prefix (common_path edge key) (drop (e_height edge) key)"
  by (simp_all add: common_path_def Let_def take_is_prefix)
     (metis common_len_take take_is_prefix)

lemma length_common_path:
  "length (common_path edge key) = common_len (drop (e_height edge) key) (e_path edge)"
  using common_len_le(2) [of "drop (e_height edge) key" "e_path edge"]
  by (simp add: common_path_def Let_def)

end
