(* ===== verification/Tree_Base.thy ===== *)
theory Tree_Base
  imports Merkle_Node
begin

text \<open>
  The state of one Merkle tree and the first half of \<^verbatim>\<open>src/src/trie/tree.rs\<close>: loading
  nodes from the database into the slot map, and hashes of nodes. The argument \<open>db\<close> of these
  definitions is the method \<open>KeyValueDB::get\<close> of the store at hand, the only method of it
  that a tree calls between two commits. A computation that changes the tree is an \<open>action\<close>:
  it returns the tree it leaves behind also when it fails.
\<close>

section \<open>Definitions\<close>

datatype root_handle = Empty | Loaded nat

datatype 'a insert_or_remove = Insert 'a | Remove

record 'f merkle_tree =
  root_node :: "root_handle option"
  nodes :: "'f node slot_map"
  tree_ident :: bytes
  death_row :: "trie_key list"
  cache_leaf_modified :: "(bytes, 'f insert_or_remove) hash_map"
  max_height :: byte

type_synonym 'e db_view = "trie_key \<Rightarrow> ('e, bytes option) outcome"
type_synonym ('f, 'e, 'a) tree_action = "('f merkle_tree, 'e, 'a) action"

definition tree_new :: "bytes \<Rightarrow> byte \<Rightarrow> 'f merkle_tree" where
  "tree_new ident height =
     \<lparr>root_node = None, nodes = sm_empty, tree_ident = ident, death_row = [],
      cache_leaf_modified = [], max_height = height\<rparr>"

text \<open>\<open>HashSet::insert\<close> on the death row.\<close>

definition death_row_insert :: "trie_key \<Rightarrow> 'f merkle_tree \<Rightarrow> 'f merkle_tree" where
  "death_row_insert k t = t\<lparr>death_row := List.insert k (death_row t)\<rparr>"

definition cache_insert :: "bytes \<Rightarrow> 'f insert_or_remove \<Rightarrow> 'f merkle_tree \<Rightarrow> 'f merkle_tree" where
  "cache_insert k v t = t\<lparr>cache_leaf_modified := hm_insert k v (cache_leaf_modified t)\<rparr>"

text \<open>\<open>self.nodes.insert\<close>, \<open>self.nodes.remove\<close>, and \<open>self.nodes[id] = node\<close>, which panics on a
  dangling key.\<close>

definition nodes_insert :: "'f node \<Rightarrow> 'f merkle_tree \<Rightarrow> nat \<times> 'f merkle_tree" where
  "nodes_insert n t = (case sm_insert n (nodes t) of (k, ns) \<Rightarrow> (k, t\<lparr>nodes := ns\<rparr>))"

definition nodes_remove :: "nat \<Rightarrow> 'f merkle_tree \<Rightarrow> 'f merkle_tree" where
  "nodes_remove k t = t\<lparr>nodes := sm_remove k (nodes t)\<rparr>"

definition nodes_assign :: "nat \<Rightarrow> 'f node \<Rightarrow> ('f, 'e, unit) tree_action" where
  "nodes_assign k n t =
     (if sm_get (nodes t) k = None then (Inl (Panic ''invalid SlotMap key used''), t)
      else (Inr (), t\<lparr>nodes := sm_set k n (nodes t)\<rparr>))"

definition load_db_node ::
  "'f ext_ops \<Rightarrow> 'e db_view \<Rightarrow> trie_key \<Rightarrow> ('f, 'e, nat option) tree_action" where
  "load_db_node F db key t =
     (if key \<in> set (death_row t) then (Inr None, t)
      else case db key of
        Inl e \<Rightarrow> (Inl e, t)
      | Inr None \<Rightarrow> (Inr None, t)
      | Inr (Some node) \<Rightarrow>
          (case node_decode F node of
             None \<Rightarrow> (Inl (Err NodeDecodeError), t)
           | Some node \<Rightarrow> (case nodes_insert node t of (key, t') \<Rightarrow> (Inr (Some key), t'))))"

definition load_root_node :: "'f ext_ops \<Rightarrow> 'e db_view \<Rightarrow> ('f, 'e, nat option) tree_action" where
  "load_root_node F db t =
     (case root_node t of
        Some (Loaded node_id) \<Rightarrow> (Inr (Some node_id), t)
      | Some Empty \<Rightarrow> (Inr None, t)
      | None \<Rightarrow>
          bindS (load_db_node F db (trie_key_new (tree_ident t) TrieType [0]))
            (\<lambda>node_id t. case node_id of
                Some node_id \<Rightarrow> (Inr (Some node_id), t\<lparr>root_node := Some (Loaded node_id)\<rparr>)
              | None \<Rightarrow> (Inr None, t\<lparr>root_node := Some Empty\<rparr>)) t)"

definition get_node_mut :: "nat \<Rightarrow> ('f, 'e, 'f node) tree_action" where
  "get_node_mut node_key t =
     (case sm_get (nodes t) node_key of
        None \<Rightarrow> (Inl (Err (TrieError ''Dangling in-memory node key'')), t)
      | Some n \<Rightarrow> (Inr n, t))"

definition load_node_handle ::
  "'f ext_ops \<Rightarrow> 'e db_view \<Rightarrow> 'f node_handle \<Rightarrow> bits \<Rightarrow> ('f, 'e, nat) tree_action" where
  "load_node_handle F db handle path t =
     (case handle of
        Hash _ \<Rightarrow>
          bindS (load_db_node F db (trie_key_new (tree_ident t) TrieType (path_encode path)))
            (\<lambda>node_key t. case node_key of
                Some node_key \<Rightarrow> (Inr node_key, t)
              | None \<Rightarrow> (Inl (Err (TrieError ''Could not get node from db'')), t)) t
      | InMemory node_key \<Rightarrow> (Inr node_key, t))"

text \<open>The recursion follows in-memory handles; \<open>fuel\<close> bounds its depth.\<close>

fun get_or_compute_node_hash ::
  "'f ext_ops \<Rightarrow> nat \<Rightarrow> 'f node_handle \<Rightarrow> ('f, 'e, 'f) tree_action" where
  "get_or_compute_node_hash F fuel (Hash felt) = retS felt"
| "get_or_compute_node_hash F 0 (InMemory node_key) = failS OutOfFuel"
| "get_or_compute_node_hash F (Suc fuel) (InMemory node_key) =
     bindS (get_node_mut node_key) (\<lambda>node.
       case get_hash node of
         Some hash \<Rightarrow> retS hash
       | None \<Rightarrow>
           bindS
             (case node of
                Binary binary_node \<Rightarrow>
                  bindS (get_or_compute_node_hash F fuel (b_left binary_node)) (\<lambda>left_hash.
                  bindS (get_or_compute_node_hash F fuel (b_right binary_node)) (\<lambda>right_hash.
                  retS (hash_binary_node F left_hash right_hash)))
              | Edge edge_node \<Rightarrow>
                  bindS (get_or_compute_node_hash F fuel (e_child edge_node)) (\<lambda>child_hash.
                  liftS (hash_edge_node F (e_path edge_node) child_hash)))
             (\<lambda>computed_hash.
                bindS (get_node_mut node_key) (\<lambda>node.
                bindS (nodes_assign node_key (set_hash node computed_hash)) (\<lambda>_.
                retS computed_hash))))"

text \<open>The node stored at a position, as the code sees it through the death row.\<close>

definition get_trie_branch_in_db_from_path ::
  "'f ext_ops \<Rightarrow> trie_key list \<Rightarrow> bytes \<Rightarrow> 'e db_view \<Rightarrow> bits \<Rightarrow> ('e, 'f node option) outcome" where
  "get_trie_branch_in_db_from_path F death ident db path =
     (let key = trie_key_new ident TrieType (path_encode path) in
      if key \<in> set death then Inr None
      else and_then (db key) (\<lambda>node.
        case node of
          None \<Rightarrow> Inr None
        | Some node \<Rightarrow>
            (case node_decode F node of
               None \<Rightarrow> Inl (Err (TrieError ''Couldn't decode node''))
             | Some n \<Rightarrow> Inr (Some n))))"

definition tree_root_hash :: "'f ext_ops \<Rightarrow> 'e db_view \<Rightarrow> 'f merkle_tree \<Rightarrow> ('e, 'f) outcome" where
  "tree_root_hash F db t =
     (case root_node t of
        Some Empty \<Rightarrow> Inr (ZERO F)
      | Some (Loaded node_id) \<Rightarrow>
          (case sm_get (nodes t) node_id of
             None \<Rightarrow> Inl (Err (TrieError ''Could not fetch root node from storage''))
           | Some node \<Rightarrow>
               (case get_hash node of
                  None \<Rightarrow> Inl (Err (TrieError ''The tree has uncommited changes''))
                | Some h \<Rightarrow> Inr h))
      | None \<Rightarrow>
          and_then (get_trie_branch_in_db_from_path F (death_row t) (tree_ident t) db [])
            (\<lambda>node. case node of
                None \<Rightarrow> Inr (ZERO F)
              | Some node \<Rightarrow>
                  (case get_hash node of
                     None \<Rightarrow> Inl (Panic ''The fetched node has no computed hash'')
                   | Some h \<Rightarrow> Inr h)))"

section \<open>Lemmas\<close>

lemma cache_insert_simps [simp]:
  "root_node (cache_insert k v t) = root_node t" "nodes (cache_insert k v t) = nodes t"
  "tree_ident (cache_insert k v t) = tree_ident t" "death_row (cache_insert k v t) = death_row t"
  "max_height (cache_insert k v t) = max_height t"
  "cache_leaf_modified (cache_insert k v t) = hm_insert k v (cache_leaf_modified t)"
  by (simp_all add: cache_insert_def)

lemma death_row_insert_simps [simp]:
  "root_node (death_row_insert k t) = root_node t" "nodes (death_row_insert k t) = nodes t"
  "tree_ident (death_row_insert k t) = tree_ident t"
  "set (death_row (death_row_insert k t)) = insert k (set (death_row t))"
  "max_height (death_row_insert k t) = max_height t"
  "cache_leaf_modified (death_row_insert k t) = cache_leaf_modified t"
  by (simp_all add: death_row_insert_def)

lemma nodes_remove_simps [simp]:
  "root_node (nodes_remove k t) = root_node t" "nodes (nodes_remove k t) = sm_remove k (nodes t)"
  "tree_ident (nodes_remove k t) = tree_ident t" "death_row (nodes_remove k t) = death_row t"
  "max_height (nodes_remove k t) = max_height t"
  "cache_leaf_modified (nodes_remove k t) = cache_leaf_modified t"
  by (simp_all add: nodes_remove_def)

lemma get_node_mut_Inr [run_simps]: "sm_get (nodes t) k = Some n \<Longrightarrow> get_node_mut k t = (Inr n, t)"
  by (simp add: get_node_mut_def)

lemma nodes_assign_Inr [run_simps]:
  "sm_get (nodes t) k \<noteq> None \<Longrightarrow> nodes_assign k n t = (Inr (), t\<lparr>nodes := sm_set k n (nodes t)\<rparr>)"
  by (simp add: nodes_assign_def)

end
