(* ===== verification/Tree_Iterator.thy ===== *)
theory Tree_Iterator
  imports Tree_Base
begin

text \<open>
  The iterator of \<^verbatim>\<open>src/src/trie/iterator.rs\<close>: it walks from the root towards a key,
  loading the nodes on the way into the slot map and remembering them with their heights. The
  iterator owns the tree while it lives, so the tree is a field of its state. A visitor is a
  function on its own state and the tree. The loop of \<open>traverse_to\<close> runs at most \<open>fuel\<close>
  times in the model; \<open>Tree_Seek\<close> shows that the height of the tree plus one is enough.
\<close>

section \<open>Definitions\<close>

record 'f merkle_iter =
  it_tree :: "'f merkle_tree"
  current_path :: bits
  current_nodes_heights :: "(nat \<times> nat) list"
  leaf_hash :: "'f option"

type_synonym ('f, 'e, 'a) iter_action = "('f merkle_iter, 'e, 'a) action"
type_synonym ('v, 'f, 'e) node_visitor = "nat \<Rightarrow> nat \<Rightarrow> ('v \<times> 'f merkle_tree, 'e, unit) action"

definition noop_visitor :: "('v, 'f, 'e) node_visitor" where
  "noop_visitor node_id prev_height = retS ()"

definition iter_new :: "'f merkle_tree \<Rightarrow> 'f merkle_iter" where
  "iter_new t = \<lparr>it_tree = t, current_path = [], current_nodes_heights = [], leaf_hash = None\<rparr>"

text \<open>A call on the tree of the iterator.\<close>

definition on_tree :: "('f, 'e, 'a) tree_action \<Rightarrow> ('f, 'e, 'a) iter_action" where
  "on_tree m it = (case m (it_tree it) of (r, t) \<Rightarrow> (r, it\<lparr>it_tree := t\<rparr>))"

text \<open>The child to follow and whether the path matches; the current path is extended.\<close>

definition traverse_pick ::
  "'f node \<Rightarrow> nat \<Rightarrow> bits \<Rightarrow> ('f, 'e, 'f node_handle \<times> bool) iter_action" where
  "traverse_pick node height key it =
     (case node of
        Binary binary_node \<Rightarrow>
          (case index key (length (current_path it)) of
             Inl e \<Rightarrow> (Inl e, it)
           | Inr b \<Rightarrow>
               (let next_direction = direction_of_bool b in
                (Inr (get_child binary_node next_direction, True),
                 it\<lparr>current_path := current_path it @ [bool_of_direction next_direction]\<rparr>)))
      | Edge edge_node \<Rightarrow>
          (let it = it\<lparr>current_path := current_path it @ e_path edge_node\<rparr> in
           case path_matches edge_node key height of
             Inl e \<Rightarrow> (Inl e, it)
           | Inr matches \<Rightarrow> (Inr (e_child edge_node, matches), it)))"

text \<open>The parent's handle is made to point at the loaded child.\<close>

definition update_parent_ref :: "nat \<Rightarrow> nat \<Rightarrow> ('f, 'e, unit) iter_action" where
  "update_parent_ref node_id child_key =
     bindS (on_tree (get_node_mut node_id)) (\<lambda>node it.
       case node of
         Binary binary_node \<Rightarrow>
           (if current_path it = []
            then (Inl (Panic ''current path should have a length > 0 at this point''), it)
            else on_tree (nodes_assign node_id (Binary
                   (set_child binary_node (direction_of_bool (last (current_path it)))
                      (InMemory child_key)))) it)
       | Edge edge_node \<Rightarrow>
           on_tree (nodes_assign node_id (Edge (edge_node\<lparr>e_child := InMemory child_key\<rparr>))) it)"

definition traverse_one ::
  "'f ext_ops \<Rightarrow> 'e db_view \<Rightarrow> nat \<Rightarrow> nat \<Rightarrow> bits \<Rightarrow> ('f, 'e, nat option) iter_action" where
  "traverse_one F db node_id height key it =
     (let it = it\<lparr>current_nodes_heights :=
                    current_nodes_heights it @ [(node_id, length (current_path it))]\<rparr> in
      bindS (on_tree (get_node_mut node_id)) (\<lambda>node.
      bindS (traverse_pick node height key) (\<lambda>(node_handle, matches) it.
        if \<not> matches \<or> length key \<le> length (current_path it)
        then (Inr None,
              it\<lparr>leaf_hash := (if matches \<and> length (current_path it) = length key
                               then as_hash node_handle else None)\<rparr>)
        else bindS (on_tree (load_node_handle F db node_handle (current_path it))) (\<lambda>child_key.
             bindS (update_parent_ref node_id child_key) (\<lambda>_.
             retS (Some child_key))) it)) it)"

text \<open>A call of the visitor, on its state and the tree of the iterator.\<close>

definition visit :: "('v \<times> 'f merkle_tree, 'e, 'a) action \<Rightarrow> ('v \<times> 'f merkle_iter, 'e, 'a) action" where
  "visit m s = (case s of (v, it) \<Rightarrow>
     (case m (v, it_tree it) of (r, v', t) \<Rightarrow> (r, v', it\<lparr>it_tree := t\<rparr>)))"

definition on_iter :: "('f, 'e, 'a) iter_action \<Rightarrow> ('v \<times> 'f merkle_iter, 'e, 'a) action" where
  "on_iter m s = (case s of (v, it) \<Rightarrow> (case m it of (r, it') \<Rightarrow> (r, v, it')))"

fun traverse_loop ::
  "'f ext_ops \<Rightarrow> nat \<Rightarrow> 'e db_view \<Rightarrow> ('v, 'f, 'e) node_visitor \<Rightarrow> bits \<Rightarrow> nat option \<Rightarrow>
    ('v \<times> 'f merkle_iter, 'e, unit) action" where
  "traverse_loop F fuel db visitor key None = retS ()"
| "traverse_loop F 0 db visitor key (Some node_id) = failS OutOfFuel"
| "traverse_loop F (Suc fuel) db visitor key (Some node_id) =
     (\<lambda>(v, it).
        bindS (visit (visitor node_id (length (current_path it)))) (\<lambda>_ (v, it).
        bindS (on_iter (traverse_one F db node_id (length (current_path it)) key)) (\<lambda>next_to_visit.
        traverse_loop F fuel db visitor key next_to_visit) (v, it)) (v, it))"

text \<open>\<open>partition_point\<close> on the heights, which are sorted.\<close>

definition partition_point :: "(nat \<times> nat) list \<Rightarrow> nat \<Rightarrow> nat" where
  "partition_point hs bound = length (takeWhile (\<lambda>(_, height). height < bound) hs)"

text \<open>
  The part of the path and of the node list that the new key shares is kept; the walk goes on
  from the last node kept, or from the root.
\<close>

definition traverse_to ::
  "'f ext_ops \<Rightarrow> nat \<Rightarrow> 'e db_view \<Rightarrow> ('v, 'f, 'e) node_visitor \<Rightarrow> bits \<Rightarrow>
    ('v \<times> 'f merkle_iter, 'e, unit) action" where
  "traverse_to F fuel db visitor key = (\<lambda>(v, it).
     if key = []
     then (Inr (), v, it\<lparr>current_nodes_heights := [], current_path := [], leaf_hash := None\<rparr>)
     else
       let shared_prefix_len = common_len (current_path it) key;
           nodes_new_len = (if shared_prefix_len = 0 then 0
                            else partition_point (current_nodes_heights it) shared_prefix_len);
           kept = take nodes_new_len (current_nodes_heights it);
           it = it\<lparr>current_nodes_heights := kept, current_path := take (length key) (current_path it)\<rparr>
       in if kept \<noteq> []
          then (case last kept of (node_id, height) \<Rightarrow>
                  bindS (on_iter (traverse_one F db node_id height key))
                    (traverse_loop F fuel db visitor key)
                    (v, it\<lparr>current_nodes_heights := butlast kept,
                           current_path := take height (current_path it)\<rparr>))
          else bindS (on_iter (on_tree (load_root_node F db))) (\<lambda>node_id (v, it).
                 case node_id of
                   None \<Rightarrow> (Inr (), v, it\<lparr>leaf_hash := None\<rparr>)
                 | Some node_id \<Rightarrow> traverse_loop F fuel db visitor key (Some node_id) (v, it))
                 (v, it\<lparr>current_path := []\<rparr>))"

definition seek_to ::
  "'f ext_ops \<Rightarrow> nat \<Rightarrow> 'e db_view \<Rightarrow> bits \<Rightarrow> ('f, 'e, unit) iter_action" where
  "seek_to F fuel db key it =
     (case traverse_to F fuel db noop_visitor key ((), it) of (r, _, it') \<Rightarrow> (r, it'))"

text \<open>
  The idiom of \<open>set\<close> and \<open>delete_leaf\<close>: a fresh iterator, one seek, and the node list it ends
  with.
\<close>

definition seek_path ::
  "'f ext_ops \<Rightarrow> nat \<Rightarrow> 'e db_view \<Rightarrow> bits \<Rightarrow> ('f, 'e, (nat \<times> nat) list) tree_action" where
  "seek_path F fuel db key t =
     (case seek_to F fuel db key (iter_new t) of
        (Inl e, it) \<Rightarrow> (Inl e, it_tree it)
      | (Inr _, it) \<Rightarrow> (Inr (current_nodes_heights it), it_tree it))"

section \<open>Lemmas\<close>

lemma on_tree_Inr [run_simps]:
  "m (it_tree it) = (r, t) \<Longrightarrow> on_tree m it = (r, it\<lparr>it_tree := t\<rparr>)"
  by (simp add: on_tree_def)

lemma on_iter_Inr [run_simps]: "m it = (r, it') \<Longrightarrow> on_iter m (v, it) = (r, v, it')"
  by (simp add: on_iter_def)

lemma visit_noop [simp]: "visit (noop_visitor i h) (v, it) = (Inr (), v, it)"
  by (simp add: visit_def noop_visitor_def)

end
