(* ===== verification/Merkle_Tree.thy ===== *)
theory Merkle_Tree
  imports Tree_Iterator
begin

text \<open>
  The second half of \<^verbatim>\<open>src/src/trie/tree.rs\<close>: setting and deleting leaves, reading
  them, and the collection of the updates that a commit writes. Each definition follows one
  method, with its early returns in order; the arms of the big \<open>match\<close> statements are
  definitions of their own.
\<close>

section \<open>Setting a leaf\<close>

text \<open>\<open>set\<close>, the arm of the edge node that the walk ended at.\<close>

definition set_edge ::
  "nat \<Rightarrow> bits \<Rightarrow> 'f \<Rightarrow> nat \<Rightarrow> 'f edge_node \<Rightarrow> ('f, 'e, unit) tree_action" where
  "set_edge off key value node_id edge t =
     (let key_bytes = bitslice_to_bytes off key;
          common = common_path edge key;
          branch_height = e_height edge + length common in
      if branch_height = length key
      then nodes_assign node_id (Edge (edge\<lparr>e_child := Hash value\<rparr>))
             (cache_insert key_bytes (Insert value) t)
      else
        let child_height = branch_height + 1 in
        bindS (liftS (slice_from key child_height)) (\<lambda>new_path.
        bindS (liftS (slice_from (e_path edge) (length common + 1))) (\<lambda>old_path t.
        let t = cache_insert key_bytes (Insert value) t;
            (new, t) =
              (if new_path = [] then (Hash value, t)
               else case nodes_insert (Edge \<lparr>e_hash = None, e_height = child_height,
                           e_path = new_path, e_child = Hash value\<rparr>) t of
                      (edge_id, t) \<Rightarrow> (InMemory edge_id, t));
            (old, t) =
              (if old_path = [] then (e_child edge, t)
               else case nodes_insert (Edge \<lparr>e_hash = None, e_height = child_height,
                           e_path = old_path, e_child = e_child edge\<rparr>) t of
                      (edge_id, t) \<Rightarrow> (InMemory edge_id, t))
        in bindS (liftS (index key branch_height)) (\<lambda>b t.
           let (left, right) =
                 (case direction_of_bool b of Left \<Rightarrow> (new, old) | Right \<Rightarrow> (old, new));
               branch = Binary \<lparr>b_hash = None, b_height = branch_height,
                                b_left = left, b_right = right\<rparr>;
               (new_node, t) =
                 (if common = [] then (branch, t)
                  else case nodes_insert branch t of
                         (branch_id, t) \<Rightarrow>
                           (Edge \<lparr>e_hash = None, e_height = e_height edge, e_path = common,
                                  e_child = InMemory branch_id\<rparr>, t))
           in bindS (liftS (slice_to key (e_height edge))) (\<lambda>prefix_bits t.
                nodes_assign node_id new_node
                  (death_row_insert (Trie (bitslice_to_bytes off prefix_bits)) t)) t) t)) t)"

text \<open>\<open>set\<close>, the arm of the binary node.\<close>

definition set_binary ::
  "nat \<Rightarrow> bits \<Rightarrow> 'f \<Rightarrow> nat \<Rightarrow> 'f binary_node \<Rightarrow> ('f, 'e, unit) tree_action" where
  "set_binary off key value node_id binary t =
     (let child_height = b_height binary + 1 in
      if child_height = length key
      then bindS (liftS (direction binary key)) (\<lambda>d t.
             nodes_assign node_id (Binary (set_child binary d (Hash value)))
               (cache_insert (bitslice_to_bytes off key) (Insert value) t)) t
      else nodes_assign node_id (Binary binary) t)"

text \<open>\<open>set\<close>, the tree without any node.\<close>

definition set_empty :: "nat \<Rightarrow> bits \<Rightarrow> 'f \<Rightarrow> ('f, 'e, unit) tree_action" where
  "set_empty off key value t =
     (case nodes_insert (Edge \<lparr>e_hash = None, e_height = 0, e_path = key, e_child = Hash value\<rparr>) t of
        (node_id, t) \<Rightarrow>
          (Inr (), cache_insert (bitslice_to_bytes off key) (Insert value)
                     (t\<lparr>root_node := Some (Loaded node_id)\<rparr>)))"

section \<open>Deleting a leaf\<close>

text \<open>Merging an edge with its child when the child is an edge.\<close>

definition merge_edges ::
  "'f ext_ops \<Rightarrow> 'e db_view \<Rightarrow> 'f edge_node \<Rightarrow> bits \<Rightarrow> ('f, 'e, 'f edge_node) tree_action" where
  "merge_edges F db parent path t =
     (case e_child parent of
        Hash _ \<Rightarrow>
          bindS (liftS (get_trie_branch_in_db_from_path F (death_row t) (tree_ident t) db path))
            (\<lambda>node t. case node of
                Some (Edge child_edge) \<Rightarrow>
                  (Inr (parent\<lparr>e_path := e_path parent @ e_path child_edge,
                               e_child := e_child child_edge\<rparr>),
                   death_row_insert (trie_key_new (tree_ident t) TrieType (path_encode path)) t)
              | _ \<Rightarrow> (Inr parent, t)) t
      | InMemory child_id \<Rightarrow>
          bindS (get_node_mut child_id)
            (\<lambda>node t. case node of
                Edge child_edge \<Rightarrow>
                  (Inr (parent\<lparr>e_path := e_path parent @ e_path child_edge,
                               e_child := e_child child_edge\<rparr>),
                   death_row_insert (trie_key_new (tree_ident t) TrieType (path_encode path))
                     (nodes_remove child_id t))
              | Binary _ \<Rightarrow> (Inr parent, t)) t)"

text \<open>The final edge, when there is one, goes first: the node list and the path above it.\<close>

definition delete_final_edge ::
  "bits \<Rightarrow> (nat \<times> nat) list \<Rightarrow> ('f, 'e, (nat \<times> nat) list \<times> bits) tree_action" where
  "delete_final_edge key path_nodes t =
     (if path_nodes = [] then (Inr (path_nodes, key), t)
      else case last path_nodes of (node_key, _) \<Rightarrow>
        bindS (get_node_mut node_key)
          (\<lambda>node t. case node of
              Binary _ \<Rightarrow> (Inr (path_nodes, key), t)
            | Edge edge \<Rightarrow>
                (let last_binary_path = (butlast ^^ length (e_path edge)) key in
                 (Inr (butlast path_nodes, last_binary_path),
                  nodes_remove node_key
                    (death_row_insert
                       (trie_key_new (tree_ident t) TrieType (path_encode last_binary_path)) t)))) t)"

text \<open>The binary node that loses a child becomes an edge, merged with what is below and above.\<close>

definition delete_branch ::
  "'f ext_ops \<Rightarrow> 'e db_view \<Rightarrow> bits \<Rightarrow> bits \<Rightarrow> nat \<Rightarrow> nat option \<Rightarrow> ('f, 'e, unit) tree_action" where
  "delete_branch F db key last_binary_path node_id parent_branch_node =
     bindS (get_node_mut node_id) (\<lambda>node.
       case as_binary node of
         None \<Rightarrow>
           failS (Panic ''The node must be a binary node due to the iteration condition'')
       | Some binary \<Rightarrow>
           bindS (liftS (direction binary key)) (\<lambda>d.
           let direction = invert d;
               last_binary_path = butlast last_binary_path @ [bool_of_direction direction];
               edge = \<lparr>e_hash = None, e_height = b_height binary,
                       e_path = [bool_of_direction direction],
                       e_child = get_child binary direction\<rparr>
           in bindS (merge_edges F db edge last_binary_path) (\<lambda>new_edge.
              case parent_branch_node of
                None \<Rightarrow> nodes_assign node_id (Edge new_edge)
              | Some parent_node_id \<Rightarrow>
                  bindS (get_node_mut parent_node_id) (\<lambda>parent_node t.
                    case parent_node of
                      Edge parent_edge \<Rightarrow>
                        bindS (nodes_assign parent_node_id
                                 (Edge (parent_edge\<lparr>e_path := e_path parent_edge @ e_path new_edge,
                                                    e_child := e_child new_edge\<rparr>)))
                          (\<lambda>_ t. (Inr (), nodes_remove node_id
                             (death_row_insert
                                (trie_key_new (tree_ident t) TrieType
                                   (path_encode (butlast last_binary_path))) t))) t
                    | Binary _ \<Rightarrow> nodes_assign node_id (Edge new_edge) t))))"

text \<open>No binary node is left: the tree becomes empty.\<close>

definition delete_root :: "'f merkle_tree \<Rightarrow> 'f merkle_tree" where
  "delete_root t =
     (let t = (case root_node t of Some (Loaded node_id) \<Rightarrow> nodes_remove node_id t | _ \<Rightarrow> t)
      in (death_row_insert (trie_key_new (tree_ident t) TrieType [0]) t)
           \<lparr>root_node := Some Empty\<rparr>)"

definition delete_leaf ::
  "nat \<Rightarrow> 'f ext_ops \<Rightarrow> nat \<Rightarrow> 'e db_view \<Rightarrow> bits \<Rightarrow> ('f, 'e, unit) tree_action" where
  "delete_leaf off F fuel db key t =
     (if length key \<noteq> unat (max_height t)
      then (Inl (Err (KeyLength (unat (max_height t)) (length key))), t)
      else
        let key_bytes = bitslice_to_bytes off key in
        bindS (\<lambda>t. case hm_get (cache_leaf_modified t) key_bytes of
                  Some entry \<Rightarrow> (Inr (case entry of Insert _ \<Rightarrow> True | Remove \<Rightarrow> False), t)
                | None \<Rightarrow>
                    (case db (trie_key_new (tree_ident t) FlatType key_bytes) of
                       Inl e \<Rightarrow> (Inl e, t)
                     | Inr found \<Rightarrow> (Inr (found \<noteq> None), t)))
          (\<lambda>tree_has_value t.
             if \<not> tree_has_value then (Inr (), t)
             else
               bindS (seek_path F fuel db key) (\<lambda>path_nodes.
               bindS (delete_final_edge key path_nodes) (\<lambda>(path_nodes, last_binary_path) t.
                 case rev (map fst path_nodes) of
                   [] \<Rightarrow> (Inr (), delete_root t)
                 | [node_id] \<Rightarrow> delete_branch F db key last_binary_path node_id None t
                 | node_id # parent_node_id # _ \<Rightarrow>
                     delete_branch F db key last_binary_path node_id (Some parent_node_id) t))
                 (cache_insert key_bytes Remove t)) t)"

section \<open>Setting, reading\<close>

text \<open>\<open>Felt::decode(\<dots>).unwrap()\<close> on a value found in the database.\<close>

definition decode_flat :: "'f ext_ops \<Rightarrow> bytes option \<Rightarrow> ('e, 'f option) outcome" where
  "decode_flat F found =
     (case found of
        None \<Rightarrow> Inr None
      | Some value_db \<Rightarrow>
          (case felt_decode F value_db of
             None \<Rightarrow> Inl (Panic ''called unwrap on an Err value'')
           | Some v \<Rightarrow> Inr (Some v)))"

definition tree_set ::
  "nat \<Rightarrow> 'f ext_ops \<Rightarrow> nat \<Rightarrow> 'e db_view \<Rightarrow> bits \<Rightarrow> 'f \<Rightarrow> ('f, 'e, unit) tree_action" where
  "tree_set off F fuel db key value t =
     (if value = ZERO F then delete_leaf off F fuel db key t
      else if length key \<noteq> unat (max_height t)
      then (Inl (Err (KeyLength (unat (max_height t)) (length key))), t)
      else
        let key_bytes = bitslice_to_bytes off key in
        case hm_get (cache_leaf_modified t) key_bytes of
          Some (Insert _) \<Rightarrow> (Inr (), cache_insert key_bytes (Insert value) t)
        | _ \<Rightarrow>
            bindS (liftS (and_then (db (trie_key_new (tree_ident t) FlatType key_bytes))
                            (decode_flat F)))
              (\<lambda>value_db.
                 if value_db = Some value then retS ()
                 else bindS (seek_path F fuel db key) (\<lambda>path_nodes.
                   if path_nodes = [] then set_empty off key value
                   else case last path_nodes of (node_id, _) \<Rightarrow>
                     bindS (get_node_mut node_id) (\<lambda>node.
                       case node of
                         Edge edge \<Rightarrow> set_edge off key value node_id edge
                       | Binary binary \<Rightarrow> set_binary off key value node_id binary))) t)"

definition tree_get ::
  "nat \<Rightarrow> 'f ext_ops \<Rightarrow> 'e db_view \<Rightarrow> 'f merkle_tree \<Rightarrow> bits \<Rightarrow> ('e, 'f option) outcome" where
  "tree_get off F db t key =
     (let key = bitslice_to_bytes off key in
      case hm_get (cache_leaf_modified t) key of
        Some Remove \<Rightarrow> Inr None
      | Some (Insert value) \<Rightarrow> Inr (Some value)
      | None \<Rightarrow> and_then (db (trie_key_new (tree_ident t) FlatType key)) (decode_flat F))"

text \<open>\<open>get_at\<close>: the reader of old commits is the method \<open>KeyValueDB::get_at\<close> at the requested id.\<close>

definition tree_get_at ::
  "nat \<Rightarrow> 'f ext_ops \<Rightarrow> 'e db_view \<Rightarrow> 'f merkle_tree \<Rightarrow> bits \<Rightarrow> ('e, 'f option) outcome" where
  "tree_get_at off F db_get_at t key =
     (let key = bitslice_to_bytes off key in
      and_then (db_get_at (trie_key_new (tree_ident t) FlatType key)) (decode_flat F))"

definition tree_contains ::
  "nat \<Rightarrow> (trie_key \<Rightarrow> ('e, bool) outcome) \<Rightarrow> 'f merkle_tree \<Rightarrow> bits \<Rightarrow> ('e, bool) outcome" where
  "tree_contains off db_contains t key =
     (let key = bitslice_to_bytes off key in
      case hm_get (cache_leaf_modified t) key of
        Some Remove \<Rightarrow> Inr False
      | Some (Insert _) \<Rightarrow> Inr True
      | None \<Rightarrow> db_contains (trie_key_new (tree_ident t) FlatType key))"

section \<open>Collecting the updates of a commit\<close>

datatype 'f node_or_felt = OfNode "'f node" | OfFelt 'f

definition get_node_or_felt :: "'f node slot_map \<Rightarrow> 'f node_handle \<Rightarrow> ('e, 'f node_or_felt) outcome" where
  "get_node_or_felt ns node_handle =
     (case node_handle of
        Hash hash \<Rightarrow> Inr (OfFelt hash)
      | InMemory node_id \<Rightarrow>
          (case sm_get ns node_id of
             None \<Rightarrow> Inl (Err (TrieError ''Couldn't fetch node in the temporary storage''))
           | Some node \<Rightarrow> Inr (OfNode node)))"

text \<open>
  The hash of a node and the list of computed hashes, extended. With two children in memory
  the right one is computed into a list of its own (by another thread) that is appended.
\<close>

fun compute_hashes ::
  "'f ext_ops \<Rightarrow> nat \<Rightarrow> 'f node slot_map \<Rightarrow> 'f node \<Rightarrow> bits \<Rightarrow> 'f list \<Rightarrow> ('e, 'f \<times> 'f list) outcome" where
  "compute_hashes F 0 ns node path hashes = Inl OutOfFuel"
| "compute_hashes F (Suc fuel) ns (Binary binary) path hashes =
     (let left_path = new_with_direction path Left; right_path = new_with_direction path Right in
      and_then (get_node_or_felt ns (b_left binary)) (\<lambda>node_left.
      and_then (get_node_or_felt ns (b_right binary)) (\<lambda>node_right.
      and_then
        (case (node_left, node_right) of
           (OfNode left, OfNode right) \<Rightarrow>
             and_then (compute_hashes F fuel ns left left_path hashes) (\<lambda>(left_hash, hashes).
             and_then (compute_hashes F fuel ns right right_path []) (\<lambda>(right_hash, hashes2).
             Inr (left_hash, right_hash, hashes @ hashes2)))
         | _ \<Rightarrow>
             and_then (case node_left of
                         OfFelt felt \<Rightarrow> Inr (felt, hashes)
                       | OfNode node \<Rightarrow> compute_hashes F fuel ns node left_path hashes)
               (\<lambda>(left_hash, hashes).
             and_then (case node_right of
                         OfFelt felt \<Rightarrow> Inr (felt, hashes)
                       | OfNode node \<Rightarrow> compute_hashes F fuel ns node right_path hashes)
               (\<lambda>(right_hash, hashes). Inr (left_hash, right_hash, hashes))))
        (\<lambda>(left_hash, right_hash, hashes).
           let hash = hash_binary_node F left_hash right_hash in Inr (hash, hashes @ [hash])))))"
| "compute_hashes F (Suc fuel) ns (Edge edge) path hashes =
     (let child_path = path @ e_path edge in
      and_then (get_node_or_felt ns (e_child edge)) (\<lambda>node_child.
      and_then (case node_child of
                  OfFelt felt \<Rightarrow> Inr (felt, hashes)
                | OfNode node \<Rightarrow> compute_hashes F fuel ns node child_path hashes)
        (\<lambda>(child_hash, hashes).
      and_then (hash_edge_node F (e_path edge) child_hash) (\<lambda>hash.
      Inr (hash, hashes @ [hash])))))"

definition compute_root_hash ::
  "'f ext_ops \<Rightarrow> nat \<Rightarrow> 'f merkle_tree \<Rightarrow> 'f list \<Rightarrow> ('e, 'f \<times> 'f list) outcome" where
  "compute_root_hash F fuel t hashes =
     (case root_node t of
        Some (Loaded node_id) \<Rightarrow>
          (case sm_get (nodes t) node_id of
             None \<Rightarrow> Inl (Err (TrieError ''Could not fetch root node from storage''))
           | Some node \<Rightarrow> compute_hashes F fuel (nodes t) node [] hashes)
      | Some Empty \<Rightarrow> Inr (ZERO F, hashes)
      | None \<Rightarrow> Inl (Err (TrieError ''Root node is not loaded'')))"

text \<open>
  \<open>commit_subtree\<close> takes the nodes out of the slot map and puts their encodings into the update
  map; the hashes come from the list computed before, in the same order.
\<close>

type_synonym updates = "(trie_key, bytes insert_or_remove) hash_map"

type_synonym ('f, 'e, 'a) commit_action = "('f merkle_tree \<times> updates \<times> 'f list, 'e, 'a) action"

definition next_hash :: "('f, 'e, 'f) commit_action" where
  "next_hash s = (case s of (t, ups, hashes) \<Rightarrow>
     (case hashes of
        [] \<Rightarrow> (Inl (Panic ''mismatched hash state''), s)
      | h # hs \<Rightarrow> (Inr h, t, ups, hs)))"

definition take_node :: "nat \<Rightarrow> ('f, 'e, 'f node) commit_action" where
  "take_node node_id s = (case s of (t, ups, hashes) \<Rightarrow>
     (case sm_get (nodes t) node_id of
        None \<Rightarrow> (Inl (Err (TrieError ''Couldn't fetch node in the temporary storage'')), s)
      | Some n \<Rightarrow> (Inr n, nodes_remove node_id t, ups, hashes)))"

definition put_update :: "trie_key \<Rightarrow> bytes insert_or_remove \<Rightarrow> ('f, 'e, unit) commit_action" where
  "put_update k v s = (case s of (t, ups, hashes) \<Rightarrow> (Inr (), t, hm_insert k v ups, hashes))"

definition get_ident :: "('f, 'e, bytes) commit_action" where
  "get_ident s = (Inr (tree_ident (fst s)), s)"

fun commit_subtree ::
  "'f ext_ops \<Rightarrow> nat \<Rightarrow> nat \<Rightarrow> bits \<Rightarrow> ('f, 'e, 'f) commit_action"
and commit_handle ::
  "'f ext_ops \<Rightarrow> nat \<Rightarrow> 'f node_handle \<Rightarrow> bits \<Rightarrow> ('f, 'e, 'f) commit_action" where
  "commit_subtree F 0 node_id path = failS OutOfFuel"
| "commit_subtree F (Suc fuel) node_id path =
     bindS (take_node node_id) (\<lambda>node.
       case node of
         Binary binary \<Rightarrow>
           bindS (commit_handle F fuel (b_left binary) (new_with_direction path Left)) (\<lambda>left_hash.
           bindS (commit_handle F fuel (b_right binary) (new_with_direction path Right)) (\<lambda>right_hash.
           bindS next_hash (\<lambda>hash.
           bindS get_ident (\<lambda>ident.
           bindS (put_update (trie_key_new ident TrieType (path_encode path))
                    (Insert (node_encode F (Binary (binary\<lparr>b_hash := Some hash,
                       b_left := Hash left_hash, b_right := Hash right_hash\<rparr>))))) (\<lambda>_.
           retS hash)))))
       | Edge edge \<Rightarrow>
           bindS (commit_handle F fuel (e_child edge) (path @ e_path edge)) (\<lambda>child_hash.
           bindS next_hash (\<lambda>hash.
           bindS get_ident (\<lambda>ident.
           bindS (put_update (trie_key_new ident TrieType (path_encode path))
                    (Insert (node_encode F (Edge (edge\<lparr>e_hash := Some hash,
                       e_child := Hash child_hash\<rparr>))))) (\<lambda>_.
           retS hash)))))"
| "commit_handle F fuel (Hash h) path = retS h"
| "commit_handle F fuel (InMemory node_id) path = commit_subtree F fuel node_id path"

definition encode_leaf_update ::
  "'f ext_ops \<Rightarrow> 'f insert_or_remove \<Rightarrow> bytes insert_or_remove" where
  "encode_leaf_update F value =
     (case value of Insert v \<Rightarrow> Insert (felt_encode F v) | Remove \<Rightarrow> Remove)"

text \<open>The updates in the iteration order of the map that collects them.\<close>

definition get_updates :: "'f ext_ops \<Rightarrow> nat \<Rightarrow> ('f, 'e, updates) tree_action" where
  "get_updates F fuel t =
     (let ups = fold (\<lambda>node_key. hm_insert node_key Remove) (death_row t) [];
          t = t\<lparr>death_row := []\<rparr> in
      bindS
        (\<lambda>t. case root_node t of
            Some (Loaded node_id) \<Rightarrow>
              (case compute_root_hash F fuel t [] of
                 Inl e \<Rightarrow> (Inl e, t)
               | Inr (_, hashes) \<Rightarrow>
                   (case commit_subtree F fuel node_id [] (t, ups, hashes) of
                      (Inl e, t, _, _) \<Rightarrow> (Inl e, t)
                    | (Inr _, t, ups, _) \<Rightarrow> (Inr ups, t)))
          | _ \<Rightarrow> (Inr ups, t))
        (\<lambda>ups t.
           (Inr (fold (\<lambda>(key, value). hm_insert (trie_key_new (tree_ident t) FlatType key)
                                        (encode_leaf_update F value))
                   (cache_leaf_modified t) ups),
            t\<lparr>root_node := None, cache_leaf_modified := []\<rparr>)) t)"

end
