(* ===== verification/Patricia.thy ===== *)
theory Patricia
  imports Merkle_Node
begin

text \<open>
  The abstract specification of a tree: a binary Patricia trie over keys of one fixed length,
  with its lookup, insertion, deletion and Merkle hash as plain recursive functions. It is the
  contract that \<^verbatim>\<open>src/src/trie/tree.rs\<close> implements over a slot map and a database. The
  main facts: insertion and deletion act on lookups as on a finite map, both keep the trie
  canonical, and a canonical trie is determined by the map it stands for.
\<close>

section \<open>Definitions\<close>

datatype 'f ptree = PLeaf 'f | PBin "'f ptree" "'f ptree" | PEdge bits "'f ptree"

fun plookup :: "'f ptree \<Rightarrow> bits \<Rightarrow> 'f option" where
  "plookup (PLeaf v) k = (if k = [] then Some v else None)"
| "plookup (PBin l r) k = (case k of [] \<Rightarrow> None | b # k' \<Rightarrow> plookup (if b then r else l) k')"
| "plookup (PEdge q c) k =
     (if prefix q k then plookup c (drop (length q) k) else None)"

fun is_edge :: "'f ptree \<Rightarrow> bool" where
  "is_edge (PEdge _ _) = True"
| "is_edge _ = False"

text \<open>Canonical tries of height \<open>n\<close>: edges are non-empty and maximal.\<close>

fun pwf :: "nat \<Rightarrow> 'f ptree \<Rightarrow> bool" where
  "pwf n (PLeaf v) \<longleftrightarrow> n = 0"
| "pwf n (PBin l r) \<longleftrightarrow> 0 < n \<and> pwf (n - 1) l \<and> pwf (n - 1) r"
| "pwf n (PEdge q c) \<longleftrightarrow> q \<noteq> [] \<and> length q \<le> n \<and> \<not> is_edge c \<and> pwf (n - length q) c"

text \<open>An edge that is left out when its path is empty, and one that absorbs an edge below it.\<close>

definition pedge :: "bits \<Rightarrow> 'f ptree \<Rightarrow> 'f ptree" where
  "pedge q t = (if q = [] then t else PEdge q t)"

fun pmerge :: "bits \<Rightarrow> 'f ptree \<Rightarrow> 'f ptree" where
  "pmerge q (PEdge q' c) = PEdge (q @ q') c"
| "pmerge q t = PEdge q t"

text \<open>The subtrie that replaces an edge \<open>q\<close> to \<open>c\<close> when a key leaves it after \<open>n\<close> bits.\<close>

definition psplit :: "nat \<Rightarrow> bits \<Rightarrow> 'f \<Rightarrow> bits \<Rightarrow> 'f ptree \<Rightarrow> 'f ptree" where
  "psplit n k v q c =
     (let new = pedge (drop (Suc n) k) (PLeaf v); old = pedge (drop (Suc n) q) c
      in pedge (take n q) (if k ! n then PBin old new else PBin new old))"

fun pinsert :: "bits \<Rightarrow> 'f \<Rightarrow> 'f ptree \<Rightarrow> 'f ptree" where
  "pinsert k v (PLeaf _) = PLeaf v"
| "pinsert k v (PBin l r) =
     (if hd k then PBin l (pinsert (tl k) v r) else PBin (pinsert (tl k) v l) r)"
| "pinsert k v (PEdge q c) =
     (if prefix q k then PEdge q (pinsert (drop (length q) k) v c)
      else psplit (common_len k q) k v q c)"

fun pdelete :: "bits \<Rightarrow> 'f ptree \<Rightarrow> 'f ptree option" where
  "pdelete k (PLeaf _) = None"
| "pdelete k (PBin l r) =
     (if hd k
      then (case pdelete (tl k) r of None \<Rightarrow> Some (pmerge [False] l) | Some r' \<Rightarrow> Some (PBin l r'))
      else (case pdelete (tl k) l of None \<Rightarrow> Some (pmerge [True] r) | Some l' \<Rightarrow> Some (PBin l' r)))"
| "pdelete k (PEdge q c) = map_option (pmerge q) (pdelete (drop (length q) k) c)"

fun phash :: "'f ext_ops \<Rightarrow> 'f ptree \<Rightarrow> 'f" where
  "phash F (PLeaf v) = v"
| "phash F (PBin l r) = hash_binary_node F (phash F l) (phash F r)"
| "phash F (PEdge q c) = edge_hash F q (phash F c)"

text \<open>A whole tree may be empty.\<close>

type_synonym 'f trie = "'f ptree option"

definition trie_lookup :: "'f trie \<Rightarrow> bits \<Rightarrow> 'f option" where
  "trie_lookup t k = (case t of None \<Rightarrow> None | Some p \<Rightarrow> plookup p k)"

definition trie_insert :: "bits \<Rightarrow> 'f \<Rightarrow> 'f trie \<Rightarrow> 'f trie" where
  "trie_insert k v t = Some (case t of None \<Rightarrow> PEdge k (PLeaf v) | Some p \<Rightarrow> pinsert k v p)"

definition trie_delete :: "bits \<Rightarrow> 'f trie \<Rightarrow> 'f trie" where
  "trie_delete k t = (case t of None \<Rightarrow> None | Some p \<Rightarrow> pdelete k p)"

definition trie_wf :: "nat \<Rightarrow> 'f trie \<Rightarrow> bool" where
  "trie_wf n t \<longleftrightarrow> 0 < n \<and> (case t of None \<Rightarrow> True | Some p \<Rightarrow> pwf n p)"

definition trie_hash :: "'f ext_ops \<Rightarrow> 'f trie \<Rightarrow> 'f" where
  "trie_hash F t = (case t of None \<Rightarrow> ZERO F | Some p \<Rightarrow> phash F p)"

section \<open>Lookups\<close>

lemma plookup_PEdge_append [simp]: "plookup (PEdge q c) (q @ k) = plookup c k"
  by simp

lemma prefix_append_drop:
  "prefix (q @ q') k \<longleftrightarrow> prefix q k \<and> prefix q' (drop (length q) k)"
  by (auto simp: prefix_def)

lemma plookup_pedge [simp]:
  "plookup (pedge q t) k = (if prefix q k then plookup t (drop (length q) k) else None)"
  by (simp add: pedge_def)

lemma plookup_pmerge [simp]:
  "plookup (pmerge q t) k = (if prefix q k then plookup t (drop (length q) k) else None)"
  by (cases t) (simp_all add: prefix_append_drop add.commute)

lemma plookup_length: "pwf n t \<Longrightarrow> plookup t k = Some v \<Longrightarrow> length k = n"
proof (induction t arbitrary: n k)
  case (PEdge q c)
  then obtain k1 where k: "k = q @ k1" by (auto elim!: prefixE split: if_splits)
  then show ?case using PEdge by fastforce
qed (fastforce split: if_splits list.splits)+

lemma plookup_psplit:
  assumes "length (c1 @ b # k1) = length k'"
  shows "plookup (psplit (length c1) (c1 @ b # k1) v (c1 @ (\<not> b) # q1) c) k' =
    (if k' = c1 @ b # k1 then Some v else plookup (PEdge (c1 @ (\<not> b) # q1) c) k')"
proof (cases "prefix c1 k'")
  case True
  then obtain b' y where k': "k' = c1 @ b' # y"
    using assms by (auto elim!: prefixE) (metis add_Suc_right length_Suc_conv)
  then have "prefix k1 y \<longleftrightarrow> y = k1"
    using assms prefix_same_length [of k1 y] by auto
  then show ?thesis using k' by (auto simp: psplit_def Let_def)
next
  case False
  then have "\<not> prefix (c1 @ (\<not> b) # q1) k'" "k' \<noteq> c1 @ b # k1"
    by (auto simp: append_prefixD)
  then show ?thesis using False by (auto simp: psplit_def Let_def)
qed

lemma plookup_pinsert:
  "pwf n t \<Longrightarrow> length k = n \<Longrightarrow> length k' = n \<Longrightarrow>
     plookup (pinsert k v t) k' = (if k' = k then Some v else plookup t k')"
proof (induction t arbitrary: n k k')
  case (PLeaf x)
  then show ?case by simp
next
  case (PBin l r)
  then obtain b k1 b' k1' where k: "k = b # k1" "k' = b' # k1'" by (cases k; cases k') auto
  show ?case
    using PBin.IH(1) [of "n - 1" k1 k1'] PBin.IH(2) [of "n - 1" k1 k1'] PBin.prems
    unfolding k by auto
next
  case (PEdge q c)
  show ?case
  proof (cases "prefix q k")
    case True
    then obtain k1 where k: "k = q @ k1" by (auto elim: prefixE)
    show ?thesis
    proof (cases "prefix q k'")
      case True
      then obtain k1' where k': "k' = q @ k1'" by (auto elim: prefixE)
      show ?thesis
        using PEdge.IH [of "n - length q" k1 k1'] PEdge.prems unfolding k k' by auto
    next
      case False
      then show ?thesis using k by auto
    qed
  next
    case False
    have "length q \<le> length k" using PEdge.prems by simp
    with False obtain c1 b k1 q1 where k: "k = c1 @ b # k1" and q: "q = c1 @ (\<not> b) # q1"
      and n: "length c1 = common_len k q"
      by (rule not_prefix_split)
    have "pinsert k v (PEdge q c) = psplit (length c1) k v q c"
      using False n by simp
    then show ?thesis
      using plookup_psplit [of c1 b k1 k' v q1 c] PEdge.prems k q by simp
  qed
qed

lemma plookup_pdelete:
  "pwf n t \<Longrightarrow> length k = n \<Longrightarrow> length k' = n \<Longrightarrow> plookup t k \<noteq> None \<Longrightarrow>
     (case pdelete k t of None \<Rightarrow> None | Some t' \<Rightarrow> plookup t' k') =
     (if k' = k then None else plookup t k')"
proof (induction t arbitrary: n k k')
  case (PLeaf x)
  then show ?case by simp
next
  case (PBin l r)
  then obtain b k1 b' k1' where k: "k = b # k1" "k' = b' # k1'" by (cases k; cases k') auto
  show ?case
    using PBin.IH(1) [of "n - 1" k1 k1'] PBin.IH(2) [of "n - 1" k1 k1'] PBin.prems
    unfolding k by (cases b; cases b') (auto split: option.splits)
next
  case (PEdge q c)
  then obtain k1 where k: "k = q @ k1" by (auto elim!: prefixE split: if_splits)
  show ?case
  proof (cases "prefix q k'")
    case True
    then obtain k1' where k': "k' = q @ k1'" by (auto elim: prefixE)
    show ?thesis
      using PEdge.IH [of "n - length q" k1 k1'] PEdge.prems unfolding k k'
      by (auto split: option.splits)
  next
    case False
    then show ?thesis using k by (auto split: option.splits)
  qed
qed

section \<open>Canonical form\<close>

lemma pwf_pedge:
  "pwf (n - length q) t \<Longrightarrow> length q \<le> n \<Longrightarrow> \<not> is_edge t \<Longrightarrow> pwf n (pedge q t)"
  by (auto simp: pedge_def)

lemma is_edge_pinsert: "is_edge (pinsert k v t) \<Longrightarrow> is_edge t"
  by (cases t) (auto split: if_splits)

lemma pwf_pinsert: "pwf n t \<Longrightarrow> length k = n \<Longrightarrow> pwf n (pinsert k v t)"
proof (induction t arbitrary: n k)
  case (PEdge q c)
  show ?case
  proof (cases "prefix q k")
    case True
    then show ?thesis using PEdge by (auto dest: is_edge_pinsert)
  next
    case False
    have "length q \<le> length k" using PEdge.prems by simp
    with False obtain c1 b k1 q1 where k: "k = c1 @ b # k1" and q: "q = c1 @ (\<not> b) # q1"
      and n: "length c1 = common_len k q"
      by (rule not_prefix_split)
    have "pinsert k v (PEdge q c) = psplit (length c1) k v q c"
      using False n by simp
    moreover have new: "pwf (length k1) (pedge k1 (PLeaf v))" by (simp add: pwf_pedge)
    moreover have old: "pwf (length k1) (pedge q1 c)"
      using PEdge.prems k q by (intro pwf_pedge) auto
    ultimately show ?thesis
      using PEdge.prems(2) unfolding k q by (auto simp: psplit_def Let_def intro!: pwf_pedge)
  qed
qed auto

lemma pwf_pmerge:
  "pwf m t \<Longrightarrow> q \<noteq> [] \<Longrightarrow> length q + m = n \<Longrightarrow> pwf n (pmerge q t)"
  by (cases t) auto

lemma pwf_pdelete: "pwf n t \<Longrightarrow> pdelete k t = Some t' \<Longrightarrow> pwf n t'"
proof (induction t arbitrary: n k t')
  case (PBin l r)
  have "pwf n (pmerge [False] l)" "pwf n (pmerge [True] r)"
    using PBin.prems(1) by (auto intro: pwf_pmerge [where m = "n - 1"])
  moreover have "pwf n (PBin l r')" if "pdelete (tl k) r = Some r'" for r'
    using PBin.prems(1) PBin.IH(2) [OF _ that, of "n - 1"] by simp
  moreover have "pwf n (PBin l' r)" if "pdelete (tl k) l = Some l'" for l'
    using PBin.prems(1) PBin.IH(1) [OF _ that, of "n - 1"] by simp
  ultimately show ?case
    using PBin.prems(2) by (auto split: if_splits option.splits)
next
  case (PEdge q c)
  then obtain c' where "pdelete (drop (length q) k) c = Some c'" "t' = pmerge q c'" by auto
  moreover from this(1) have "pwf (n - length q) c'" using PEdge.IH PEdge.prems(1) by auto
  ultimately show ?case
    using PEdge.prems(1) pwf_pmerge [of "n - length q" c' q n] by simp
qed simp

text \<open>Every canonical trie holds a key; a branch holds keys on both sides.\<close>

lemma pwf_has_key: "pwf n t \<Longrightarrow> \<exists>k v. length k = n \<and> plookup t k = Some v"
proof (induction t arbitrary: n)
  case (PBin l r)
  then obtain k v where "length k = n - 1" "plookup l k = Some v" by fastforce
  then show ?case using PBin.prems by (intro exI [of _ "False # k"]) auto
next
  case (PEdge q c)
  then obtain k v where "length k = n - length q" "plookup c k = Some v" by fastforce
  then have "length (q @ k) = n \<and> plookup (PEdge q c) (q @ k) = Some v" using PEdge.prems by simp
  then show ?case by blast
qed simp

lemma pbin_has_key:
  assumes "pwf n (PBin l r)"
  shows "\<exists>k v. length (b # k) = n \<and> plookup (PBin l r) (b # k) = Some v"
proof -
  have "pwf (n - 1) (if b then r else l)" using assms by simp
  from pwf_has_key [OF this]
  obtain k v where "length k = n - 1" "plookup (if b then r else l) k = Some v" by blast
  then show ?thesis using assms by (intro exI [of _ k] exI [of _ v]) auto
qed

lemma pedge_keys: "plookup (PEdge q c) k = Some v \<Longrightarrow> prefix q k"
  by (auto split: if_splits)

text \<open>The first bits of the keys tell the shape of the root.\<close>

lemma pbin_pedge_differ:
  assumes "pwf n (PBin l r)" "pwf n (PEdge q c)"
  shows "\<exists>k. length k = n \<and> plookup (PBin l r) k \<noteq> plookup (PEdge q c) k"
proof -
  obtain x q' where q: "q = x # q'" using assms(2) by (cases q) auto
  obtain k v where "length ((\<not> x) # k) = n" "plookup (PBin l r) ((\<not> x) # k) = Some v"
    using pbin_has_key [OF assms(1)] by blast
  then show ?thesis using q by (intro exI [of _ "(\<not> x) # k"]) auto
qed

lemma pedge_prefix:
  assumes "pwf n (PEdge q c)" "pwf n (PEdge q' c')"
    and same: "\<And>k. length k = n \<Longrightarrow> plookup (PEdge q c) k = plookup (PEdge q' c') k"
  shows "prefix q q'"
proof (rule ccontr)
  assume neg: "\<not> prefix q q'"
  obtain k v where k: "length k = n - length q'" "plookup c' k = Some v"
    using pwf_has_key [of "n - length q'" c'] assms(2) by auto
  then have "length (q' @ k) = n" "plookup (PEdge q' c') (q' @ k) = Some v" using assms(2) by auto
  then have "prefix q (q' @ k)" using same pedge_keys by metis
  with neg obtain x xs where q: "q = q' @ x # xs"
    by (metis prefixE prefix_append prefix_order.order_refl neq_Nil_conv append_Nil2)
  then have "length q' < n" using assms(1) by auto
  then obtain l r where c': "c' = PBin l r" using assms(2) by (cases c') auto
  have "pwf (n - length q') (PBin l r)" using assms(2) c' by simp
  from pbin_has_key [OF this] obtain k2 v2
    where "length ((\<not> x) # k2) = n - length q'" "plookup c' ((\<not> x) # k2) = Some v2"
    unfolding c' by blast
  then have "length (q' @ (\<not> x) # k2) = n" "plookup (PEdge q' c') (q' @ (\<not> x) # k2) = Some v2"
    using assms(2) by auto
  then have "prefix q (q' @ (\<not> x) # k2)" using same pedge_keys by metis
  then show False using q by (auto simp: prefix_def)
qed

text \<open>A canonical trie is determined by its lookups, so by the map it stands for.\<close>

lemma ptree_unique:
  "pwf n t \<Longrightarrow> pwf n t' \<Longrightarrow> (\<And>k. length k = n \<Longrightarrow> plookup t k = plookup t' k) \<Longrightarrow> t = t'"
proof (induction t arbitrary: n t')
  case (PLeaf v)
  then show ?case by (cases t') auto
next
  case (PBin l r)
  have "\<not> is_edge t'"
    using pbin_pedge_differ [of n l r] PBin.prems by (metis is_edge.elims(2))
  then obtain l' r' where t': "t' = PBin l' r'" using PBin.prems by (cases t') auto
  have "plookup l k = plookup l' k" "plookup r k = plookup r' k" if "length k = n - 1" for k
    using that PBin.prems(1) PBin.prems(3) [of "False # k"] PBin.prems(3) [of "True # k"] t' by auto
  then show ?case
    using PBin.IH(1) [of "n - 1" l'] PBin.IH(2) [of "n - 1" r'] PBin.prems t' by auto
next
  case (PEdge q c)
  have "t' \<noteq> PBin l r" for l r
    using pbin_pedge_differ [of n l r q c] PEdge.prems by metis
  then obtain q' c' where t': "t' = PEdge q' c'" using PEdge.prems by (cases t') auto
  have "prefix q q'" using pedge_prefix [of n q c q' c'] PEdge.prems t' by blast
  moreover have "prefix q' q"
    using pedge_prefix [of n q' c' q c] PEdge.prems t' by metis
  ultimately have q: "q' = q" by (simp add: prefix_order.antisym)
  have "plookup c k = plookup c' k" if "length k = n - length q" for k
    using that PEdge.prems(1) PEdge.prems(3) [of "q @ k"] t' q by auto
  then show ?case using PEdge.IH [of "n - length q" c'] PEdge.prems t' q by auto
qed

section \<open>Whole tries\<close>

lemma trie_lookup_insert:
  "trie_wf n t \<Longrightarrow> length k = n \<Longrightarrow> length k' = n \<Longrightarrow>
     trie_lookup (trie_insert k v t) k' = (if k' = k then Some v else trie_lookup t k')"
  by (auto simp: trie_lookup_def trie_insert_def trie_wf_def plookup_pinsert prefix_same_length
      split: option.splits)

lemma trie_lookup_delete:
  "trie_wf n t \<Longrightarrow> length k = n \<Longrightarrow> length k' = n \<Longrightarrow> trie_lookup t k \<noteq> None \<Longrightarrow>
     trie_lookup (trie_delete k t) k' = (if k' = k then None else trie_lookup t k')"
  using plookup_pdelete [of n "the t" k k']
  by (cases t) (simp_all add: trie_lookup_def trie_delete_def trie_wf_def)

lemma trie_wf_insert: "trie_wf n t \<Longrightarrow> length k = n \<Longrightarrow> trie_wf n (trie_insert k v t)"
  by (auto simp: trie_wf_def trie_insert_def pwf_pinsert split: option.splits)

lemma trie_wf_delete: "trie_wf n t \<Longrightarrow> trie_wf n (trie_delete k t)"
  by (auto simp: trie_wf_def trie_delete_def split: option.splits dest: pwf_pdelete)

lemma trie_unique:
  assumes "trie_wf n t" "trie_wf n t'"
    and "\<And>k. length k = n \<Longrightarrow> trie_lookup t k = trie_lookup t' k"
  shows "t = t'"
proof (cases "t = None \<or> t' = None")
  case True
  then show ?thesis
    using assms pwf_has_key [of n] by (cases t; cases t') (fastforce simp: trie_lookup_def trie_wf_def)+
next
  case False
  then show ?thesis using assms ptree_unique [of n "the t" "the t'"]
    by (auto simp: trie_lookup_def trie_wf_def)
qed

end
