(* ===== verification/Tree_Rep.thy ===== *)
theory Tree_Rep
  imports Merkle_Tree Patricia "HOL-Library.Multiset"
begin

text \<open>
  How the state of a tree represents an abstract trie. Part of the trie is in the slot map,
  the rest is in the database; a ghost tree records, for every node, the slot key it has in
  memory, if any. The representation relation only reads the slots and the stored nodes that
  the ghost tree names, which gives the frame lemmas that the proofs of \<open>set\<close>, \<open>delete_leaf\<close>
  and the commit rest on. A path from the root is a list of frames, as in a zipper.
\<close>

section \<open>Definitions\<close>

datatype 'f gtree =
    GLeaf 'f
  | GBin "nat option" "'f gtree" "'f gtree"
  | GEdge "nat option" bits "'f gtree"

fun erase :: "'f gtree \<Rightarrow> 'f ptree" where
  "erase (GLeaf v) = PLeaf v"
| "erase (GBin i l r) = PBin (erase l) (erase r)"
| "erase (GEdge i q c) = PEdge q (erase c)"

fun gid :: "'f gtree \<Rightarrow> nat option" where
  "gid (GLeaf v) = None"
| "gid (GBin i l r) = i"
| "gid (GEdge i q c) = i"

fun set_gid :: "nat \<Rightarrow> 'f gtree \<Rightarrow> 'f gtree" where
  "set_gid k (GLeaf v) = GLeaf v"
| "set_gid k (GBin i l r) = GBin (Some k) l r"
| "set_gid k (GEdge i q c) = GEdge (Some k) q c"

definition id_list :: "nat option \<Rightarrow> nat list" where
  "id_list i = (case i of None \<Rightarrow> [] | Some k \<Rightarrow> [k])"

text \<open>The slot keys below the root of a ghost tree, and all of them.\<close>

fun ids :: "'f gtree \<Rightarrow> nat list" where
  "ids (GLeaf v) = []"
| "ids (GBin i l r) = id_list i @ ids l @ ids r"
| "ids (GEdge i q c) = id_list i @ ids c"

fun sub_ids :: "'f gtree \<Rightarrow> nat list" where
  "sub_ids (GLeaf v) = []"
| "sub_ids (GBin i l r) = ids l @ ids r"
| "sub_ids (GEdge i q c) = ids c"

text \<open>The positions of all nodes, and of those that are read from the database.\<close>

fun gpos :: "bits \<Rightarrow> 'f gtree \<Rightarrow> bits set" where
  "gpos p (GLeaf v) = {}"
| "gpos p (GBin i l r) = insert p (gpos (p @ [False]) l \<union> gpos (p @ [True]) r)"
| "gpos p (GEdge i q c) = insert p (gpos (p @ q) c)"

definition own_pos :: "bits \<Rightarrow> nat option \<Rightarrow> bits set" where
  "own_pos p i = (if i = None then {p} else {})"

fun dbpos :: "bits \<Rightarrow> 'f gtree \<Rightarrow> bits set" where
  "dbpos p (GLeaf v) = {}"
| "dbpos p (GBin i l r) = own_pos p i \<union> dbpos (p @ [False]) l \<union> dbpos (p @ [True]) r"
| "dbpos p (GEdge i q c) = own_pos p i \<union> dbpos (p @ q) c"

fun sub_dbpos :: "bits \<Rightarrow> 'f gtree \<Rightarrow> bits set" where
  "sub_dbpos p (GLeaf v) = {}"
| "sub_dbpos p (GBin i l r) = dbpos (p @ [False]) l \<union> dbpos (p @ [True]) r"
| "sub_dbpos p (GEdge i q c) = dbpos (p @ q) c"

text \<open>
  A handle points at a node: in the slot map, or in the database, where the handle and the
  node carry the hash of the subtrie.
\<close>

definition at_handle ::
  "(nat \<rightharpoonup> 'f node) \<Rightarrow> (bits \<rightharpoonup> 'f node) \<Rightarrow> bits \<Rightarrow> 'f node_handle \<Rightarrow> nat option \<Rightarrow> 'f \<Rightarrow> 'f node \<Rightarrow> bool" where
  "at_handle ns st p h i hash n \<longleftrightarrow>
     (case i of
        Some k \<Rightarrow> h = InMemory k \<and> ns k = Some n
      | None \<Rightarrow> h = Hash hash \<and> st p = Some n \<and> get_hash n = Some hash)"

fun rep ::
  "'f ext_ops \<Rightarrow> (nat \<rightharpoonup> 'f node) \<Rightarrow> (bits \<rightharpoonup> 'f node) \<Rightarrow> bits \<Rightarrow> 'f node_handle \<Rightarrow> 'f gtree \<Rightarrow> bool" where
  "rep F ns st p h (GLeaf v) \<longleftrightarrow> h = Hash v"
| "rep F ns st p h (GBin i l r) \<longleftrightarrow>
     (\<exists>b. at_handle ns st p h i (phash F (erase (GBin i l r))) (Binary b) \<and> b_height b = length p \<and>
          rep F ns st (p @ [False]) (b_left b) l \<and> rep F ns st (p @ [True]) (b_right b) r)"
| "rep F ns st p h (GEdge i q c) \<longleftrightarrow>
     (\<exists>e. at_handle ns st p h i (phash F (erase (GEdge i q c))) (Edge e) \<and> e_height e = length p \<and>
          e_path e = q \<and> rep F ns st (p @ q) (e_child e) c)"

text \<open>The same for a node that is already at hand, wherever it came from.\<close>

fun repn ::
  "'f ext_ops \<Rightarrow> (nat \<rightharpoonup> 'f node) \<Rightarrow> (bits \<rightharpoonup> 'f node) \<Rightarrow> bits \<Rightarrow> 'f node \<Rightarrow> 'f gtree \<Rightarrow> bool" where
  "repn F ns st p n (GLeaf v) \<longleftrightarrow> False"
| "repn F ns st p n (GBin i l r) \<longleftrightarrow>
     (\<exists>b. n = Binary b \<and> b_height b = length p \<and>
          rep F ns st (p @ [False]) (b_left b) l \<and> rep F ns st (p @ [True]) (b_right b) r)"
| "repn F ns st p n (GEdge i q c) \<longleftrightarrow>
     (\<exists>e. n = Edge e \<and> e_height e = length p \<and> e_path e = q \<and> rep F ns st (p @ q) (e_child e) c)"

subsection \<open>Frames\<close>

text \<open>One step of a walk through nodes in memory: which child was taken, and its sibling.\<close>

datatype 'f frame = FBin nat bool "'f gtree" | FEdge nat bits

fun fid :: "'f frame \<Rightarrow> nat" where
  "fid (FBin i b s) = i"
| "fid (FEdge i q) = i"

fun fbits :: "'f frame \<Rightarrow> bits" where
  "fbits (FBin i b s) = [b]"
| "fbits (FEdge i q) = q"

fun fill :: "'f frame list \<Rightarrow> 'f gtree \<Rightarrow> 'f gtree" where
  "fill [] g = g"
| "fill (FBin i b s # fs) g =
     (if b then GBin (Some i) s (fill fs g) else GBin (Some i) (fill fs g) s)"
| "fill (FEdge i q # fs) g = GEdge (Some i) q (fill fs g)"

definition cbits :: "'f frame list \<Rightarrow> bits" where
  "cbits fs = concat (map fbits fs)"

fun fsib_ids :: "'f frame \<Rightarrow> nat list" where
  "fsib_ids (FBin i b s) = ids s"
| "fsib_ids (FEdge i q) = []"

fun frep ::
  "'f ext_ops \<Rightarrow> (nat \<rightharpoonup> 'f node) \<Rightarrow> (bits \<rightharpoonup> 'f node) \<Rightarrow> bits \<Rightarrow> 'f node_handle \<Rightarrow> 'f frame \<Rightarrow> 'f node_handle \<Rightarrow> bool" where
  "frep F ns st p h (FBin i b s) hc \<longleftrightarrow>
     h = InMemory i \<and> (\<exists>bn. ns i = Some (Binary bn) \<and> b_height bn = length p \<and>
       hc = (if b then b_right bn else b_left bn) \<and>
       rep F ns st (p @ [\<not> b]) (if b then b_left bn else b_right bn) s)"
| "frep F ns st p h (FEdge i q) hc \<longleftrightarrow>
     h = InMemory i \<and> (\<exists>e. ns i = Some (Edge e) \<and> e_height e = length p \<and> e_path e = q \<and>
       hc = e_child e)"

fun crep ::
  "'f ext_ops \<Rightarrow> (nat \<rightharpoonup> 'f node) \<Rightarrow> (bits \<rightharpoonup> 'f node) \<Rightarrow> bits \<Rightarrow> 'f node_handle \<Rightarrow> 'f frame list \<Rightarrow> 'f node_handle \<Rightarrow> bool" where
  "crep F ns st p h [] hc \<longleftrightarrow> h = hc"
| "crep F ns st p h (f # fs) hc \<longleftrightarrow>
     (\<exists>h'. frep F ns st p h f h' \<and> crep F ns st (p @ fbits f) h' fs hc)"

subsection \<open>The state of a tree\<close>

definition height_of :: "'f merkle_tree \<Rightarrow> nat" where
  "height_of t = unat (max_height t)"

abbreviation slots :: "'f merkle_tree \<Rightarrow> nat \<rightharpoonup> 'f node" where
  "slots t \<equiv> sm_slots (nodes t)"

definition stored :: "'f ext_ops \<Rightarrow> 'e db_view \<Rightarrow> 'f merkle_tree \<Rightarrow> bits \<Rightarrow> 'f node option" where
  "stored F db t p =
     (let key = branch_key (tree_ident t) p in
      if key \<in> set (death_row t) then None
      else case db key of Inr (Some bs) \<Rightarrow> node_decode F bs | _ \<Rightarrow> None)"

definition absent :: "'e db_view \<Rightarrow> 'f merkle_tree \<Rightarrow> bits \<Rightarrow> bool" where
  "absent db t p \<longleftrightarrow>
     (let key = branch_key (tree_ident t) p in key \<in> set (death_row t) \<or> db key = Inr None)"

definition db_total :: "'e db_view \<Rightarrow> bool" where
  "db_total db \<longleftrightarrow> (\<forall>k. \<exists>r. db k = Inr r)"

text \<open>
  \<open>set\<close> puts the position of a split edge on the death row without the identifier of the tree, and
  with the offset of the key. That is harmless for the tree itself when the bytes are not the
  database key of another node of it.
\<close>

definition key_clear :: "nat \<Rightarrow> 'f merkle_tree \<Rightarrow> bits \<Rightarrow> bool" where
  "key_clear off t key \<longleftrightarrow>
     (\<forall>n < length key. \<forall>q. length q \<le> 255 \<longrightarrow> bitslice_to_bytes off (take n key) = tree_ident t @ path_encode q \<longrightarrow> q = take n key)"

definition root_matches :: "'f merkle_tree \<Rightarrow> 'f node_handle \<Rightarrow> bool" where
  "root_matches t h \<longleftrightarrow>
     (case root_node t of
        None \<Rightarrow> (\<exists>f. h = Hash f)
      | Some Empty \<Rightarrow> False
      | Some (Loaded i) \<Rightarrow> h = InMemory i)"

definition gtree_inv :: "'f ext_ops \<Rightarrow> 'e db_view \<Rightarrow> 'f merkle_tree \<Rightarrow> 'f node_handle \<Rightarrow> 'f gtree \<Rightarrow> bool" where
  "gtree_inv F db t h g \<longleftrightarrow>
     distinct (ids g) \<and> dom (slots t) = set (ids g) \<and>
     rep F (slots t) (stored F db t) [] h g \<and> pwf (height_of t) (erase g) \<and>
     (\<forall>p. length p \<le> 255 \<longrightarrow> p \<notin> gpos [] g \<longrightarrow> absent db t p)"

definition empty_inv :: "'e db_view \<Rightarrow> 'f merkle_tree \<Rightarrow> bool" where
  "empty_inv db t \<longleftrightarrow>
     slots t = Map.empty \<and> (root_node t = None \<or> root_node t = Some Empty) \<and>
     (\<forall>p. length p \<le> 255 \<longrightarrow> absent db t p)"

text \<open>The invariant: the tree and the database together hold exactly the trie.\<close>

definition tree_inv :: "'f ext_ops \<Rightarrow> 'e db_view \<Rightarrow> 'f merkle_tree \<Rightarrow> 'f trie \<Rightarrow> bool" where
  "tree_inv F db t pt \<longleftrightarrow>
     sm_wf (nodes t) \<and> db_total db \<and> 0 < height_of t \<and> set (death_row t) \<subseteq> range Trie \<and>
     (case pt of
        None \<Rightarrow> empty_inv db t
      | Some p \<Rightarrow> (\<exists>h g. erase g = p \<and> root_matches t h \<and> gtree_inv F db t h g))"

text \<open>
  The invariant of the leaves: every stored leaf value can be decoded, and reading a key gives
  what the trie holds.
\<close>

definition read_flat :: "nat \<Rightarrow> 'f ext_ops \<Rightarrow> 'e db_view \<Rightarrow> 'f merkle_tree \<Rightarrow> bits \<Rightarrow> ('e, 'f option) outcome" where
  "read_flat off F db t k = and_then (db (leaf_key off (tree_ident t) k)) (decode_flat F)"

definition leaf_inv :: "nat \<Rightarrow> 'f ext_ops \<Rightarrow> 'e db_view \<Rightarrow> 'f merkle_tree \<Rightarrow> 'f trie \<Rightarrow> bool" where
  "leaf_inv off F db t pt \<longleftrightarrow> hm_wf (cache_leaf_modified t) \<and>
     (\<forall>k. length k = height_of t \<longrightarrow>
        (\<exists>r. read_flat off F db t k = Inr r) \<and> tree_get off F db t k = Inr (trie_lookup pt k))"

section \<open>Ghost trees\<close>

lemma id_list_simps [simp]: "id_list None = []" "id_list (Some k) = [k]"
  by (simp_all add: id_list_def)

lemma own_pos_simps [simp]: "own_pos p None = {p}" "own_pos p (Some k) = {}"
  by (simp_all add: own_pos_def)

lemma erase_set_gid [simp]: "erase (set_gid k g) = erase g"
  by (cases g) auto

lemma ids_split: "g \<noteq> GLeaf v \<Longrightarrow> ids g = id_list (gid g) @ sub_ids g"
  by (cases g) auto

lemma ids_gid: "ids g = (case g of GLeaf _ \<Rightarrow> [] | _ \<Rightarrow> id_list (gid g) @ sub_ids g)"
  by (cases g) auto

lemma sub_ids_set_gid [simp]: "sub_ids (set_gid k g) = sub_ids g"
  by (cases g) auto

lemma gpos_set_gid [simp]: "gpos p (set_gid k g) = gpos p g"
  by (cases g) auto

lemma gpos_prefix: "q \<in> gpos p g \<Longrightarrow> prefix p q"
  by (induction g arbitrary: p) (auto dest: append_prefixD)

lemma dbpos_sub_gpos: "dbpos p g \<subseteq> gpos p g"
proof (induction g arbitrary: p)
  case (GBin i l r)
  then show ?case by (cases i) fastforce+
next
  case (GEdge i q c)
  then show ?case by (cases i) fastforce+
qed simp

lemma gpos_length:
  "pwf n (erase g) \<Longrightarrow> q \<in> gpos p g \<Longrightarrow> length q < length p + n"
proof (induction g arbitrary: p n)
  case (GBin i l r)
  then consider "q = p" | "q \<in> gpos (p @ [False]) l" | "q \<in> gpos (p @ [True]) r" by auto
  then show ?case
    using GBin.prems(1) GBin.IH(1) [of "n - 1" "p @ [False]"] GBin.IH(2) [of "n - 1" "p @ [True]"]
    by cases auto
next
  case (GEdge i x c)
  then consider "q = p" | "q \<in> gpos (p @ x) c" by auto
  moreover have "0 < n" using GEdge.prems(1) by (cases x) auto
  ultimately show ?case using GEdge.prems(1) GEdge.IH [of "n - length x" "p @ x"] by cases auto
qed simp

section \<open>The representation relation\<close>

lemma rep_repn:
  "(\<And>v. g \<noteq> GLeaf v) \<Longrightarrow>
   rep F ns st p h g \<longleftrightarrow> (\<exists>n. at_handle ns st p h (gid g) (phash F (erase g)) n \<and> repn F ns st p n g)"
  by (cases g) auto

lemma repn_set_gid [simp]: "repn F ns st p n (set_gid k g) = repn F ns st p n g"
  by (cases g) auto

lemma repn_not_leaf: "repn F ns st p n g \<Longrightarrow> g \<noteq> GLeaf v"
  by auto

text \<open>Only the slots and the stored nodes that the ghost tree names are read.\<close>

lemma rep_cong:
  "(\<And>i. i \<in> set (ids g) \<Longrightarrow> ns i = ns' i) \<Longrightarrow> (\<And>q. q \<in> dbpos p g \<Longrightarrow> st q = st' q) \<Longrightarrow>
     rep F ns st p h g = rep F ns' st' p h g"
proof (induction g arbitrary: p h)
  case (GBin i l r)
  have "rep F ns st (p @ [False]) h' l = rep F ns' st' (p @ [False]) h' l" for h'
    using GBin.prems by (intro GBin.IH(1)) auto
  moreover have "rep F ns st (p @ [True]) h' r = rep F ns' st' (p @ [True]) h' r" for h'
    using GBin.prems by (intro GBin.IH(2)) auto
  moreover have "at_handle ns st p h i a n = at_handle ns' st' p h i a n" for a n
    using GBin.prems by (cases i) (auto simp: at_handle_def)
  ultimately show ?case by simp
next
  case (GEdge i q c)
  have "rep F ns st (p @ q) h' c = rep F ns' st' (p @ q) h' c" for h'
    using GEdge.prems by (intro GEdge.IH) auto
  moreover have "at_handle ns st p h i a n = at_handle ns' st' p h i a n" for a n
    using GEdge.prems by (cases i) (auto simp: at_handle_def)
  ultimately show ?case by simp
qed simp

lemma repn_cong:
  assumes "\<And>i. i \<in> set (sub_ids g) \<Longrightarrow> ns i = ns' i" "\<And>q. q \<in> sub_dbpos p g \<Longrightarrow> st q = st' q"
  shows "repn F ns st p n g = repn F ns' st' p n g"
  using assms rep_cong [of _ ns ns' _ st st' F] by (cases g) auto

lemma repn_upd [simp]: "k \<notin> set (sub_ids g) \<Longrightarrow> repn F (ns(k := x)) st p n g = repn F ns st p n g"
  by (rule repn_cong) auto

lemma rep_upd [simp]: "k \<notin> set (ids g) \<Longrightarrow> rep F (ns(k := x)) st p h g = rep F ns st p h g"
  by (rule rep_cong) auto

lemma rep_ids_dom: "rep F ns st p h g \<Longrightarrow> set (ids g) \<subseteq> dom ns"
proof (induction g arbitrary: p h)
  case (GBin i l r)
  then show ?case by (cases i) (fastforce simp: at_handle_def)+
next
  case (GEdge i q c)
  then show ?case by (cases i) (fastforce simp: at_handle_def)+
qed simp

section \<open>Frames\<close>

lemma cbits_simps [simp]: "cbits [] = []" "cbits (f # fs) = fbits f @ cbits fs"
  by (simp_all add: cbits_def)

lemma cbits_append [simp]: "cbits (fs @ fs') = cbits fs @ cbits fs'"
  by (simp add: cbits_def)

lemma fill_append [simp]: "fill (fs @ fs') g = fill fs (fill fs' g)"
  by (induction fs g rule: fill.induct) auto

lemma fill_Cons_gid [simp]: "gid (fill (f # fs) g) = Some (fid f)"
  by (cases f) auto

lemma rep_fill:
  "rep F ns st p h (fill fs g) \<longleftrightarrow> (\<exists>h'. crep F ns st p h fs h' \<and> rep F ns st (p @ cbits fs) h' g)"
proof (induction fs arbitrary: p h)
  case (Cons f fs)
  show ?case
  proof (cases f)
    case (FBin i b s)
    then show ?thesis
      using Cons.IH by (cases b) (auto simp: at_handle_def)
  next
    case (FEdge i q)
    then show ?thesis using Cons.IH by (auto simp: at_handle_def)
  qed
qed simp

lemma mset_ids_fill:
  "mset (ids (fill fs g)) = mset (map fid fs) + mset (concat (map fsib_ids fs)) + mset (ids g)"
  by (induction fs g rule: fill.induct) auto

lemma set_ids_fill:
  "set (ids (fill fs g)) = set (map fid fs) \<union> \<Union> (set ` set (map fsib_ids fs)) \<union> set (ids g)"
  by (induction fs g rule: fill.induct) auto

lemma distinct_ids_fill:
  assumes "distinct (ids (fill fs g))" "distinct (ids g')"
    and "set (ids g') \<inter> (set (map fid fs) \<union> \<Union> (set ` set (map fsib_ids fs))) = {}"
  shows "distinct (ids (fill fs g'))"
  using assms
proof (induction fs g rule: fill.induct)
  case (2 i b s fs g)
  then show ?case by (cases b) (auto simp: set_ids_fill)
next
  case (3 i q fs g)
  then show ?case by (auto simp: set_ids_fill)
qed simp

lemma distinct_ids_fill_sub: "distinct (ids (fill fs g)) \<Longrightarrow> distinct (ids g)"
  by (induction fs g rule: fill.induct) (auto split: if_splits)

lemma erase_fill_cong: "erase g = erase g' \<Longrightarrow> erase (fill fs g) = erase (fill fs g')"
  by (induction fs g rule: fill.induct) auto

end
