(* ===== verification/Tree_Seek.thy ===== *)
theory Tree_Seek
  imports Tree_Rep
begin

text \<open>
  What a walk of the iterator does to a tree that represents a trie: it terminates, it only
  loads nodes, and it ends at the node where the key leaves the trie or at the parent of its
  leaf. The nodes it lists are the frames of a zipper at that node.
\<close>

section \<open>Where a walk stops\<close>

fun stuck :: "'f gtree \<Rightarrow> bits \<Rightarrow> bool" where
  "stuck (GLeaf v) k \<longleftrightarrow> False"
| "stuck (GBin i l r) k \<longleftrightarrow> (\<exists>b v. k = [b] \<and> (if b then r else l) = GLeaf v)"
| "stuck (GEdge i q c) k \<longleftrightarrow> \<not> prefix q k \<or> (k = q \<and> (\<exists>v. c = GLeaf v))"

lemma stored_nodes [simp]: "stored F db (t\<lparr>nodes := ns\<rparr>) = stored F db t"
  by (rule ext) (simp add: stored_def)

lemma load_db_node_stored:
  assumes "stored F db t p = Some n"
  shows "load_db_node F db (branch_key (tree_ident t) p) t =
    (Inr (Some (sm_next (nodes t))), t\<lparr>nodes := snd (sm_insert n (nodes t))\<rparr>)"
  using assms
  by (auto simp: stored_def load_db_node_def nodes_insert_def sm_insert_def Let_def
      split: if_splits sum.splits option.splits)

section \<open>One step of the walk\<close>

lemma sm_slots_insert [simp]:
  "sm_slots (snd (sm_insert n m)) = (sm_slots m)(sm_next m \<mapsto> n)"
  "sm_next (snd (sm_insert n m)) = Suc (sm_next m)"
  by (simp_all add: sm_insert_def)

lemma sm_slots_set [simp]:
  "sm_slots (sm_set k n m) = (sm_slots m)(k \<mapsto> n)" "sm_next (sm_set k n m) = sm_next m"
  by (simp_all add: sm_set_def)

lemma sm_slots_remove [simp]:
  "sm_slots (sm_remove k m) = (sm_slots m)(k := None)" "sm_next (sm_remove k m) = sm_next m"
  by (simp_all add: sm_remove_def)

text \<open>Loading the child of a node: either it is in memory, or it gets a fresh slot.\<close>

lemma load_child:
  assumes rep: "rep F (slots t) (stored F db t) p h c" and nl: "\<And>v. c \<noteq> GLeaf v"
    and wf: "sm_wf (nodes t)"
  obtains k' n' ns where "load_node_handle F db h p t = (Inr k', t\<lparr>nodes := ns\<rparr>)"
    "sm_slots ns = (slots t)(k' \<mapsto> n')" "repn F (slots t) (stored F db t) p n' c"
    "sm_wf ns" "sm_next (nodes t) \<le> sm_next ns" "k' < sm_next ns"
    "gid c = Some k' \<and> slots t k' = Some n' \<or>
     gid c = None \<and> k' = sm_next (nodes t) \<and> get_hash n' = Some (phash F (erase c))"
proof -
  obtain n' where at: "at_handle (slots t) (stored F db t) p h (gid c) (phash F (erase c)) n'"
    and repn: "repn F (slots t) (stored F db t) p n' c"
    using rep rep_repn [OF nl] by blast
  show thesis
  proof (cases "gid c")
    case (Some k')
    then have "h = InMemory k'" "slots t k' = Some n'" using at by (auto simp: at_handle_def)
    then show thesis
      using that [of k' "nodes t" n'] repn wf Some
      by (auto simp: load_node_handle_def sm_wf_def map_upd_triv)
  next
    case None
    then have h: "h = Hash (phash F (erase c))" and st: "stored F db t p = Some n'"
      and hash: "get_hash n' = Some (phash F (erase c))"
      using at by (auto simp: at_handle_def)
    have wf': "sm_wf (snd (sm_insert n' (nodes t)))"
      using sm_wf_insert [OF wf] by (metis surjective_pairing)
    have "load_node_handle F db h p t =
        (Inr (sm_next (nodes t)), t\<lparr>nodes := snd (sm_insert n' (nodes t))\<rparr>)"
      using h load_db_node_stored [OF st] by (simp add: load_node_handle_def bindS_def)
    then show thesis
      by (rule that) (use repn None wf' hash in auto)
  qed
qed

text \<open>Replacing the child that the walk follows, in a node at hand.\<close>

fun set_step :: "bool \<Rightarrow> 'f node_handle \<Rightarrow> 'f node \<Rightarrow> 'f node" where
  "set_step x h (Binary b) = Binary (set_child b (direction_of_bool x) h)"
| "set_step x h (Edge e) = Edge (e\<lparr>e_child := h\<rparr>)"

text \<open>A step that goes on: the child is loaded and the node points at it.\<close>

lemma traverse_one_descend:
  fixes db :: "'e db_view" and it :: "'f merkle_iter"
  assumes n: "slots (it_tree it) k = Some n"
    and pick: "traverse_pick n h key (it\<lparr>current_nodes_heights := hs @ [(k, length p)]\<rparr>) =
      (Inr (hc, True) :: ('e, 'f node_handle \<times> bool) outcome, it\<lparr>current_nodes_heights := hs @ [(k, length p)], current_path := p'\<rparr>)"
    and p': "length p' < length key" "p' \<noteq> []"
    and hs: "current_nodes_heights it = hs" "current_path it = p"
    and load: "load_node_handle F db hc p' (it_tree it) = (Inr k', (it_tree it)\<lparr>nodes := ns\<rparr>)"
    and ns: "sm_slots ns = (slots (it_tree it))(k' \<mapsto> n')" "k' \<noteq> k"
  shows "traverse_one F db k h key it =
    (Inr (Some k'), it\<lparr>current_nodes_heights := hs @ [(k, length p)], current_path := p',
       it_tree := (it_tree it)\<lparr>nodes := sm_set k (set_step (last p') (InMemory k') n) ns\<rparr>\<rparr>)"
proof -
  have k: "sm_get ns k = Some n" using ns n by (simp add: sm_get_def)
  have upd: "update_parent_ref k k' (it\<lparr>current_nodes_heights := hs @ [(k, length p)],
        current_path := p', it_tree := (it_tree it)\<lparr>nodes := ns\<rparr>\<rparr>) =
      (Inr () :: ('e, unit) outcome, it\<lparr>current_nodes_heights := hs @ [(k, length p)],
       current_path := p', it_tree := (it_tree it)\<lparr>nodes := sm_set k (set_step (last p') (InMemory k') n) ns\<rparr>\<rparr>)"
    using k p'(2)
    by (cases n) (simp_all add: update_parent_ref_def bindS_def on_tree_def get_node_mut_def
        nodes_assign_def)
  show ?thesis
    using n pick p'(1) hs load upd
    by (simp add: traverse_one_def Let_def bindS_def on_tree_def get_node_mut_def sm_get_def
        del: set_step.simps)
qed

text \<open>A step that stops.\<close>

lemma traverse_one_stop:
  fixes db :: "'e db_view" and it :: "'f merkle_iter"
  assumes n: "slots (it_tree it) k = Some n"
    and pick: "traverse_pick n h key (it\<lparr>current_nodes_heights := hs @ [(k, length p)]\<rparr>) =
      (Inr (hc, m) :: ('e, 'f node_handle \<times> bool) outcome, it\<lparr>current_nodes_heights := hs @ [(k, length p)], current_path := p'\<rparr>)"
    and stop: "\<not> m \<or> length key \<le> length p'"
    and hs: "current_nodes_heights it = hs" "current_path it = p"
  shows "\<exists>lh. traverse_one F db k h key it =
    (Inr None, it\<lparr>current_nodes_heights := hs @ [(k, length p)], current_path := p',
                   leaf_hash := lh\<rparr>)"
  using assms
  by (auto simp: traverse_one_def Let_def bindS_def on_tree_def get_node_mut_def sm_get_def)

lemma pick_binary:
  "length (current_path it) < length key \<Longrightarrow> traverse_pick (Binary b) h key it =
    (Inr (if key ! length (current_path it) then b_right b else b_left b, True),
     it\<lparr>current_path := current_path it @ [key ! length (current_path it)]\<rparr>)"
  by (simp add: traverse_pick_def Let_def)

lemma prefix_take_iff: "take (length q) k = q \<longleftrightarrow> prefix q k"
  by (auto simp: prefix_def take_eq_iff_append)

lemma pick_edge:
  assumes "e_height e = h" "length p = h" "h + length (e_path e) \<le> length (p @ kk)" "current_path it = p"
  shows "traverse_pick (Edge e) h (p @ kk) it =
    (Inr (e_child e, prefix (e_path e) kk), it\<lparr>current_path := p @ e_path e\<rparr>)"
  using assms
  by (simp add: traverse_pick_def Let_def path_matches_full prefix_take_iff)

section \<open>The loop\<close>

text \<open>
  What a walk leaves behind below the node \<open>k\<close> at position \<open>p\<close>: a zipper whose frames are the
  nodes listed, the same trie and positions, and fresh slots only.
\<close>

definition walked ::
  "'f ext_ops \<Rightarrow> (bits \<rightharpoonup> 'f node) \<Rightarrow> bits \<Rightarrow> nat \<Rightarrow> 'f gtree \<Rightarrow> bits \<Rightarrow> 'f node slot_map \<Rightarrow>
    'f node slot_map \<Rightarrow> (nat \<times> nat) list \<Rightarrow> 'f frame list \<Rightarrow> 'f gtree \<Rightarrow> bits \<Rightarrow> bool" where
  "walked F st p k g kk ns ns' hs fs g' kr \<longleftrightarrow>
     rep F (sm_slots ns') st p (InMemory k) (fill fs g') \<and>
     erase (fill fs g') = erase g \<and> gpos p (fill fs g') = gpos p g \<and>
     kk = cbits fs @ kr \<and> stuck g' kr \<and> gid g' \<noteq> None \<and>
     map fst hs = map fid fs @ [the (gid g')] \<and>
     distinct (ids (fill fs g')) \<and>
     insert k (set (sub_ids g)) \<subseteq> set (ids (fill fs g')) \<and>
     set (ids (fill fs g')) \<subseteq> insert k (set (sub_ids g)) \<union> {sm_next ns ..< sm_next ns'} \<and>
     (\<forall>i. i \<notin> set (ids (fill fs g')) \<longrightarrow> sm_slots ns' i = sm_slots ns i) \<and>
     sm_wf ns' \<and> sm_next ns \<le> sm_next ns'"

lemma walked_stop:
  assumes "repn F (sm_slots ns) st p n g" "sm_slots ns k = Some n" "stuck g kk"
    "distinct (sub_ids g)" "k \<notin> set (sub_ids g)" "sm_wf ns"
  shows "walked F st p k g kk ns ns [(k, h)] [] (set_gid k g) kk"
proof -
  have nl: "g \<noteq> GLeaf v" for v using assms(1) by auto
  have rep: "rep F (sm_slots ns) st p (InMemory k) (set_gid k g)"
    using assms(1,2) nl by (cases g) (auto simp: at_handle_def)
  moreover have "ids (set_gid k g) = k # sub_ids g" "gid (set_gid k g) = Some k"
    "stuck (set_gid k g) kk"
    using nl assms(3) by (cases g; auto)+
  ultimately show ?thesis
    using assms by (auto simp: walked_def)
qed

lemma fresh_disjoint:
  assumes "A \<subseteq> insert k S \<union> {a ..< b}" "k \<notin> B" "S \<inter> B = {}" "\<And>i::nat. i \<in> B \<Longrightarrow> i < a"
  shows "A \<inter> B = {}"
proof (rule equals0I)
  fix i assume "i \<in> A \<inter> B"
  then show False using assms(1-3) assms(4) [of i] by auto
qed

text \<open>Adding the frame of a binary node on top of a walk below it.\<close>

lemma walked_binary:
  fixes x l r i c s
  defines "c \<equiv> (if x then r else l)" and "s \<equiv> (if x then l else r)"
  assumes w: "walked F st (p @ [x]) k' c kk ns1 ns' hs fs g' kr"
    and ns1: "sm_slots ns1 = (sm_slots ns)(k' \<mapsto> n', k \<mapsto> set_step x (InMemory k') (Binary b))"
    and next1: "sm_next ns \<le> sm_next ns1" "k' < sm_next ns1"
    and n: "repn F (sm_slots ns) st p (Binary b) (GBin i l r)"
    and k: "sm_slots ns k = Some (Binary b)" "distinct (ids l @ ids r)" "k \<notin> set (ids l @ ids r)"
    and k': "gid c = Some k' \<or> (gid c = None \<and> k' = sm_next ns)" and nl: "\<And>v. c \<noteq> GLeaf v"
    and wf: "sm_wf ns"
  shows "walked F st p k (GBin i l r) (x # kk) ns ns' ((k, length p) # hs) (FBin k x s # fs) g' kr"
proof -
  let ?fg = "fill fs g'"
  have ids_c: "ids c = id_list (gid c) @ sub_ids c" by (rule ids_split [OF nl])
  have lt: "i' < sm_next ns" if "i' \<in> set (ids l @ ids r) \<or> i' = k" for i'
  proof -
    have "set (ids l) \<subseteq> dom (sm_slots ns)" "set (ids r) \<subseteq> dom (sm_slots ns)"
      using n by (auto dest: rep_ids_dom)
    then show ?thesis using that k(1) wf by (auto simp: sm_wf_def)
  qed
  have c_s: "set (ids c) \<inter> set (ids s) = {}" "set (ids c) \<union> set (ids s) = set (ids l @ ids r)"
    using k(2) by (auto simp: c_def s_def)
  have fresh: "set (ids ?fg) \<inter> insert k (set (ids s)) = {}"
  proof -
    have "set (ids ?fg) \<subseteq> insert k' (set (sub_ids c)) \<union> {sm_next ns1 ..< sm_next ns'}"
      using w by (simp add: walked_def)
    moreover have "k' \<notin> insert k (set (ids s))"
      using k' c_s lt ids_c k(3) by auto
    moreover have "set (sub_ids c) \<inter> insert k (set (ids s)) = {}"
      using c_s ids_c k(3) by auto
    moreover have "i' < sm_next ns1" if "i' \<in> insert k (set (ids s))" for i'
    proof -
      have "i' < sm_next ns" using lt [of i'] that c_s(2) by blast
      then show ?thesis using next1(1) by simp
    qed
    ultimately show ?thesis by (rule fresh_disjoint)
  qed
  have same: "sm_slots ns' i' = sm_slots ns1 i'" if "i' \<notin> set (ids ?fg)" for i'
    using w that by (simp add: walked_def)
  have node_k: "sm_slots ns' k = Some (set_step x (InMemory k') (Binary b))"
    using same [of k] fresh ns1 by auto
  have k'_in: "k' \<in> set (ids ?fg)" using w by (simp add: walked_def)
  have sib: "rep F (sm_slots ns') st (p @ [\<not> x]) (if x then b_left b else b_right b) s"
  proof -
    have "sm_slots ns' i' = sm_slots ns i'" if i': "i' \<in> set (ids s)" for i'
    proof -
      have "i' \<notin> set (ids ?fg)" "i' \<noteq> k" using i' fresh k(3) c_s(2) by auto
      moreover have "i' \<noteq> k'" using calculation(1) k'_in by auto
      ultimately show ?thesis using same ns1 by simp
    qed
    moreover have "rep F (sm_slots ns) st (p @ [\<not> x]) (if x then b_left b else b_right b) s"
      using n by (auto simp: s_def)
    ultimately show ?thesis using rep_cong by metis
  qed
  have rep: "rep F (sm_slots ns') st p (InMemory k) (fill (FBin k x s # fs) g')"
    using node_k sib w n
    by (cases x) (auto simp: at_handle_def walked_def)
  show ?thesis
    unfolding walked_def
  proof (intro conjI)
    show "rep F (sm_slots ns') st p (InMemory k) (fill (FBin k x s # fs) g')" by (rule rep)
    show "erase (fill (FBin k x s # fs) g') = erase (GBin i l r)"
      "gpos p (fill (FBin k x s # fs) g') = gpos p (GBin i l r)"
      using w by (auto simp: walked_def c_def s_def)
    show "distinct (ids (fill (FBin k x s # fs) g'))"
      using w fresh k(2,3) c_s by (auto simp: walked_def c_def s_def)
    show "insert k (set (sub_ids (GBin i l r))) \<subseteq> set (ids (fill (FBin k x s # fs) g'))"
      using w ids_c k' k'_in lt next1 by (auto simp: walked_def c_def s_def split: if_splits)
    show "set (ids (fill (FBin k x s # fs) g'))
        \<subseteq> insert k (set (sub_ids (GBin i l r))) \<union> {sm_next ns..<sm_next ns'}"
      using w ids_c k' next1 by (fastforce simp: walked_def c_def s_def split: if_splits)
    show "\<forall>i'. i' \<notin> set (ids (fill (FBin k x s # fs) g')) \<longrightarrow> sm_slots ns' i' = sm_slots ns i'"
      using same ns1 k'_in by auto
  qed (use w next1 in \<open>auto simp: walked_def\<close>)
qed

text \<open>The same for an edge.\<close>

lemma walked_edge:
  assumes w: "walked F st (p @ q) k' c kk ns1 ns' hs fs g' kr"
    and ns1: "sm_slots ns1 = (sm_slots ns)(k' \<mapsto> n', k \<mapsto> set_step x (InMemory k') (Edge e))"
    and next1: "sm_next ns \<le> sm_next ns1" "k' < sm_next ns1"
    and n: "repn F (sm_slots ns) st p (Edge e) (GEdge i q c)"
    and k: "sm_slots ns k = Some (Edge e)" "distinct (ids c)" "k \<notin> set (ids c)"
    and k': "gid c = Some k' \<or> (gid c = None \<and> k' = sm_next ns)" and nl: "\<And>v. c \<noteq> GLeaf v"
    and wf: "sm_wf ns"
  shows "walked F st p k (GEdge i q c) (q @ kk) ns ns' ((k, length p) # hs) (FEdge k q # fs) g' kr"
proof -
  let ?fg = "fill fs g'"
  have ids_c: "ids c = id_list (gid c) @ sub_ids c" by (rule ids_split [OF nl])
  have k_lt: "k < sm_next ns" using k(1) wf by (auto simp: sm_wf_def)
  have k_fresh: "k \<notin> set (ids ?fg)"
  proof -
    have "set (ids ?fg) \<subseteq> insert k' (set (sub_ids c)) \<union> {sm_next ns1 ..< sm_next ns'}"
      using w by (simp add: walked_def)
    moreover have "k' \<notin> {k}" "set (sub_ids c) \<inter> {k} = {}" "\<And>i. i \<in> {k} \<Longrightarrow> i < sm_next ns1"
      using k' k_lt ids_c k(3) next1(1) by auto
    ultimately show ?thesis
      using fresh_disjoint [of "set (ids ?fg)" k' "set (sub_ids c)" "sm_next ns1" "sm_next ns'" "{k}"]
      by auto
  qed
  have same: "sm_slots ns' i' = sm_slots ns1 i'" if "i' \<notin> set (ids ?fg)" for i'
    using w that by (simp add: walked_def)
  have node_k: "sm_slots ns' k = Some (set_step x (InMemory k') (Edge e))"
    using same [of k] k_fresh ns1 by auto
  have k'_in: "k' \<in> set (ids ?fg)" using w by (simp add: walked_def)
  show ?thesis
    unfolding walked_def
  proof (intro conjI)
    show "rep F (sm_slots ns') st p (InMemory k) (fill (FEdge k q # fs) g')"
      using node_k w n by (auto simp: at_handle_def walked_def)
    show "distinct (ids (fill (FEdge k q # fs) g'))"
      using w k_fresh by (auto simp: walked_def)
    show "insert k (set (sub_ids (GEdge i q c))) \<subseteq> set (ids (fill (FEdge k q # fs) g'))"
      using w ids_c k' k'_in by (auto simp: walked_def)
    show "set (ids (fill (FEdge k q # fs) g'))
        \<subseteq> insert k (set (sub_ids (GEdge i q c))) \<union> {sm_next ns..<sm_next ns'}"
      using w ids_c k' next1 by (fastforce simp: walked_def)
    show "\<forall>i'. i' \<notin> set (ids (fill (FEdge k q # fs) g')) \<longrightarrow> sm_slots ns' i' = sm_slots ns i'"
      using same ns1 k'_in by auto
  qed (use w next1 in \<open>auto simp: walked_def\<close>)
qed

text \<open>A leaf is where the height ends.\<close>

lemma pwf_leaf: "pwf n (erase g) \<Longrightarrow> n = 0 \<longleftrightarrow> (\<exists>v. g = GLeaf v)"
  by (cases g) (auto simp: Suc_le_eq neq_Nil_conv)

text \<open>The child of a node at \<open>k\<close> after it was loaded and the node was redirected to it.\<close>

lemma loaded_child:
  assumes repn: "repn F (sm_slots ns0) st p n' c" and wf: "sm_wf ns0"
    and k': "gid c = Some k' \<or> (gid c = None \<and> k' = sm_next ns0)"
    and k: "sm_slots ns0 k \<noteq> None" "k \<notin> set (ids c)" and dist: "distinct (ids c)"
    and sub: "set (sub_ids c) \<subseteq> dom (sm_slots ns0)"
  shows "k' \<noteq> k" "k' \<notin> set (sub_ids c)" "distinct (sub_ids c)"
    "repn F ((sm_slots ns0)(k' \<mapsto> n', k \<mapsto> m)) st p n' c"
proof -
  have nl: "c \<noteq> GLeaf v" for v using repn by auto
  have ids_c: "ids c = id_list (gid c) @ sub_ids c" by (rule ids_split [OF nl])
  have k_lt: "k < sm_next ns0" using k(1) wf by (auto simp: sm_wf_def)
  show ne: "k' \<noteq> k" using k' k(2) k_lt ids_c by auto
  have sub_lt: "i < sm_next ns0" if "i \<in> set (sub_ids c)" for i
    using that sub wf by (auto simp: sm_wf_def)
  show k'_sub: "k' \<notin> set (sub_ids c)" using k' dist ids_c sub_lt by auto
  show "distinct (sub_ids c)" using dist ids_c by simp
  have "k \<notin> set (sub_ids c)" using k(2) ids_c by simp
  then show "repn F ((sm_slots ns0)(k' \<mapsto> n', k \<mapsto> m)) st p n' c"
    using repn k'_sub by simp
qed

lemma traverse_loop_descend:
  fixes db :: "'e db_view" and it :: "'f merkle_iter"
  assumes "slots (it_tree it) k = Some n" "current_path it = p"
    and "traverse_pick n (length p) key
        (it\<lparr>current_nodes_heights := current_nodes_heights it @ [(k, length p)]\<rparr>) =
      (Inr (hc, True) :: ('e, 'f node_handle \<times> bool) outcome,
       it\<lparr>current_nodes_heights := current_nodes_heights it @ [(k, length p)], current_path := p'\<rparr>)"
    and "length p' < length key" "p' \<noteq> []"
    and "load_node_handle F db hc p' (it_tree it) = (Inr k', (it_tree it)\<lparr>nodes := ns\<rparr>)"
    and "sm_slots ns = (slots (it_tree it))(k' \<mapsto> n')" "k' \<noteq> k"
  shows "traverse_loop F (Suc fuel) db noop_visitor key (Some k) (v, it) =
    traverse_loop F fuel db noop_visitor key (Some k')
      (v, it\<lparr>current_nodes_heights := current_nodes_heights it @ [(k, length p)], current_path := p',
             it_tree := (it_tree it)\<lparr>nodes := sm_set k (set_step (last p') (InMemory k') n) ns\<rparr>\<rparr>)"
  using traverse_one_descend [of it k n "length p" key "current_nodes_heights it" p hc p' F db k' ns n']
    assms
  by (simp add: bindS_def on_iter_def del: set_step.simps)

lemma traverse_loop_stop:
  fixes db :: "'e db_view" and it :: "'f merkle_iter"
  assumes "slots (it_tree it) k = Some n" "current_path it = p"
    and "traverse_pick n (length p) key
        (it\<lparr>current_nodes_heights := current_nodes_heights it @ [(k, length p)]\<rparr>) =
      (Inr (hc, m) :: ('e, 'f node_handle \<times> bool) outcome,
       it\<lparr>current_nodes_heights := current_nodes_heights it @ [(k, length p)], current_path := p'\<rparr>)"
    and "\<not> m \<or> length key \<le> length p'"
  shows "\<exists>cp lh. traverse_loop F (Suc fuel) db noop_visitor key (Some k) (v, it) =
    (Inr (), v, it\<lparr>it_tree := (it_tree it)\<lparr>nodes := nodes (it_tree it)\<rparr>, current_path := cp,
       current_nodes_heights := current_nodes_heights it @ [(k, length p)], leaf_hash := lh\<rparr>)"
proof -
  obtain lh where "traverse_one F db k (length p) key it =
      (Inr None, it\<lparr>current_nodes_heights := current_nodes_heights it @ [(k, length p)],
                     current_path := p', leaf_hash := lh\<rparr>)"
    using traverse_one_stop [of it k n "length p" key "current_nodes_heights it" p hc m p' F db] assms
    by blast
  then show ?thesis
    using assms(2)
    by (intro exI [of _ p'] exI [of _ lh]) (cases it, simp add: bindS_def on_iter_def)
qed

definition walk_ok ::
  "'f ext_ops \<Rightarrow> nat \<Rightarrow> 'e db_view \<Rightarrow> 'v \<Rightarrow> 'f merkle_iter \<Rightarrow> bits \<Rightarrow> nat \<Rightarrow> 'f gtree \<Rightarrow> bits \<Rightarrow> bool" where
  "walk_ok F fuel db v it p k g kk \<longleftrightarrow> (\<exists>ns' hs fs g' kr cp lh.
     traverse_loop F fuel db noop_visitor (p @ kk) (Some k) (v, it) =
       (Inr (), v, it\<lparr>it_tree := (it_tree it)\<lparr>nodes := ns'\<rparr>, current_path := cp,
                      current_nodes_heights := current_nodes_heights it @ hs, leaf_hash := lh\<rparr>) \<and>
     walked F (stored F db (it_tree it)) p k g kk (nodes (it_tree it)) ns' hs fs g' kr)"

definition walk_ready ::
  "'f ext_ops \<Rightarrow> nat \<Rightarrow> 'e db_view \<Rightarrow> 'f merkle_iter \<Rightarrow> bits \<Rightarrow> nat \<Rightarrow> 'f node \<Rightarrow> 'f gtree \<Rightarrow> bits \<Rightarrow> bool" where
  "walk_ready F fuel db it p k n g kk \<longleftrightarrow>
     repn F (slots (it_tree it)) (stored F db (it_tree it)) p n g \<and>
     slots (it_tree it) k = Some n \<and> current_path it = p \<and> pwf (length kk) (erase g) \<and>
     distinct (sub_ids g) \<and> k \<notin> set (sub_ids g) \<and> sm_wf (nodes (it_tree it)) \<and> length kk \<le> fuel"

lemma walk_stop:
  fixes db :: "'e db_view" and it :: "'f merkle_iter"
  assumes ready: "walk_ready F fuel db it p k n g kk" and stuck: "stuck g kk" and "kk \<noteq> []"
    and pick: "traverse_pick n (length p) (p @ kk)
        (it\<lparr>current_nodes_heights := current_nodes_heights it @ [(k, length p)]\<rparr>) =
      (Inr (hc, m) :: ('e, 'f node_handle \<times> bool) outcome,
       it\<lparr>current_nodes_heights := current_nodes_heights it @ [(k, length p)], current_path := p'\<rparr>)"
    and stop: "\<not> m \<or> length (p @ kk) \<le> length p'"
  shows "walk_ok F fuel db v it p k g kk"
proof -
  obtain fuel' where fuel: "fuel = Suc fuel'"
    using ready assms(3) by (cases fuel) (auto simp: walk_ready_def)
  have n: "slots (it_tree it) k = Some n" "current_path it = p"
    using ready by (simp_all add: walk_ready_def)
  have "walked F (stored F db (it_tree it)) p k g kk (nodes (it_tree it)) (nodes (it_tree it))
      [(k, length p)] [] (set_gid k g) kk"
    using ready stuck by (intro walked_stop [where n = n]) (auto simp: walk_ready_def)
  moreover obtain cp lh where "traverse_loop F fuel db noop_visitor (p @ kk) (Some k) (v, it) =
    (Inr (), v, it\<lparr>it_tree := (it_tree it)\<lparr>nodes := nodes (it_tree it)\<rparr>, current_path := cp,
       current_nodes_heights := current_nodes_heights it @ [(k, length p)], leaf_hash := lh\<rparr>)"
    using traverse_loop_stop [OF n pick stop, where F = F and fuel = fuel' and db = db and v = v]
    unfolding fuel by blast
  ultimately show ?thesis unfolding walk_ok_def by blast
qed

text \<open>A step into the child \<open>c\<close>, given the walk below it and the frame that goes on top.\<close>

lemma walk_down:
  fixes db :: "'e db_view" and it :: "'f merkle_iter"
  assumes ready: "walk_ready F (Suc fuel) db it p k n g kk"
    and pick: "traverse_pick n (length p) (p @ kk)
        (it\<lparr>current_nodes_heights := current_nodes_heights it @ [(k, length p)]\<rparr>) =
      (Inr (hc, True) :: ('e, 'f node_handle \<times> bool) outcome,
       it\<lparr>current_nodes_heights := current_nodes_heights it @ [(k, length p)], current_path := p'\<rparr>)"
    and key: "p @ kk = p' @ kk'" "kk' \<noteq> []" "p' \<noteq> []" "length kk' \<le> fuel"
    and rep_c: "rep F (slots (it_tree it)) (stored F db (it_tree it)) p' hc c"
    and c: "pwf (length kk') (erase c)" "k \<notin> set (ids c)" "distinct (ids c)"
    and IH: "\<And>it k n. walk_ready F fuel db it p' k n c kk' \<Longrightarrow> walk_ok F fuel db v it p' k c kk'"
    and wrap: "\<And>k' n' ns ns' hs fs g' kr.
      walked F (stored F db (it_tree it)) p' k' c kk'
        (sm_set k (set_step (last p') (InMemory k') n) ns) ns' hs fs g' kr \<Longrightarrow>
      sm_slots ns = (slots (it_tree it))(k' \<mapsto> n') \<Longrightarrow>
      sm_next (nodes (it_tree it)) \<le> sm_next ns \<Longrightarrow> k' < sm_next ns \<Longrightarrow>
      gid c = Some k' \<or> (gid c = None \<and> k' = sm_next (nodes (it_tree it))) \<Longrightarrow>
      \<exists>fs. walked F (stored F db (it_tree it)) p k g kk (nodes (it_tree it)) ns'
             ((k, length p) # hs) fs g' kr"
  shows "walk_ok F (Suc fuel) db v it p k g kk"
proof -
  let ?t = "it_tree it" and ?st = "stored F db (it_tree it)"
  have n: "slots ?t k = Some n" "current_path it = p" and wf0: "sm_wf (nodes ?t)"
    using ready by (simp_all add: walk_ready_def)
  have nl: "c \<noteq> GLeaf v'" for v' using c(1) key(2) pwf_leaf by fastforce
  obtain k' n' ns where load: "load_node_handle F db hc p' ?t = (Inr k', ?t\<lparr>nodes := ns\<rparr>)"
    and ns: "sm_slots ns = (slots ?t)(k' \<mapsto> n')" and repn': "repn F (slots ?t) ?st p' n' c"
    and wf: "sm_wf ns" "sm_next (nodes ?t) \<le> sm_next ns" "k' < sm_next ns"
    and k': "gid c = Some k' \<or> (gid c = None \<and> k' = sm_next (nodes ?t))"
    using load_child [OF rep_c nl wf0] by blast
  let ?m = "set_step (last p') (InMemory k') n"
  let ?it1 = "it\<lparr>current_nodes_heights := current_nodes_heights it @ [(k, length p)],
    current_path := p', it_tree := ?t\<lparr>nodes := sm_set k ?m ns\<rparr>\<rparr>"
  have sub: "set (sub_ids c) \<subseteq> dom (slots ?t)" and kn: "slots ?t k \<noteq> None"
    using rep_ids_dom [OF rep_c] ids_split [OF nl] n by auto
  note child = loaded_child(1-3) [OF repn' wf0 k' kn c(2,3) sub]
    loaded_child(4) [OF repn' wf0 k' kn c(2,3) sub, where m = ?m]
  have wf1: "sm_wf (sm_set k ?m ns)"
    using sm_wf_set [OF wf(1), of k ?m] ns n child(1) by (simp add: sm_get_def)
  have "walk_ready F fuel db ?it1 p' k' n' c kk'"
    using child n c(1) key(4) ns wf1 by (simp add: walk_ready_def del: set_step.simps)
  then have "walk_ok F fuel db v ?it1 p' k' c kk'" by (rule IH)
  then obtain ns' hs fs g' kr cp lh where loop:
      "traverse_loop F fuel db noop_visitor (p @ kk) (Some k') (v, ?it1) =
        (Inr (), v, it\<lparr>it_tree := ?t\<lparr>nodes := ns'\<rparr>, current_path := cp, current_nodes_heights :=
           current_nodes_heights it @ ((k, length p) # hs), leaf_hash := lh\<rparr>)"
    and w: "walked F ?st p' k' c kk' (sm_set k ?m ns) ns' hs fs g' kr"
    using key(1) by (auto simp: walk_ok_def)
  have "length p' < length (p @ kk)" using key(1,2) by simp
  then have "traverse_loop F (Suc fuel) db noop_visitor (p @ kk) (Some k) (v, it) =
      traverse_loop F fuel db noop_visitor (p @ kk) (Some k') (v, ?it1)"
    using child(1) by (intro traverse_loop_descend [OF n pick _ key(3) load ns]) auto
  then show ?thesis
    using wrap [OF w ns wf(2,3) k'] loop unfolding walk_ok_def by metis
qed

text \<open>The loop, by induction on the ghost tree; every node on the way takes one unit of fuel.\<close>

lemma traverse_loop_walked:
  fixes db :: "'e db_view" and it :: "'f merkle_iter"
  shows "walk_ready F fuel db it p k n g kk \<Longrightarrow> walk_ok F fuel db v it p k g kk"
proof (induction g arbitrary: p n k kk it fuel)
  case (GLeaf v')
  then show ?case by (simp add: walk_ready_def)
next
  case (GBin i l r)
  let ?t = "it_tree it" and ?st = "stored F db (it_tree it)"
  note ready = GBin.prems [unfolded walk_ready_def]
  obtain b where n: "n = Binary b" "b_height b = length p" using ready by auto
  obtain x kk' fuel' where kk: "kk = x # kk'" and fuel: "fuel = Suc fuel'" "length kk' \<le> fuel'"
    using ready by (cases kk; cases fuel) auto
  let ?c = "if x then r else l" and ?hc = "if x then b_right b else b_left b"
  let ?it = "it\<lparr>current_nodes_heights := current_nodes_heights it @ [(k, length p)]\<rparr>"
  have pick: "traverse_pick n (length p) (p @ kk) ?it =
      (Inr (?hc, True) :: ('e, 'f node_handle \<times> bool) outcome, ?it\<lparr>current_path := p @ [x]\<rparr>)"
    using pick_binary [of ?it "p @ kk" b "length p"] ready kk n by simp
  have pwf_c: "pwf (length kk') (erase ?c)" using ready kk by auto
  have IH: "walk_ready F fuel' db it p' k n ?c kk' \<Longrightarrow> walk_ok F fuel' db v it p' k ?c kk'" for it p' k n
    using GBin.IH by (cases x) auto
  show ?case
  proof (cases "kk' = []")
    case True
    then obtain v' where "?c = GLeaf v'" using pwf_c pwf_leaf by fastforce
    then show ?thesis
      using walk_stop [OF GBin.prems _ _ pick] kk True by auto
  next
    case False
    then have nl: "?c \<noteq> GLeaf v'" for v' using pwf_c pwf_leaf by fastforce
    show ?thesis
      unfolding fuel(1)
    proof (rule walk_down [OF GBin.prems [unfolded fuel(1)] pick, where kk' = kk' and c = ?c])
      show "rep F (slots ?t) ?st (p @ [x]) ?hc ?c" using ready n by auto
      show "\<exists>fs. walked F ?st p k (GBin i l r) kk (nodes ?t) ns' ((k, length p) # hs) fs g' kr"
        if "walked F ?st (p @ [x]) k' ?c kk' (sm_set k (set_step (last (p @ [x])) (InMemory k') n) ns)
              ns' hs fs g' kr" "sm_slots ns = (slots ?t)(k' \<mapsto> n')"
          "sm_next (nodes ?t) \<le> sm_next ns" "k' < sm_next ns"
          "gid ?c = Some k' \<or> (gid ?c = None \<and> k' = sm_next (nodes ?t))"
        for k' n' ns ns' hs fs g' kr
        using walked_binary [where ns = "nodes ?t" and n' = n' and k = k and b = b and i = i and p = p
            and x = x, OF that(1) [unfolded n(1) last_snoc] _ _ _ _ _ _ _ that(5) nl] that ready n kk
        by (intro exI [of _ "FBin k x (if x then l else r) # fs"]) simp
    qed (use IH kk False fuel pwf_c ready in auto)
  qed
next
  case (GEdge i q c)
  let ?t = "it_tree it" and ?st = "stored F db (it_tree it)"
  note ready = GEdge.prems [unfolded walk_ready_def]
  obtain e where n: "n = Edge e" "e_height e = length p" "e_path e = q"
    and rep_c: "rep F (slots ?t) ?st (p @ q) (e_child e) c" using ready by auto
  let ?it = "it\<lparr>current_nodes_heights := current_nodes_heights it @ [(k, length p)]\<rparr>"
  have q: "q \<noteq> []" "length q \<le> length kk" "pwf (length kk - length q) (erase c)"
    using ready by auto
  have pick: "traverse_pick n (length p) (p @ kk) ?it =
      (Inr (e_child e, prefix q kk) :: ('e, 'f node_handle \<times> bool) outcome,
       ?it\<lparr>current_path := p @ q\<rparr>)"
    using pick_edge [of e "length p" p kk ?it] n q(2) ready by simp
  show ?case
  proof (cases "prefix q kk \<and> kk \<noteq> q")
    case False
    then have "stuck (GEdge i q c) kk" "kk \<noteq> []" using q pwf_leaf [of 0 c] by auto
    then show ?thesis
      using walk_stop [OF GEdge.prems _ _ pick] False q by auto
  next
    case True
    then obtain kk' where kk: "kk = q @ kk'" "kk' \<noteq> []" by (auto elim: prefixE)
    then have nl: "c \<noteq> GLeaf v'" for v' using q(3) pwf_leaf by fastforce
    obtain fuel' where fuel: "fuel = Suc fuel'" "length kk' \<le> fuel'"
      using ready kk q(1) by (cases fuel; cases q) auto
    have pick': "traverse_pick n (length p) (p @ kk) ?it =
        (Inr (e_child e, True) :: ('e, 'f node_handle \<times> bool) outcome, ?it\<lparr>current_path := p @ q\<rparr>)"
      using pick True by simp
    show ?thesis
      unfolding fuel(1)
    proof (rule walk_down [OF GEdge.prems [unfolded fuel(1)] pick', where kk' = kk' and c = c])
      show "\<exists>fs. walked F ?st p k (GEdge i q c) kk (nodes ?t) ns' ((k, length p) # hs) fs g' kr"
        if "walked F ?st (p @ q) k' c kk' (sm_set k (set_step (last (p @ q)) (InMemory k') n) ns)
              ns' hs fs g' kr" "sm_slots ns = (slots ?t)(k' \<mapsto> n')"
          "sm_next (nodes ?t) \<le> sm_next ns" "k' < sm_next ns"
          "gid c = Some k' \<or> (gid c = None \<and> k' = sm_next (nodes ?t))"
        for k' n' ns ns' hs fs g' kr
        using walked_edge [where ns = "nodes ?t" and n' = n' and k = k and e = e and i = i and p = p,
            OF that(1) [unfolded n(1)] _ _ _ _ _ _ _ that(5) nl] that ready n kk
        by (intro exI [of _ "FEdge k q # fs"]) simp
    qed (use GEdge.IH kk fuel q ready rep_c in auto)
  qed
qed

section \<open>A seek from the root\<close>

text \<open>The tree opened at the place where the walk towards \<open>key\<close> ended.\<close>

definition opened ::
  "'f ext_ops \<Rightarrow> 'e db_view \<Rightarrow> 'f merkle_tree \<Rightarrow> 'f ptree \<Rightarrow> bits \<Rightarrow> (nat \<times> nat) list \<Rightarrow>
     'f frame list \<Rightarrow> 'f gtree \<Rightarrow> bits \<Rightarrow> bool" where
  "opened F db t pt key hs fs g kr \<longleftrightarrow>
     sm_wf (nodes t) \<and> erase (fill fs g) = pt \<and>
     (\<exists>k. root_node t = Some (Loaded k) \<and> gtree_inv F db t (InMemory k) (fill fs g)) \<and>
     key = cbits fs @ kr \<and> stuck g kr \<and> gid g \<noteq> None \<and> map fst hs = map fid fs @ [the (gid g)]"

lemma view_upd [simp]:
  "stored F db (t\<lparr>root_node := r\<rparr>) = stored F db t"
  "absent db (t\<lparr>root_node := r\<rparr>) = absent db t" "absent db (t\<lparr>nodes := ns\<rparr>) = absent db t"
  "height_of (t\<lparr>root_node := r\<rparr>) = height_of t" "height_of (t\<lparr>nodes := ns\<rparr>) = height_of t"
  by (simp_all add: stored_def absent_def height_of_def fun_eq_iff)

lemma seek_path_start:
  assumes "key \<noteq> []"
  shows "seek_path F fuel db key t =
    (case load_root_node F db t of
       (Inl e, t') \<Rightarrow> (Inl e, t')
     | (Inr None, t') \<Rightarrow> (Inr [], t')
     | (Inr (Some k), t') \<Rightarrow>
         (case traverse_loop F fuel db noop_visitor key (Some k) ((), iter_new t') of
            (Inl e, _, it) \<Rightarrow> (Inl e, it_tree it)
          | (Inr _, _, it) \<Rightarrow> (Inr (current_nodes_heights it), it_tree it)))"
  using assms
  by (auto simp: seek_path_def seek_to_def traverse_to_def Let_def iter_new_def bindS_def on_iter_def
      on_tree_def split: prod.splits sum.splits option.splits)

text \<open>Loading the root gives a tree whose root is in memory, the trie being the same.\<close>

lemma load_root_node_ghost:
  assumes g: "root_matches t h" "gtree_inv F db t h g" and wf: "sm_wf (nodes t)" and pos: "0 < height_of t"
  obtains k ns n where "load_root_node F db t =
      (Inr (Some k), t\<lparr>nodes := ns, root_node := Some (Loaded k)\<rparr>)"
    "repn F (sm_slots ns) (stored F db t) [] n g" "sm_slots ns = (slots t)(k \<mapsto> n)"
    "distinct (sub_ids g)" "k \<notin> set (sub_ids g)" "sm_wf ns"
    "dom (sm_slots ns) = insert k (set (sub_ids g))"
    "gid g = Some k \<and> slots t k = Some n \<or> gid g = None \<and> get_hash n = Some (phash F (erase g))"
proof -
  note inv = g(2) [unfolded gtree_inv_def]
  have nl: "g \<noteq> GLeaf v" for v using inv pos by auto
  have ids: "ids g = id_list (gid g) @ sub_ids g" by (rule ids_split [OF nl])
  have rep: "rep F (slots t) (stored F db t) [] h g" using inv by blast
  obtain n where at: "at_handle (slots t) (stored F db t) [] h (gid g) (phash F (erase g)) n"
    and repn: "repn F (slots t) (stored F db t) [] n g"
    using rep rep_repn [OF nl] by blast
  show thesis
  proof (cases "gid g")
    case (Some k)
    then have h: "h = InMemory k" "slots t k = Some n" using at by (auto simp: at_handle_def)
    then have root: "root_node t = Some (Loaded k)"
      using g(1) by (auto simp: root_matches_def split: option.splits root_handle.splits)
    show thesis
      by (rule that [of k "nodes t" n])
        (use root repn h inv ids Some wf in \<open>auto simp: load_root_node_def map_upd_triv\<close>)
  next
    case None
    then have h: "h = Hash (phash F (erase g))" and st: "stored F db t [] = Some n"
      and hash: "get_hash n = Some (phash F (erase g))"
      using at by (auto simp: at_handle_def)
    then have root: "root_node t = None"
      using g(1) by (auto simp: root_matches_def split: option.splits root_handle.splits)
    let ?ns = "snd (sm_insert n (nodes t))" and ?k = "sm_next (nodes t)"
    have fresh: "?k \<notin> set (sub_ids g)"
      using wf inv ids by (auto simp: sm_wf_def)
    have "load_root_node F db t = (Inr (Some ?k), t\<lparr>nodes := ?ns, root_node := Some (Loaded ?k)\<rparr>)"
      using load_db_node_stored [OF st] root
      by (simp add: load_root_node_def bindS_def path_encode_Nil)
    moreover have "repn F (sm_slots ?ns) (stored F db t) [] n g"
      using repn fresh by simp
    moreover have "dom (sm_slots ?ns) = insert ?k (set (sub_ids g))" using inv ids None by simp
    moreover have "sm_wf ?ns" using sm_wf_insert [OF wf] by (metis surjective_pairing)
    ultimately show thesis
      using fresh inv ids None hash by (intro that [of ?k ?ns n]) simp_all
  qed
qed

lemma load_root_node_Some:
  assumes inv: "tree_inv F db t (Some pt)"
  obtains k ns g n where "load_root_node F db t =
      (Inr (Some k), t\<lparr>nodes := ns, root_node := Some (Loaded k)\<rparr>)"
    "erase g = pt" "repn F (sm_slots ns) (stored F db t) [] n g" "sm_slots ns k = Some n"
    "distinct (sub_ids g)" "k \<notin> set (sub_ids g)" "sm_wf ns"
    "dom (sm_slots ns) = insert k (set (sub_ids g))"
    "\<forall>p. length p \<le> 255 \<longrightarrow> p \<notin> gpos [] g \<longrightarrow> absent db t p" "pwf (height_of t) pt"
proof -
  from inv obtain h g where g: "erase g = pt" "root_matches t h" "gtree_inv F db t h g"
    and wf: "sm_wf (nodes t)" and pos: "0 < height_of t"
    by (auto simp: tree_inv_def)
  obtain k ns n where *: "load_root_node F db t = (Inr (Some k), t\<lparr>nodes := ns, root_node := Some (Loaded k)\<rparr>)"
    "repn F (sm_slots ns) (stored F db t) [] n g" "sm_slots ns = (slots t)(k \<mapsto> n)"
    "distinct (sub_ids g)" "k \<notin> set (sub_ids g)" "sm_wf ns" "dom (sm_slots ns) = insert k (set (sub_ids g))"
    by (rule load_root_node_ghost [OF g(2,3) wf pos])
  show thesis
    by (rule that [OF *(1) g(1) *(2)]) (use * g in \<open>auto simp: gtree_inv_def\<close>)
qed

lemma seek_path_Some:
  assumes inv: "tree_inv F db t (Some pt)" and key: "length key = height_of t" "height_of t \<le> fuel"
  obtains hs ns k fs g kr where
    "seek_path F fuel db key t = (Inr hs, t\<lparr>nodes := ns, root_node := Some (Loaded k)\<rparr>)"
    "opened F db (t\<lparr>nodes := ns, root_node := Some (Loaded k)\<rparr>) pt key hs fs g kr"
proof -
  obtain k ns g n where load: "load_root_node F db t =
      (Inr (Some k), t\<lparr>nodes := ns, root_node := Some (Loaded k)\<rparr>)"
    and g: "erase g = pt" "repn F (sm_slots ns) (stored F db t) [] n g" "sm_slots ns k = Some n"
    "distinct (sub_ids g)" "k \<notin> set (sub_ids g)" "sm_wf ns"
    and dom: "dom (sm_slots ns) = insert k (set (sub_ids g))"
    and abs: "\<forall>p. length p \<le> 255 \<longrightarrow> p \<notin> gpos [] g \<longrightarrow> absent db t p" and pwf: "pwf (height_of t) pt"
    by (rule load_root_node_Some [OF inv])
  let ?t = "t\<lparr>nodes := ns, root_node := Some (Loaded k)\<rparr>"
  have ne: "key \<noteq> []" using inv key by (auto simp: tree_inv_def)
  have "walk_ready F fuel db (iter_new ?t) [] k n g key"
    using g pwf key by (simp add: walk_ready_def iter_new_def)
  then have "walk_ok F fuel db () (iter_new ?t) [] k g key" by (rule traverse_loop_walked)
  then obtain ns' hs fs g' kr cp lh where
    loop: "traverse_loop F fuel db noop_visitor key (Some k) ((), iter_new ?t) =
       (Inr (), (), (iter_new ?t)\<lparr>it_tree := ?t\<lparr>nodes := ns'\<rparr>, current_path := cp,
                      current_nodes_heights := hs, leaf_hash := lh\<rparr>)"
    and w: "walked F (stored F db t) [] k g key ns ns' hs fs g' kr"
    by (auto simp: walk_ok_def iter_new_def)
  have seek: "seek_path F fuel db key t = (Inr hs, t\<lparr>nodes := ns', root_node := Some (Loaded k)\<rparr>)"
    using loop load by (simp add: seek_path_start [OF ne])
  have rep: "rep F (sm_slots ns') (stored F db t) [] (InMemory k) (fill fs g')"
    and sub: "insert k (set (sub_ids g)) \<subseteq> set (ids (fill fs g'))"
    and same: "\<And>i. i \<notin> set (ids (fill fs g')) \<Longrightarrow> sm_slots ns' i = sm_slots ns i"
    using w by (auto simp: walked_def)
  have "dom (sm_slots ns') = set (ids (fill fs g'))"
  proof
    show "dom (sm_slots ns') \<subseteq> set (ids (fill fs g'))"
    proof
      fix i assume "i \<in> dom (sm_slots ns')"
      then show "i \<in> set (ids (fill fs g'))" using same [of i] dom sub by (metis domIff subsetD)
    qed
  qed (rule rep_ids_dom [OF rep])
  then show thesis
    using w abs pwf g(1) by (intro that [OF seek]) (auto simp: opened_def gtree_inv_def walked_def)
qed

lemma load_root_node_None:
  assumes "tree_inv F db t None"
  shows "load_root_node F db t = (Inr None, t\<lparr>root_node := Some Empty\<rparr>)"
proof -
  have "root_node t = None \<or> root_node t = Some Empty" "absent db t []"
    using assms by (auto simp: tree_inv_def empty_inv_def)
  then show ?thesis
    by (auto simp: load_root_node_def load_db_node_def bindS_def absent_def path_encode_Nil Let_def)
qed

lemma seek_path_None:
  assumes inv: "tree_inv F db t None" and key: "length key = height_of t"
  shows "seek_path F fuel db key t = (Inr [], t\<lparr>root_node := Some Empty\<rparr>)"
proof -
  have "key \<noteq> []" using inv key by (auto simp: tree_inv_def)
  then show ?thesis by (simp add: seek_path_start load_root_node_None [OF inv])
qed

end
