(* ===== verification/Tree_Update.thy ===== *)
theory Tree_Update
  imports Tree_Seek
begin

text \<open>
  Replacing the subtrie at the end of a path in memory: the facts that \<open>set\<close> and \<open>delete_leaf\<close>
  share. The nodes and the database outside the subtrie are the same before and after, so the
  representation of the whole tree follows from that of the new subtrie.
\<close>

section \<open>What the frames use\<close>

definition fr_ids :: "'f frame list \<Rightarrow> nat list" where
  "fr_ids fs = map fid fs @ concat (map fsib_ids fs)"

lemma fr_ids_simps [simp]:
  "fr_ids [] = []"
  "set (fr_ids (f # fs)) = insert (fid f) (set (fsib_ids f) \<union> set (fr_ids fs))"
  "set (fr_ids (fs @ fs')) = set (fr_ids fs) \<union> set (fr_ids fs')"
  by (auto simp: fr_ids_def)

lemma mset_ids_fr: "mset (ids (fill fs g)) = mset (fr_ids fs) + mset (ids g)"
  by (simp add: mset_ids_fill fr_ids_def)

lemma set_ids_fr: "set (ids (fill fs g)) = set (fr_ids fs) \<union> set (ids g)"
  using mset_ids_fr [of fs g] by (metis set_mset_mset set_mset_union)

lemma distinct_ids_fr:
  "distinct (ids (fill fs g)) \<longleftrightarrow> distinct (fr_ids fs) \<and> distinct (ids g) \<and> set (fr_ids fs) \<inter> set (ids g) = {}"
proof -
  have "distinct (ids (fill fs g)) \<longleftrightarrow> distinct (fr_ids fs @ ids g)"
    using mset_ids_fr [of fs g] by (intro mset_eq_imp_distinct_iff) simp
  then show ?thesis by auto
qed

section \<open>Replacement\<close>

lemma rep_fill_replace:
  assumes "rep F ns st p h (fill fs g)" and "rep F ns' st' (p @ cbits fs) (InMemory k) g'"
    and "gid g = Some k" and "\<And>i. i \<in> set (fr_ids fs) \<Longrightarrow> ns' i = ns i"
    and "\<And>q. q \<in> dbpos p (fill fs g) \<Longrightarrow> \<not> prefix (p @ cbits fs) q \<Longrightarrow> st' q = st q"
  shows "rep F ns' st' p h (fill fs g')"
  using assms
proof (induction fs arbitrary: p h)
  case Nil
  then have "h = InMemory k" by (cases g) (auto simp: at_handle_def)
  then show ?case using Nil by simp
next
  case (Cons f fs)
  show ?case
  proof (cases f)
    case (FBin i b s)
    have sib: "rep F ns' st' (p @ [\<not> b]) hs s" if "rep F ns st (p @ [\<not> b]) hs s" for hs
    proof -
      have "st' q = st q" if "q \<in> dbpos (p @ [\<not> b]) s" for q
      proof (rule Cons.prems(5))
        show "q \<in> dbpos p (fill (f # fs) g)" using that FBin by (cases b) auto
        have "prefix (p @ [\<not> b]) q" using that dbpos_sub_gpos gpos_prefix by blast
        then show "\<not> prefix (p @ cbits (f # fs)) q" using FBin by (auto simp: prefix_def)
      qed
      moreover have "ns' j = ns j" if "j \<in> set (ids s)" for j
        using that Cons.prems(4) FBin by simp
      ultimately show ?thesis using that rep_cong [of s ns' ns "p @ [\<not> b]" st' st F hs] by blast
    qed
    have sub: "rep F ns' st' (p @ [b]) hc (fill fs g')" if "rep F ns st (p @ [b]) hc (fill fs g)" for hc
    proof (rule Cons.IH [OF that])
      show "rep F ns' st' ((p @ [b]) @ cbits fs) (InMemory k) g'" using Cons.prems(2) FBin by simp
      show "st' q = st q" if "q \<in> dbpos (p @ [b]) (fill fs g)" "\<not> prefix ((p @ [b]) @ cbits fs) q" for q
        using that Cons.prems(5) [of q] FBin by (cases b) auto
    qed (use Cons.prems FBin in auto)
    show ?thesis
      using Cons.prems(1,4) FBin sib sub by (cases b) (auto simp: at_handle_def)
  next
    case (FEdge i q)
    have sub: "rep F ns' st' (p @ q) hc (fill fs g')" if "rep F ns st (p @ q) hc (fill fs g)" for hc
      by (rule Cons.IH [OF that]) (use Cons.prems FEdge in auto)
    show ?thesis using Cons.prems(1,4) FEdge sub by (auto simp: at_handle_def)
  qed
qed

lemma gpos_fill_diff:
  "gpos p (fill fs g) - gpos p (fill fs g') \<subseteq> gpos (p @ cbits fs) g - gpos (p @ cbits fs) g'"
proof (induction fs arbitrary: p)
  case (Cons f fs)
  show ?case using Cons.IH [of "p @ fbits f"] by (cases f) auto
qed simp

lemma pwf_fill_length: "pwf n (erase (fill fs g)) \<Longrightarrow> length (cbits fs) \<le> n"
proof (induction fs arbitrary: n)
  case (Cons f fs)
  show ?case
    using Cons.prems Cons.IH [of "n - length (fbits f)"] by (cases f) (auto split: if_splits)
qed simp

lemma pwf_fill_sub: "pwf n (erase (fill fs g)) \<Longrightarrow> pwf (n - length (cbits fs)) (erase g)"
proof (induction fs arbitrary: n)
  case (Cons f fs)
  show ?case
    using Cons.prems Cons.IH [of "n - length (fbits f)"] by (cases f) (auto split: if_splits)
qed simp

text \<open>An edge never hangs below a frame of an edge.\<close>

definition ends_edge :: "'f frame list \<Rightarrow> bool" where
  "ends_edge fs \<longleftrightarrow> fs \<noteq> [] \<and> (\<exists>i q. last fs = FEdge i q)"

lemma ends_edge_simps [simp]:
  "\<not> ends_edge []" "ends_edge (fs @ [FEdge i q])" "\<not> ends_edge (fs @ [FBin i b s])"
  by (simp_all add: ends_edge_def)

lemma ends_edge_Cons: "ends_edge (f # fs) \<longleftrightarrow> (if fs = [] then \<exists>i q. f = FEdge i q else ends_edge fs)"
  by (simp add: ends_edge_def)

lemma pwf_not_ends_edge: "pwf n (erase (fill fs g)) \<Longrightarrow> is_edge (erase g) \<Longrightarrow> \<not> ends_edge fs"
proof (induction fs arbitrary: n)
  case (Cons f fs)
  show ?case
    using Cons.prems Cons.IH [of "n - length (fbits f)"]
    by (cases f) (auto simp: ends_edge_Cons split: if_splits)
qed simp

lemma is_edge_fill:
  "is_edge (erase (fill fs g')) \<Longrightarrow> (is_edge (erase g') \<Longrightarrow> \<not> ends_edge (FEdge i q # fs)) \<Longrightarrow>
   fs \<noteq> [] \<and> is_edge (erase (fill fs g))"
  by (cases fs; cases "hd fs") (auto simp: ends_edge_Cons split: if_splits)

lemma pwf_fill_replace:
  "pwf n (erase (fill fs g)) \<Longrightarrow> pwf (n - length (cbits fs)) (erase g') \<Longrightarrow>
   (is_edge (erase g') \<Longrightarrow> \<not> ends_edge fs) \<Longrightarrow> pwf n (erase (fill fs g'))"
proof (induction fs arbitrary: n)
  case (Cons f fs)
  have nx: "is_edge (erase g') \<Longrightarrow> \<not> ends_edge fs" using Cons.prems(3) by (cases "fs = []") (auto simp: ends_edge_Cons)
  show ?case
  proof (cases f)
    case (FBin i b s)
    then show ?thesis using Cons.prems(1,2) Cons.IH [of "n - 1", OF _ _ nx] by (auto split: if_splits)
  next
    case (FEdge i q)
    have "\<not> is_edge (erase (fill fs g'))"
      using is_edge_fill [of fs g' i q g] Cons.prems FEdge by auto
    then show ?thesis using FEdge Cons.prems(1,2) Cons.IH [of "n - length q", OF _ _ nx] by auto
  qed
qed simp

lemma height_le: "height_of t \<le> 255"
proof -
  have "unat (max_height t) < 2 ^ LENGTH(8)" by (rule unsigned_less)
  then show ?thesis by (simp add: height_of_def)
qed

text \<open>The invariant of the whole tree after a replacement.\<close>

lemma gtree_inv_replace:
  assumes inv: "gtree_inv F db t h (fill fs g)" and k: "gid g = Some k"
    and rep: "rep F (slots t') (stored F db t') (cbits fs) (InMemory k) g'"
    and frame: "\<And>i. i \<in> set (fr_ids fs) \<Longrightarrow> slots t' i = slots t i"
    and st: "\<And>q. length q \<le> 255 \<Longrightarrow> \<not> prefix (cbits fs) q \<Longrightarrow> stored F db t' q = stored F db t q"
    and ids: "distinct (ids g')" "set (ids g') \<inter> set (fr_ids fs) = {}"
      "dom (slots t') = set (fr_ids fs) \<union> set (ids g')"
    and wf: "pwf (height_of t - length (cbits fs)) (erase g')" "is_edge (erase g') \<Longrightarrow> \<not> ends_edge fs"
    and abs: "\<And>q. length q \<le> 255 \<Longrightarrow> absent db t q \<Longrightarrow> absent db t' q"
      "\<And>q. length q \<le> 255 \<Longrightarrow> q \<in> gpos (cbits fs) g - gpos (cbits fs) g' \<Longrightarrow> absent db t' q"
    and height: "height_of t' = height_of t"
  shows "gtree_inv F db t' h (fill fs g')"
proof -
  note inv = inv [unfolded gtree_inv_def]
  note small = height_le [of t]
  have "rep F (slots t') (stored F db t') [] h (fill fs g')"
  proof (rule rep_fill_replace [of F "slots t" "stored F db t"])
    show "stored F db t' q = stored F db t q"
      if "q \<in> dbpos [] (fill fs g)" "\<not> prefix ([] @ cbits fs) q" for q
    proof (rule st)
      have "q \<in> gpos [] (fill fs g)" using that(1) dbpos_sub_gpos by blast
      then show "length q \<le> 255" using gpos_length [of "height_of t" "fill fs g" q "[]"] inv small by simp
    qed (use that in simp)
  qed (use inv rep k frame in auto)
  moreover have "distinct (ids (fill fs g'))"
    using inv ids by (auto simp: distinct_ids_fr)
  moreover have "pwf (height_of t) (erase (fill fs g'))"
    by (rule pwf_fill_replace [OF _ wf]) (use inv in blast)+
  moreover have "absent db t' q" if "length q \<le> 255" "q \<notin> gpos [] (fill fs g')" for q
  proof (cases "q \<in> gpos [] (fill fs g)")
    case True
    then have "q \<in> gpos (cbits fs) g - gpos (cbits fs) g'"
      using that(2) gpos_fill_diff [of "[]" fs g g'] by auto
    then show ?thesis by (rule abs(2) [OF that(1)])
  next
    case False
    then show ?thesis using inv that(1) by (intro abs(1)) auto
  qed
  ultimately show ?thesis
    using ids(3) height by (simp add: gtree_inv_def set_ids_fr Un_commute)
qed

section \<open>New nodes\<close>

text \<open>Insertion of nodes into the slot map only.\<close>

definition grown :: "'f merkle_tree \<Rightarrow> 'f merkle_tree \<Rightarrow> bool" where
  "grown t t' \<longleftrightarrow> t' = t\<lparr>nodes := nodes t'\<rparr> \<and> sm_wf (nodes t') \<and> slots t \<subseteq>\<^sub>m slots t'"

definition new_ids :: "'f merkle_tree \<Rightarrow> 'f merkle_tree \<Rightarrow> nat set" where
  "new_ids t t' = dom (slots t') - dom (slots t)"

lemma grown_refl: "sm_wf (nodes t) \<Longrightarrow> grown t t"
  by (simp add: grown_def)

lemma grown_trans: "grown t t' \<Longrightarrow> grown t' t'' \<Longrightarrow> grown t t''"
  by (auto simp: grown_def intro: map_le_trans) (metis merkle_tree.surjective merkle_tree.update_convs(2))

lemma grown_dom: "grown t t' \<Longrightarrow> dom (slots t') = dom (slots t) \<union> new_ids t t'"
  by (auto simp: grown_def new_ids_def map_le_def) (metis domI)

lemma new_ids_trans:
  assumes "grown t t'" "grown t' t''"
  shows "new_ids t t'' = new_ids t t' \<union> new_ids t' t''" "new_ids t t' \<inter> new_ids t' t'' = {}"
  using grown_dom [OF assms(1)] grown_dom [OF assms(2)] by (auto simp: new_ids_def)

lemma rep_mono:
  assumes "rep F ns st p h g" "ns \<subseteq>\<^sub>m ns'"
  shows "rep F ns' st p h g"
proof -
  have "ns i = ns' i" if "i \<in> set (ids g)" for i
    using that assms rep_ids_dom by (fastforce simp: map_le_def)
  then show ?thesis using assms(1) rep_cong [of g ns ns' p st st F h] by blast
qed

lemma grown_rep: "grown t t' \<Longrightarrow> rep F (slots t) st p h g \<Longrightarrow> rep F (slots t') st p h g"
  by (auto simp: grown_def intro: rep_mono)

lemma nodes_insert_grown:
  assumes "sm_wf (nodes t)"
  shows "nodes_insert n t = (sm_next (nodes t), t\<lparr>nodes := snd (sm_insert n (nodes t))\<rparr>)"
    "grown t (t\<lparr>nodes := snd (sm_insert n (nodes t))\<rparr>)"
    "new_ids t (t\<lparr>nodes := snd (sm_insert n (nodes t))\<rparr>) = {sm_next (nodes t)}"
proof -
  have fresh: "sm_next (nodes t) \<notin> dom (slots t)" using assms by (auto simp: sm_wf_def)
  have "sm_wf (snd (sm_insert n (nodes t)))"
    using sm_wf_insert [OF assms] by (metis surjective_pairing)
  then show "grown t (t\<lparr>nodes := snd (sm_insert n (nodes t))\<rparr>)"
    using fresh by (auto simp: grown_def map_le_def)
  show "new_ids t (t\<lparr>nodes := snd (sm_insert n (nodes t))\<rparr>) = {sm_next (nodes t)}"
    using fresh by (auto simp: new_ids_def)
qed (simp add: nodes_insert_def sm_insert_def)

end
