(* ===== verification/Tree_Set.thy ===== *)
theory Tree_Set
  imports Tree_Update
begin

text \<open>
  \<open>set\<close> implements insertion into the abstract trie. The three arms of the code (changing a leaf,
  the first leaf of a tree, splitting an edge) are shown to build the subtrie that the
  abstract insertion builds, at the place where the walk ended.
\<close>

section \<open>Splitting an edge\<close>

text \<open>The idiom of \<open>set\<close>: an edge unless its path is empty.\<close>

definition put_edge :: "nat \<Rightarrow> bits \<Rightarrow> 'f node_handle \<Rightarrow> 'f merkle_tree \<Rightarrow> 'f node_handle \<times> 'f merkle_tree" where
  "put_edge height path h t =
     (if path = [] then (h, t)
      else case nodes_insert (Edge \<lparr>e_hash = None, e_height = height, e_path = path, e_child = h\<rparr>) t of
             (edge_id, t) \<Rightarrow> (InMemory edge_id, t))"

lemma put_edge_ok:
  assumes wf: "sm_wf (nodes t)" and rep: "rep F (slots t) st (p @ path) h g" and dist: "distinct (ids g)"
  obtains h' t' g' where "put_edge (length p) path h t = (h', t')" "grown t t'"
    "rep F (slots t') st p h' g'" "erase g' = pedge path (erase g)"
    "gpos (p @ path) g \<subseteq> gpos p g'" "set (ids g') = set (ids g) \<union> new_ids t t'" "distinct (ids g')"
proof (cases "path = []")
  case True
  then show thesis
    using that [of h t g] assms by (simp add: put_edge_def grown_refl new_ids_def pedge_def)
next
  case False
  let ?n = "Edge \<lparr>e_hash = None, e_height = length p, e_path = path, e_child = h\<rparr>"
  let ?k = "sm_next (nodes t)" and ?t' = "t\<lparr>nodes := snd (sm_insert ?n (nodes t))\<rparr>"
  note new = nodes_insert_grown [OF wf, of ?n]
  have "?k \<notin> set (ids g)" using rep_ids_dom [OF rep] wf by (auto simp: sm_wf_def)
  then have "rep F (slots ?t') st p (InMemory ?k) (GEdge (Some ?k) path g)"
    using rep by (auto simp: at_handle_def)
  moreover have "put_edge (length p) path h t = (InMemory ?k, ?t')"
    using False new(1) by (simp add: put_edge_def)
  ultimately show thesis
    using that [of "InMemory ?k" ?t' "GEdge (Some ?k) path g"] new False dist \<open>?k \<notin> set (ids g)\<close>
    by (auto simp: pedge_def)
qed

text \<open>The binary node with the new leaf on one side and the rest of the edge on the other.\<close>

lemma split_branch:
  assumes wf: "sm_wf (nodes t)" and rep: "rep F (slots t) st (p @ [\<not> b] @ q) hc c"
    and dist: "distinct (ids c)"
  obtains hn ho t1 t2 gn go where
    "put_edge (Suc (length p)) k (Hash v) t = (hn, t1)" "put_edge (Suc (length p)) q hc t1 = (ho, t2)"
    "grown t t2" "rep F (slots t2) st (p @ [b]) hn gn" "rep F (slots t2) st (p @ [\<not> b]) ho go"
    "erase gn = pedge k (PLeaf v)" "erase go = pedge q (erase c)"
    "gpos (p @ [\<not> b] @ q) c \<subseteq> gpos (p @ [\<not> b]) go"
    "set (ids gn @ ids go) = set (ids c) \<union> new_ids t t2" "distinct (ids gn @ ids go)"
proof -
  have "rep F (slots t) st ((p @ [b]) @ k) (Hash v) (GLeaf v)" by simp
  from put_edge_ok [OF wf this]
  obtain hn t1 gn where n: "put_edge (Suc (length p)) k (Hash v) t = (hn, t1)" "grown t t1"
    "rep F (slots t1) st (p @ [b]) hn gn" "erase gn = pedge k (PLeaf v)"
    "set (ids gn) = new_ids t t1" "distinct (ids gn)"
    by auto
  have wf1: "sm_wf (nodes t1)" using n(2) by (simp add: grown_def)
  have "rep F (slots t1) st ((p @ [\<not> b]) @ q) hc c" using grown_rep [OF n(2)] rep by simp
  from put_edge_ok [OF wf1 this dist]
  obtain ho t2 go where o: "put_edge (Suc (length p)) q hc t1 = (ho, t2)" "grown t1 t2"
    "rep F (slots t2) st (p @ [\<not> b]) ho go" "erase go = pedge q (erase c)"
    "gpos ((p @ [\<not> b]) @ q) c \<subseteq> gpos (p @ [\<not> b]) go" "set (ids go) = set (ids c) \<union> new_ids t1 t2"
    "distinct (ids go)"
    by auto
  have sub: "set (ids c) \<subseteq> dom (slots t)" using rep_ids_dom [OF rep] .
  have "new_ids t t2 = new_ids t t1 \<union> new_ids t1 t2" "new_ids t t1 \<inter> set (ids c) = {}"
    "new_ids t t1 \<inter> new_ids t1 t2 = {}"
    using grown_dom [OF n(2)] grown_dom [OF o(2)] sub by (auto simp: new_ids_def)
  then show thesis
    using that [OF n(1) o(1) grown_trans [OF n(2) o(2)] grown_rep [OF o(2) n(3)] o(3) n(4) o(4)] n(5,6) o(5-7)
    by auto
qed

text \<open>The whole arm: what it allocates, and the subtrie that the slot of the edge now holds.\<close>

definition built ::
  "'f ext_ops \<Rightarrow> (bits \<rightharpoonup> 'f node) \<Rightarrow> bits \<Rightarrow> nat \<Rightarrow> 'f node slot_map \<Rightarrow> 'f node slot_map \<Rightarrow>
     'f gtree \<Rightarrow> 'f gtree \<Rightarrow> bool" where
  "built F st p k ns ns' g g' \<longleftrightarrow>
     sm_wf ns' \<and> rep F (sm_slots ns') st p (InMemory k) g' \<and> gpos p g \<subseteq> gpos p g' \<and>
     distinct (ids g') \<and> set (ids g') = set (ids g) \<union> (dom (sm_slots ns') - dom (sm_slots ns)) \<and>
     (\<forall>i \<in> dom (sm_slots ns). i \<noteq> k \<longrightarrow> sm_slots ns' i = sm_slots ns i) \<and>
     dom (sm_slots ns) \<subseteq> dom (sm_slots ns')"

lemma built_assign:
  assumes grown: "grown t t'" and k: "slots t k \<noteq> None"
    and n: "repn F (slots t') st p n g'" and g': "\<And>v. g' \<noteq> GLeaf v" "gid g' = Some k"
    and sub: "set (sub_ids g') = set (sub_ids g) \<union> new_ids t t'" "distinct (sub_ids g')" "k \<notin> set (sub_ids g)"
    and g: "ids g = k # sub_ids g" and gpos: "gpos p g \<subseteq> gpos p g'"
  shows "built F st p k (nodes t) (sm_set k n (nodes t')) g g'"
proof -
  have kd: "k \<in> dom (slots t)" "k \<in> dom (slots t')"
    using k grown_dom [OF grown] by auto
  have k': "k \<notin> set (sub_ids g')" using sub kd by (auto simp: new_ids_def)
  have wf: "sm_wf (sm_set k n (nodes t'))"
    using grown kd by (intro sm_wf_set) (auto simp: grown_def sm_get_def)
  have rep: "rep F (sm_slots (sm_set k n (nodes t'))) st p (InMemory k) g'"
    using n k' g' rep_repn [of g'] by (auto simp: at_handle_def)
  have ids': "ids g' = k # sub_ids g'" using ids_split [OF g'(1)] g'(2) by simp
  have dom: "dom (sm_slots (sm_set k n (nodes t'))) = dom (slots t) \<union> new_ids t t'"
    using grown_dom [OF grown] kd by auto
  have old: "slots t' i = slots t i" if "i \<in> dom (slots t)" for i
    using grown that by (auto simp: grown_def map_le_def)
  have "dom (sm_slots (sm_set k n (nodes t'))) - dom (slots t) = new_ids t t'"
    using dom by (auto simp: new_ids_def)
  then have "set (ids g') = set (ids g) \<union> (dom (sm_slots (sm_set k n (nodes t'))) - dom (slots t))"
    using ids' g sub by auto
  then show ?thesis
    unfolding built_def using wf rep ids' sub k' gpos old dom by (simp add: Un_upper1)
qed

lemma common_len_split [simp]: "common_len (c @ b # x) (c @ (\<not> b) # y) = length c"
  by (induction c) auto

lemma set_edge_run:
  assumes e: "e_height e = length p" "e_path e = c1 @ (\<not> b) # q1" and key: "key = p @ c1 @ b # k1"
    and n: "put_edge (Suc (length (p @ c1))) k1 (Hash v) (cache_insert (bitslice_to_bytes off key) (Insert v) t) = (hn, t1)"
    and o: "put_edge (Suc (length (p @ c1))) q1 (e_child e) t1 = (ho, t2)"
    and branch: "branch = Binary \<lparr>b_hash = None, b_height = length (p @ c1),
      b_left = (if b then ho else hn), b_right = (if b then hn else ho)\<rparr>"
    and last: "(new_node, t3) = (if c1 = [] then (branch, t2)
      else case nodes_insert branch t2 of (i, t) \<Rightarrow>
        (Edge \<lparr>e_hash = None, e_height = length p, e_path = c1, e_child = InMemory i\<rparr>, t))"
  shows "set_edge off key v k e t =
    nodes_assign k new_node (death_row_insert (Trie (bitslice_to_bytes off p)) t3)"
proof -
  have common: "common_path e key = c1" using e key by (simp add: common_path_def Let_def)
  show ?thesis
    using e key common n o last branch
    unfolding set_edge_def put_edge_def [symmetric]
    by (cases b; cases "c1 = []")
      (simp_all add: Let_def slice_from_def slice_to_def index_def bindS_def
        direction_of_bool_def nth_append split: prod.splits)
qed

lemma cache_insert_nodes: "(cache_insert k v t)\<lparr>nodes := ns\<rparr> = cache_insert k v (t\<lparr>nodes := ns\<rparr>)"
  by (simp add: cache_insert_def)

lemma death_row_insert_nodes: "(death_row_insert d t)\<lparr>nodes := ns\<rparr> = death_row_insert d (t\<lparr>nodes := ns\<rparr>)"
  by (simp add: death_row_insert_def)

lemma set_edge_split:
  assumes k: "slots t k \<noteq> None" and wf: "sm_wf (nodes t)"
    and e: "e_height e = length p" "e_path e = c1 @ (\<not> b) # q1" and key: "key = p @ c1 @ b # k1"
    and rep: "rep F (slots t) st (p @ e_path e) (e_child e) c" and ids: "distinct (ids c)" "k \<notin> set (ids c)"
  obtains ns g' where "set_edge off key v k e t = (Inr (), death_row_insert (Trie (bitslice_to_bytes off p))
      (cache_insert (bitslice_to_bytes off key) (Insert v) (t\<lparr>nodes := ns\<rparr>)))"
    "built F st p k (nodes t) ns (GEdge (Some k) (e_path e) c) g'"
    "erase g' = psplit (length c1) (c1 @ b # k1) v (e_path e) (erase c)"
proof -
  let ?t0 = "cache_insert (bitslice_to_bytes off key) (Insert v) t"
  have wf0: "sm_wf (nodes ?t0)" and rep0: "rep F (slots ?t0) st ((p @ c1) @ [\<not> b] @ q1) (e_child e) c"
    using rep e(2) wf by simp_all
  obtain hn ho t1 t2 gn go where
    run: "put_edge (Suc (length (p @ c1))) k1 (Hash v) ?t0 = (hn, t1)"
      "put_edge (Suc (length (p @ c1))) q1 (e_child e) t1 = (ho, t2)"
    and grown: "grown ?t0 t2" and n: "rep F (slots t2) st ((p @ c1) @ [b]) hn gn"
    and o: "rep F (slots t2) st ((p @ c1) @ [\<not> b]) ho go"
    and er: "erase gn = pedge k1 (PLeaf v)" "erase go = pedge q1 (erase c)"
    and pos: "gpos ((p @ c1) @ [\<not> b] @ q1) c \<subseteq> gpos ((p @ c1) @ [\<not> b]) go"
    and new: "set (ids gn @ ids go) = set (ids c) \<union> new_ids ?t0 t2" "distinct (ids gn @ ids go)"
    by (rule split_branch [OF wf0 rep0 ids(1)])
  let ?b = "\<lparr>b_hash = None, b_height = length (p @ c1), b_left = (if b then ho else hn),
    b_right = (if b then hn else ho)\<rparr>"
  let ?gb = "\<lambda>i. if b then GBin i go gn else GBin i gn go"
  have branch: "repn F (slots t2) st (p @ c1) (Binary ?b) (?gb i)" for i
    using n o by (cases b) auto
  have psp: "erase (GEdge i c1 (?gb j)) = psplit (length c1) (c1 @ b # k1) v (e_path e) (erase c)"
    if "c1 \<noteq> []" for i j
    using that er e(2) by (simp add: psplit_def pedge_def Let_def)
  note finish = that
  have fin: "thesis" if last: "(nn, t3) = (if c1 = [] then (Binary ?b, t2)
      else case nodes_insert (Binary ?b) t2 of (i, t) \<Rightarrow>
        (Edge \<lparr>e_hash = None, e_height = length p, e_path = c1, e_child = InMemory i\<rparr>, t))"
    and t3: "grown ?t0 t3" and repn: "repn F (slots t3) st p nn g'" and g': "gid g' = Some k"
    and sub: "set (sub_ids g') = set (ids c) \<union> new_ids ?t0 t3" "distinct (sub_ids g')"
    and gpos: "gpos p (GEdge (Some k) (e_path e) c) \<subseteq> gpos p g'"
    and er: "erase g' = psplit (length c1) (c1 @ b # k1) v (e_path e) (erase c)" for nn t3 g'
  proof (rule finish [OF _ _ er])
    have kt: "slots t3 k \<noteq> None" using t3 k by (auto simp: grown_def map_le_def) (metis domI)
    obtain ns3 where ns3: "ns3 = nodes t3" by simp
    then have t3_eq: "t3 = cache_insert (bitslice_to_bytes off key) (Insert v) (t\<lparr>nodes := ns3\<rparr>)"
      using t3 unfolding grown_def cache_insert_nodes by blast
    show "set_edge off key v k e t = (Inr (), death_row_insert (Trie (bitslice_to_bytes off p))
      (cache_insert (bitslice_to_bytes off key) (Insert v) (t\<lparr>nodes := sm_set k nn (nodes t3)\<rparr>)))"
      using set_edge_run [OF e key run refl last, of k] kt
      unfolding t3_eq
      by (auto simp: nodes_assign_def sm_get_def death_row_insert_nodes cache_insert_nodes)
    show "built F st p k (nodes t) (sm_set k nn (nodes t3)) (GEdge (Some k) (e_path e) c) g'"
      using built_assign [OF t3 _ repn, of k "GEdge (Some k) (e_path e) c"] repn_not_leaf [OF repn]
        k g' sub gpos ids by simp
  qed
  show thesis
  proof (cases "c1 = []")
    case True
    show thesis
      by (rule fin [of "Binary ?b" t2 "?gb (Some k)"])
        (use True branch grown new pos er e(2) in \<open>auto simp: psplit_def pedge_def Let_def\<close>)
  next
    case False
    let ?i = "sm_next (nodes t2)" and ?t3 = "t2\<lparr>nodes := snd (sm_insert (Binary ?b) (nodes t2))\<rparr>"
    have wf2: "sm_wf (nodes t2)" using grown by (simp add: grown_def)
    note ins = nodes_insert_grown [OF wf2, of "Binary ?b"]
    have t3: "grown ?t0 ?t3" by (rule grown_trans [OF grown ins(2)])
    have new3: "new_ids ?t0 ?t3 = insert ?i (new_ids ?t0 t2)"
      using new_ids_trans(1) [OF grown ins(2)] ins(3) by simp
    have i: "?i \<notin> set (ids gn @ ids go)"
      using rep_ids_dom [OF n] rep_ids_dom [OF o] wf2 by (auto simp: sm_wf_def)
    then have "repn F (slots ?t3) st (p @ c1) (Binary ?b) (?gb (Some ?i))"
      using branch [of "Some ?i"] by (cases b) auto
    then have "rep F (slots ?t3) st (p @ c1) (InMemory ?i) (?gb (Some ?i))"
      by (cases b) (auto simp: at_handle_def)
    then show thesis
      using False ins(1) new3 i new pos e(2)
      by (intro fin [OF _ t3 _ _ _ _ _ psp [OF False]]) auto
  qed
qed

section \<open>The arms of \<open>set\<close>\<close>

lemma built_same:
  assumes wf: "sm_wf (nodes t)" and k: "slots t k \<noteq> None" and n: "repn F (slots t) st p n g'"
    and g: "ids g = k # sub_ids g" "distinct (ids g)" "sub_ids g' = sub_ids g" "gid g' = Some k"
      "gpos p g = gpos p g'"
  shows "built F st p k (nodes t) (sm_set k n (nodes t)) g g'"
  using assms repn_not_leaf [OF n]
  by (intro built_assign [where t' = t, OF grown_refl]) (auto simp: new_ids_def)

text \<open>The depth of the edge that a key runs into and leaves in its middle: the one that \<open>set\<close> splits.\<close>

fun split_depth :: "'f ptree \<Rightarrow> bits \<Rightarrow> nat option" where
  "split_depth (PLeaf v) k = None"
| "split_depth (PBin l r) k = (case k of [] \<Rightarrow> None | b # k' \<Rightarrow> map_option Suc (split_depth (if b then r else l) k'))"
| "split_depth (PEdge q c) k =
     (if prefix q k then map_option ((+) (length q)) (split_depth c (drop (length q) k)) else Some 0)"

lemma split_depth_absent: "split_depth p k = Some n \<Longrightarrow> plookup p k = None"
  by (induction p arbitrary: k n) (auto split: list.splits if_splits)

lemma split_depth_fill:
  "split_depth (erase (fill fs g)) (cbits fs @ kr) = map_option ((+) (length (cbits fs))) (split_depth (erase g) kr)"
proof (induction fs)
  case Nil
  then show ?case by (simp add: option.map_ident_strong)
next
  case (Cons f fs)
  then show ?case by (cases f) (auto simp: option.map_comp comp_def add.assoc)
qed

lemma split_depth_stuck: "stuck g kr \<Longrightarrow> split_depth (erase g) kr = Some n \<Longrightarrow> n = 0"
  by (cases g) (auto split: if_splits list.splits)

text \<open>What an arm of \<open>set\<close> does to the tree that the walk opened at \<open>g\<close>.\<close>

definition arm_ok ::
  "nat \<Rightarrow> 'f ext_ops \<Rightarrow> (bits \<rightharpoonup> 'f node) \<Rightarrow> bits \<Rightarrow> nat \<Rightarrow> bits \<Rightarrow> 'f \<Rightarrow> 'f gtree \<Rightarrow> bits \<Rightarrow>
     'f merkle_tree \<Rightarrow> 'f merkle_tree \<Rightarrow> bool" where
  "arm_ok off F st p k key v g kr t t' \<longleftrightarrow>
     (\<exists>ns g' t1. t1 = cache_insert (bitslice_to_bytes off key) (Insert v) (t\<lparr>nodes := ns\<rparr>) \<and>
        t' = (if split_depth (erase g) kr = None then t1 else death_row_insert (Trie (bitslice_to_bytes off p)) t1) \<and>
        built F st p k (nodes t) ns g g' \<and> erase g' = pinsert kr v (erase g))"

lemma arm_okI:
  "built F st p k (nodes t) ns g g' \<Longrightarrow> erase g' = pinsert kr v (erase g) \<Longrightarrow>
   t1 = cache_insert (bitslice_to_bytes off key) (Insert v) (t\<lparr>nodes := ns\<rparr>) \<Longrightarrow>
   t' = (if split_depth (erase g) kr = None then t1 else death_row_insert (Trie (bitslice_to_bytes off p)) t1) \<Longrightarrow>
   arm_ok off F st p k key v g kr t t'"
  unfolding arm_ok_def by blast

lemma set_edge_ok:
  assumes stuck: "stuck (GEdge (Some k) q c) kr" and key: "key = p @ kr" "length q \<le> length kr"
    and rep: "rep F (slots t) st p (InMemory k) (GEdge (Some k) q c)" and wf: "sm_wf (nodes t)"
    and ids: "distinct (ids (GEdge (Some k) q c))" and e: "slots t k = Some (Edge e)"
  shows "\<exists>t'. set_edge off key v k e t = (Inr () :: ('e, unit) outcome, t') \<and> arm_ok off F st p k key v (GEdge (Some k) q c) kr t t'"
proof (cases "prefix q kr")
  case True
  then obtain v0 where kr: "kr = q" "c = GLeaf v0" using stuck by auto
  have e': "e_height e = length p" "e_path e = q" using rep e by (auto simp: at_handle_def)
  have common: "common_path e key = q"
    using e' key kr by (simp add: common_path_def common_len_prefix [THEN iffD2] Let_def)
  let ?n = "Edge (e\<lparr>e_child := Hash v\<rparr>)"
  have "built F st p k (nodes t) (sm_set k ?n (nodes t)) (GEdge (Some k) q c) (GEdge (Some k) q (GLeaf v))"
    using wf e e' ids kr by (intro built_same) auto
  moreover have "set_edge off key v k e t =
      (Inr (), cache_insert (bitslice_to_bytes off key) (Insert v) (t\<lparr>nodes := sm_set k ?n (nodes t)\<rparr>))"
    using common e' e key kr
    by (simp add: set_edge_def Let_def nodes_assign_def sm_get_def cache_insert_nodes)
  ultimately show ?thesis unfolding arm_ok_def using kr by fastforce
next
  case False
  from False key(2) obtain c1 b k1 q1 where kr: "kr = c1 @ b # k1" and q: "q = c1 @ (\<not> b) # q1"
    and n: "length c1 = common_len kr q" by (rule not_prefix_split)
  have e': "e_height e = length p" "e_path e = c1 @ (\<not> b) # q1" using rep e q by (auto simp: at_handle_def)
  have repc: "rep F (slots t) st (p @ e_path e) (e_child e) c" using rep e by (auto simp: at_handle_def)
  have k: "slots t k \<noteq> None" "distinct (ids c)" "k \<notin> set (ids c)" using e ids by auto
  have key': "key = p @ c1 @ b # k1" using key kr by simp
  obtain ns g' where run: "set_edge off key v k e t = (Inr () :: ('e, unit) outcome, death_row_insert (Trie (bitslice_to_bytes off p))
      (cache_insert (bitslice_to_bytes off key) (Insert v) (t\<lparr>nodes := ns\<rparr>)))"
    and built: "built F st p k (nodes t) ns (GEdge (Some k) (e_path e) c) g'"
    and er: "erase g' = psplit (length c1) (c1 @ b # k1) v (e_path e) (erase c)"
    by (rule set_edge_split [OF k(1) wf e' key' repc k(2,3)])
  have "erase g' = pinsert kr v (erase (GEdge (Some k) q c))"
    using False n [symmetric] by (simp add: er e'(2) q [symmetric] kr [symmetric])
  from arm_okI [OF built [unfolded e'(2) q [symmetric]] this refl refl, of off key]
  show ?thesis using run False by (intro exI [of _ "death_row_insert _ _"] conjI) simp_all
qed

lemma set_binary_ok:
  assumes stuck: "stuck (GBin (Some k) l r) kr" and key: "key = p @ kr"
    and rep: "rep F (slots t) st p (InMemory k) (GBin (Some k) l r)" and wf: "sm_wf (nodes t)"
    and ids: "distinct (ids (GBin (Some k) l r))" and b: "slots t k = Some (Binary bn)"
  shows "\<exists>t'. set_binary off key v k bn t = (Inr (), t') \<and> arm_ok off F st p k key v (GBin (Some k) l r) kr t t'"
proof -
  obtain x v0 where kr: "kr = [x]" "(if x then r else l) = GLeaf v0" using stuck by auto
  have bh: "b_height bn = length p" using rep b by (auto simp: at_handle_def)
  let ?n = "Binary (set_child bn (direction_of_bool x) (Hash v))"
  let ?g' = "if x then GBin (Some k) l (GLeaf v) else GBin (Some k) (GLeaf v) r"
  have "repn F (slots t) st p ?n ?g'"
    using rep b bh by (cases x) (auto simp: at_handle_def)
  then have "built F st p k (nodes t) (sm_set k ?n (nodes t)) (GBin (Some k) l r) ?g'"
    using wf b ids kr by (intro built_same) (auto split: if_splits)
  moreover have "set_binary off key v k bn t =
      (Inr (), cache_insert (bitslice_to_bytes off key) (Insert v) (t\<lparr>nodes := sm_set k ?n (nodes t)\<rparr>))"
    using bh b key kr
    by (simp add: set_binary_def Let_def nodes_assign_def sm_get_def cache_insert_nodes bindS_def nth_append)
  moreover have "erase ?g' = pinsert kr v (erase (GBin (Some k) l r))"
    using kr by (cases x) auto
  moreover have "split_depth (erase (GBin (Some k) l r)) kr = None" using kr by (cases x) auto
  ultimately show ?thesis by (intro exI [of _ "cache_insert _ _ _"] conjI arm_okI) simp_all
qed

section \<open>The tree after an arm\<close>

lemma pinsert_fill:
  "erase g' = pinsert kr v (erase g) \<Longrightarrow>
   erase (fill fs g') = pinsert (cbits fs @ kr) v (erase (fill fs g))"
proof (induction fs)
  case (Cons f fs)
  then show ?case by (cases f) auto
qed simp

lemma own_pos_not_db:
  "gid g \<noteq> None \<Longrightarrow> pwf n (erase g) \<Longrightarrow> p \<notin> dbpos p g"
  using dbpos_sub_gpos gpos_prefix by (cases g) fastforce+

lemma rep_InMemory_gid: "rep F ns st p (InMemory k) g \<Longrightarrow> gid g = Some k"
  by (cases g) (auto simp: at_handle_def split: option.splits)

text \<open>The key that \<open>set\<close> puts on the death row hides no other node of the tree.\<close>

lemma death_key_clear:
  assumes clear: "key_clear off t key" and key: "key = p @ kr" "kr \<noteq> []" "length key \<le> 255"
    and q: "length q \<le> 255" "q \<noteq> p"
  shows "branch_key (tree_ident t) q \<noteq> Trie (bitslice_to_bytes off p)"
proof
  assume eq: "branch_key (tree_ident t) q = Trie (bitslice_to_bytes off p)"
  have "length p < length key" "take (length p) key = p" using key(1,2) by simp_all
  then have "q = p" using clear eq q(1) unfolding key_clear_def by (metis trie_key.inject(1) trie_key_new_simps(1))
  then show False using q(2) by simp
qed

lemma view_cache [simp]:
  "stored F db (cache_insert k x t) = stored F db t" "absent db (cache_insert k x t) = absent db t"
  "height_of (cache_insert k x t) = height_of t" "height_of (death_row_insert d t) = height_of t"
  by (simp_all add: stored_def absent_def height_of_def fun_eq_iff)

lemma view_death_row:
  "branch_key (tree_ident t) q \<noteq> d \<Longrightarrow> stored F db (death_row_insert d t) q = stored F db t q"
  "absent db t q \<Longrightarrow> absent db (death_row_insert d t) q"
  by (auto simp: stored_def absent_def Let_def)

lemma set_arm_inv:
  assumes op: "opened F db t pt key hs fs g kr" and k: "gid g = Some k"
    and arm: "arm_ok off F (stored F db t) (cbits fs) k key v g kr t t'"
    and key: "length key = height_of t" "kr \<noteq> []" and clear: "key_clear off t key"
  shows "\<exists>r g'. root_node t' = Some (Loaded r) \<and> sm_wf (nodes t') \<and>
    gtree_inv F db t' (InMemory r) (fill fs g') \<and> erase (fill fs g') = pinsert key v pt"
proof -
  from arm obtain ns g' t1 where t1: "t1 = cache_insert (bitslice_to_bytes off key) (Insert v) (t\<lparr>nodes := ns\<rparr>)"
    and t': "t' = (if split_depth (erase g) kr = None then t1 else death_row_insert (Trie (bitslice_to_bytes off (cbits fs))) t1)"
    and built: "built F (stored F db t) (cbits fs) k (nodes t) ns g g'"
    and er: "erase g' = pinsert kr v (erase g)"
    unfolding arm_ok_def by blast
  have t': "t' = t1 \<or> t' = death_row_insert (Trie (bitslice_to_bytes off (cbits fs))) t1" using t' by simp
  note op = op [unfolded opened_def]
  note built = built [unfolded built_def]
  obtain r where root: "root_node t = Some (Loaded r)" and inv: "gtree_inv F db t (InMemory r) (fill fs g)"
    using op by blast
  have key_eq: "key = cbits fs @ kr" using op by blast
  have slots': "nodes t' = ns" "height_of t' = height_of t" "root_node t' = Some (Loaded r)"
    using t' t1 root by auto
  have small: "length key \<le> 255" using key(1) height_le [of t] by simp
  have st: "stored F db t' q = stored F db t q" if "length q \<le> 255" "q \<noteq> cbits fs" for q
    using t' t1 view_death_row(1) [OF death_key_clear [of off t1 key "cbits fs" kr q]] that small key_eq key(2) clear
    by (auto simp: key_clear_def)
  have wf: "pwf (height_of t - length (cbits fs)) (erase g')"
    unfolding er using inv key key_eq pwf_fill_sub
    by (intro pwf_pinsert) (auto simp: gtree_inv_def)
  have rep: "rep F (sm_slots ns) (stored F db t') (cbits fs) (InMemory k) g'"
  proof -
    have "stored F db t q = stored F db t' q" if "q \<in> dbpos (cbits fs) g'" for q
    proof -
      have "length q < length (cbits fs) + (height_of t - length (cbits fs))"
        using that wf dbpos_sub_gpos gpos_length by blast
      then have "length q \<le> 255" using small key key_eq by simp
      moreover have "q \<noteq> cbits fs"
        using that own_pos_not_db [OF _ wf] rep_InMemory_gid built by (metis option.distinct(1))
      ultimately show ?thesis using st by simp
    qed
    then show ?thesis
      using built rep_cong [of g' "sm_slots ns" "sm_slots ns" "cbits fs" "stored F db t" "stored F db t'"] by blast
  qed
  have ids: "set (ids (fill fs g)) = dom (slots t)" "set (fr_ids fs) \<inter> set (ids g) = {}"
    using inv by (auto simp: gtree_inv_def distinct_ids_fr)
  have k_g: "k \<in> set (ids g)" using k by (cases g) auto
  have "gtree_inv F db t' (InMemory r) (fill fs g')"
  proof (rule gtree_inv_replace [OF inv k])
    show "rep F (slots t') (stored F db t') (cbits fs) (InMemory k) g'" using rep slots' by simp
    show "slots t' i = slots t i" if "i \<in> set (fr_ids fs)" for i
    proof -
      have "i \<in> dom (slots t)" "i \<noteq> k" using that ids k_g set_ids_fr [of fs g] by blast+
      then show ?thesis using built slots'(1) by blast
    qed
    show "stored F db t' q = stored F db t q" if "length q \<le> 255" "\<not> prefix (cbits fs) q" for q
      using that by (intro st) auto
    show "distinct (ids g')" using built by blast
    show "set (ids g') \<inter> set (fr_ids fs) = {}" using built ids set_ids_fr [of fs g] by auto
    show "dom (slots t') = set (fr_ids fs) \<union> set (ids g')"
      using built ids set_ids_fr [of fs g] slots'(1) by blast
    show "\<not> ends_edge fs" if "is_edge (erase g')"
      using that er is_edge_pinsert pwf_not_ends_edge inv by (metis gtree_inv_def)
    show "absent db t' q" if "absent db t q" for q
      using that t' t1 view_death_row(2) [of db t1 q] by auto
    show "absent db t' q" if "q \<in> gpos (cbits fs) g - gpos (cbits fs) g'" for q
      using that built by blast
  qed (use wf slots' in auto)
  then show ?thesis
    using pinsert_fill [OF er, of fs] op key_eq slots' built by (intro exI [of _ r] exI [of _ g']) auto
qed

section \<open>\<open>set\<close>\<close>

text \<open>
  Two early returns of \<open>set\<close> leave the tree as it is although the key changes: a second \<open>set\<close>
  of a key between two commits only updates the leaf cache, and a removed key that is set to
  the value still in the database is not put back. This says that neither happens.
\<close>

definition set_pre :: "nat \<Rightarrow> 'f ext_ops \<Rightarrow> 'e db_view \<Rightarrow> 'f merkle_tree \<Rightarrow> bits \<Rightarrow> 'f \<Rightarrow> bool" where
  "set_pre off F db t key v \<longleftrightarrow>
     (case hm_get (cache_leaf_modified t) (bitslice_to_bytes off key) of
        None \<Rightarrow> True
      | Some (Insert w) \<Rightarrow> w = v
      | Some Remove \<Rightarrow> (case read_flat off F db t key of Inl _ \<Rightarrow> True | Inr w \<Rightarrow> w \<noteq> Some v))"

lemma tree_inv_wf: "tree_inv F db t pt \<Longrightarrow> trie_wf (height_of t) pt"
  by (auto simp: tree_inv_def trie_wf_def gtree_inv_def split: option.splits)

lemma trie_insert_same:
  assumes "trie_wf n pt" "length k = n" "trie_lookup pt k = Some v"
  shows "trie_insert k v pt = pt"
  using assms by (intro trie_unique [of n]) (auto simp: trie_wf_insert trie_lookup_insert)

lemma leaf_inv_insert:
  assumes inv: "leaf_inv off F db t pt" "trie_wf (height_of t) pt" and key: "length key = height_of t"
    and t': "tree_ident t' = tree_ident t" "height_of t' = height_of t"
      "cache_leaf_modified t' = hm_insert (bitslice_to_bytes off key) (Insert v) (cache_leaf_modified t)"
  shows "leaf_inv off F db t' (trie_insert key v pt)"
proof -
  have "tree_get off F db t' k = Inr (trie_lookup (trie_insert key v pt) k)" if "length k = height_of t" for k
  proof -
    have "bitslice_to_bytes off k = bitslice_to_bytes off key \<longleftrightarrow> k = key"
      using bitslice_to_bytes_inj [of k key] that key height_le [of t] by auto
    then show ?thesis
      using inv(1) that trie_lookup_insert [OF inv(2) key that, of v]
      unfolding leaf_inv_def tree_get_def t' by (auto simp: hm_get_insert)
  qed
  then show ?thesis using inv t' by (auto simp: leaf_inv_def read_flat_def)
qed

lemma leaf_inv_cong:
  "leaf_inv off F db t pt \<Longrightarrow> tree_ident t' = tree_ident t \<Longrightarrow> height_of t' = height_of t \<Longrightarrow>
   cache_leaf_modified t' = cache_leaf_modified t \<Longrightarrow> leaf_inv off F db t' pt"
  unfolding leaf_inv_def read_flat_def tree_get_def by metis

lemma tree_inv_cache [simp]: "tree_inv F db (cache_insert k x t) pt = tree_inv F db t pt"
proof -
  have "gtree_inv F db (cache_insert k x t) h g = gtree_inv F db t h g"
    "root_matches (cache_insert k x t) h = root_matches t h"
    "empty_inv db (cache_insert k x t) = empty_inv db t" for h g
    by (simp_all add: gtree_inv_def root_matches_def empty_inv_def)
  then show ?thesis by (cases pt) (simp_all add: tree_inv_def)
qed

lemma set_empty_ok:
  assumes inv: "tree_inv F db t None" and key: "length key = height_of t"
  shows "\<exists>t'. set_empty off key v t = (Inr (), t') \<and> tree_inv F db t' (trie_insert key v None) \<and>
    tree_ident t' = tree_ident t \<and> height_of t' = height_of t \<and>
    cache_leaf_modified t' = hm_insert (bitslice_to_bytes off key) (Insert v) (cache_leaf_modified t)"
proof -
  let ?n = "Edge \<lparr>e_hash = None, e_height = 0, e_path = key, e_child = Hash v\<rparr>"
  let ?k = "sm_next (nodes t)" and ?ns = "snd (sm_insert ?n (nodes t))"
  let ?t' = "cache_insert (bitslice_to_bytes off key) (Insert v) (t\<lparr>nodes := ?ns, root_node := Some (Loaded ?k)\<rparr>)"
  have wf: "sm_wf (nodes t)" and emp: "slots t = Map.empty" "\<And>p. length p \<le> 255 \<Longrightarrow> absent db t p"
    and pos: "0 < height_of t" "db_total db" "set (death_row t) \<subseteq> range Trie"
    using inv by (auto simp: tree_inv_def empty_inv_def)
  have "gtree_inv F db ?t' (InMemory ?k) (GEdge (Some ?k) key (GLeaf v))"
    using emp key pos by (auto simp: gtree_inv_def at_handle_def)
  moreover have "sm_wf ?ns" using sm_wf_insert [OF wf] by (metis surjective_pairing)
  ultimately have "tree_inv F db ?t' (trie_insert key v None)"
    using pos
    by (auto simp: tree_inv_def trie_insert_def root_matches_def
        intro!: exI [of _ "GEdge (Some ?k) key (GLeaf v)"])
  moreover have "set_empty off key v t = (Inr (), ?t')"
    using nodes_insert_grown(1) [OF wf] by (simp add: set_empty_def)
  moreover have "height_of ?t' = height_of t" by (simp add: height_of_def)
  ultimately show ?thesis by (intro exI [of _ ?t']) simp
qed

text \<open>The walk followed by the arm that it selects.\<close>

definition set_walk :: "nat \<Rightarrow> 'f ext_ops \<Rightarrow> nat \<Rightarrow> 'e db_view \<Rightarrow> bits \<Rightarrow> 'f \<Rightarrow> ('f, 'e, unit) tree_action" where
  "set_walk off F fuel db key value =
     bindS (seek_path F fuel db key) (\<lambda>path_nodes.
       if path_nodes = [] then set_empty off key value
       else case last path_nodes of (node_id, _) \<Rightarrow>
         bindS (get_node_mut node_id) (\<lambda>node.
           case node of
             Edge edge \<Rightarrow> set_edge off key value node_id edge
           | Binary binary \<Rightarrow> set_binary off key value node_id binary))"

lemma set_walk_run:
  fixes db :: "'e db_view"
  assumes inv: "tree_inv F db t (Some p)" and key: "length key = height_of t" "height_of t \<le> fuel"
  obtains t1 ns r hs fs g kr k t' where "set_walk off F fuel db key v t = (Inr () :: ('e, unit) outcome, t')"
    "t1 = t\<lparr>nodes := ns, root_node := Some (Loaded r)\<rparr>" "opened F db t1 p key hs fs g kr" "gid g = Some k" "kr \<noteq> []"
    "arm_ok off F (stored F db t1) (cbits fs) k key v g kr t1 t'"
proof -
  obtain hs ns r fs g kr where seek: "seek_path F fuel db key t =
      (Inr hs, t\<lparr>nodes := ns, root_node := Some (Loaded r)\<rparr>)"
    and op: "opened F db (t\<lparr>nodes := ns, root_node := Some (Loaded r)\<rparr>) p key hs fs g kr"
    by (rule seek_path_Some [OF inv key])
  let ?t1 = "t\<lparr>nodes := ns, root_node := Some (Loaded r)\<rparr>"
  let ?arm = "\<lambda>k n. case n of Edge edge \<Rightarrow> set_edge off key v k edge | Binary bn \<Rightarrow> set_binary off key v k bn"
  note op' = op [unfolded opened_def]
  obtain k where k: "gid g = Some k" using op' by auto
  have ginv: "gtree_inv F db ?t1 (InMemory r) (fill fs g)" using op' by auto
  have len: "length kr = height_of t - length (cbits fs)" using op' key(1) by auto
  have pwf_g: "pwf (length kr) (erase g)"
    unfolding len using ginv pwf_fill_sub [of "height_of t" fs g] by (simp add: gtree_inv_def)
  have kr: "kr \<noteq> []" using op' pwf_leaf [OF pwf_g] by (cases g) auto
  obtain h where "rep F (slots ?t1) (stored F db ?t1) (cbits fs) h g"
    using ginv rep_fill [of F "slots ?t1" "stored F db ?t1" "[]" "InMemory r" fs g] by (auto simp: gtree_inv_def)
  moreover from this have "h = InMemory k" using k by (cases g) (auto simp: at_handle_def)
  ultimately have rep: "rep F (slots ?t1) (stored F db ?t1) (cbits fs) (InMemory k) g" by simp
  have dist: "distinct (ids g)" and wf: "sm_wf (nodes ?t1)"
    using ginv op' by (auto simp: gtree_inv_def distinct_ids_fr)
  obtain n where n: "slots ?t1 k = Some n" using rep k by (cases g) (auto simp: at_handle_def)
  have "\<exists>t'. ?arm k n ?t1 = (Inr () :: ('e, unit) outcome, t') \<and> arm_ok off F (stored F db ?t1) (cbits fs) k key v g kr ?t1 t'"
  proof (cases g)
    case (GBin i l r')
    then obtain bn where "n = Binary bn" using rep k n by (auto simp: at_handle_def)
    then show ?thesis
      using set_binary_ok [of k l r' kr key "cbits fs" F ?t1 "stored F db ?t1" bn off v] op' rep wf dist n GBin k by auto
  next
    case (GEdge i q c)
    then obtain e where e: "n = Edge e" using rep k n by (auto simp: at_handle_def)
    have "length q \<le> length kr" using pwf_g GEdge by simp
    then show ?thesis
      using set_edge_ok [of k q c kr key "cbits fs" F ?t1 "stored F db ?t1" e off v] op' rep wf dist n e GEdge k by auto
  qed (use k in simp)
  then obtain t' where run: "?arm k n ?t1 = (Inr () :: ('e, unit) outcome, t')"
    and arm: "arm_ok off F (stored F db ?t1) (cbits fs) k key v g kr ?t1 t'" by blast
  have hs: "map fst hs = map fid fs @ [k]" using op' k by auto
  then have ne: "hs \<noteq> []" by auto
  then have "fst (last hs) = k" using hs last_map [of hs fst] by simp
  then obtain h' where "last hs = (k, h')" by (cases "last hs") simp
  then have "set_walk off F fuel db key v t = (Inr (), t')"
    using run seek n ne by (simp add: set_walk_def bindS_def get_node_mut_def sm_get_def)
  then show thesis by (rule that [OF _ refl op k kr arm])
qed

lemma set_walk_ok:
  fixes db :: "'e db_view"
  assumes inv: "tree_inv F db t pt" and key: "length key = height_of t" "height_of t \<le> fuel"
    and clear: "key_clear off t key"
  shows "\<exists>t'. set_walk off F fuel db key v t = (Inr (), t') \<and> tree_inv F db t' (trie_insert key v pt) \<and>
    tree_ident t' = tree_ident t \<and> height_of t' = height_of t \<and>
    cache_leaf_modified t' = hm_insert (bitslice_to_bytes off key) (Insert v) (cache_leaf_modified t)"
proof (cases pt)
  case None
  let ?t0 = "t\<lparr>root_node := Some Empty\<rparr>"
  have "tree_inv F db ?t0 None" using inv None by (simp add: tree_inv_def empty_inv_def)
  from set_empty_ok [OF this, of key off v] show ?thesis
    using seek_path_None [of F db t key fuel] inv key(1) None by (simp add: set_walk_def bindS_def)
next
  case (Some p)
  obtain t1 ns r hs fs g kr k t' where run: "set_walk off F fuel db key v t = (Inr () :: ('e, unit) outcome, t')"
    and t1: "t1 = t\<lparr>nodes := ns, root_node := Some (Loaded r)\<rparr>" and op: "opened F db t1 p key hs fs g kr"
    and k: "gid g = Some k" "kr \<noteq> []" and arm: "arm_ok off F (stored F db t1) (cbits fs) k key v g kr t1 t'"
    by (rule set_walk_run [OF inv [unfolded Some] key])
  have pos: "0 < height_of t" "db_total db" "set (death_row t) \<subseteq> range Trie"
    using inv by (auto simp: tree_inv_def)
  have key1: "length key = height_of t1" "key_clear off t1 key" using key clear t1 by (auto simp: key_clear_def)
  have "tree_ident t' = tree_ident t" "height_of t' = height_of t"
    "cache_leaf_modified t' = hm_insert (bitslice_to_bytes off key) (Insert v) (cache_leaf_modified t)"
    "set (death_row t') \<subseteq> range Trie"
    using arm t1 pos(3) by (auto simp: arm_ok_def split: if_splits)
  moreover from this have "tree_inv F db t' (trie_insert key v pt)"
    using set_arm_inv [OF op k(1) arm key1(1) k(2) key1(2)] pos Some
    by (auto simp: tree_inv_def trie_insert_def root_matches_def)
  ultimately show ?thesis using run by blast
qed

text \<open>The refinement of insertion.\<close>

lemma tree_set_insert:
  assumes inv: "tree_inv F db t pt" "leaf_inv off F db t pt"
    and key: "length key = height_of t" "height_of t \<le> fuel" "key_clear off t key"
    and v: "v \<noteq> ZERO F" and pre: "set_pre off F db t key v"
  shows "\<exists>t'. tree_set off F fuel db key v t = (Inr (), t') \<and> tree_inv F db t' (trie_insert key v pt) \<and>
    leaf_inv off F db t' (trie_insert key v pt) \<and> tree_ident t' = tree_ident t \<and> height_of t' = height_of t"
proof -
  let ?kb = "bitslice_to_bytes off key" and ?c = "cache_leaf_modified t"
  have wf: "trie_wf (height_of t) pt" by (rule tree_inv_wf [OF inv(1)])
  have get: "tree_get off F db t key = Inr (trie_lookup pt key)"
    using inv(2) key(1) by (simp add: leaf_inv_def)
  obtain w where w: "read_flat off F db t key = Inr w" using inv(2) key(1) by (auto simp: leaf_inv_def)
  note same = trie_insert_same [OF wf key(1)]
  have run: "tree_set off F fuel db key v t = (case hm_get ?c ?kb of
      Some (Insert _) \<Rightarrow> (Inr (), cache_insert ?kb (Insert v) t)
    | _ \<Rightarrow> if w = Some v then (Inr (), t) else set_walk off F fuel db key v t)"
    using key(1) v w [unfolded read_flat_def]
    by (auto simp: tree_set_def set_walk_def height_of_def Let_def split: option.splits insert_or_remove.splits)
  show ?thesis
  proof (cases "hm_get ?c ?kb")
    case None
    then have look: "trie_lookup pt key = w"
      using get w by (simp add: tree_get_def read_flat_def)
    show ?thesis
    proof (cases "w = Some v")
      case True
      then show ?thesis using run None same look inv by auto
    next
      case False
      then show ?thesis
        using run None set_walk_ok [OF inv(1) key, of v] leaf_inv_insert [OF inv(2) wf key(1)] by auto
    qed
  next
    case (Some x)
    show ?thesis
    proof (cases x)
      case (Insert u)
      then have "u = v" "trie_lookup pt key = Some v"
        using pre get Some by (auto simp: set_pre_def tree_get_def)
      moreover have "tree_inv F db (cache_insert ?kb (Insert v) t) pt"
        using inv(1) by simp
      moreover have "leaf_inv off F db (cache_insert ?kb (Insert v) t) (trie_insert key v pt)"
        by (rule leaf_inv_insert [OF inv(2) wf key(1)]) simp_all
      ultimately show ?thesis using run Some Insert same by simp
    next
      case Remove
      then have "w \<noteq> Some v" using pre Some w by (auto simp: set_pre_def)
      then show ?thesis
        using run Some Remove set_walk_ok [OF inv(1) key, of v] leaf_inv_insert [OF inv(2) wf key(1)] by auto
    qed
  qed
qed

text \<open>
  An edge that is split goes to the death row under the bytes of the caller's slice, in its
  alignment and without the identifier.
\<close>

lemma tree_set_walk:
  assumes "length key = height_of t" "v \<noteq> ZERO F" "hm_get (cache_leaf_modified t) (bitslice_to_bytes off key) = None"
    and "read_flat off F db t key = Inr None"
  shows "tree_set off F fuel db key v t = set_walk off F fuel db key v t"
  using assms by (auto simp: tree_set_def set_walk_def height_of_def Let_def read_flat_def)

lemma tree_set_split:
  fixes db :: "'e db_view"
  assumes inv: "tree_inv F db t (Some p)" and key: "length key = height_of t" "height_of t \<le> fuel" and v: "v \<noteq> ZERO F"
    and fresh: "hm_get (cache_leaf_modified t) (bitslice_to_bytes off key) = None" "read_flat off F db t key = Inr None"
    and split: "split_depth p key = Some n"
  shows "\<exists>t'. tree_set off F fuel db key v t = (Inr () :: ('e, unit) outcome, t') \<and>
    tree_ident t' = tree_ident t \<and> height_of t' = height_of t \<and> Trie (bitslice_to_bytes off (take n key)) \<in> set (death_row t') \<and>
    (key_clear off t key \<longrightarrow> tree_inv F db t' (Some (pinsert key v p)))"
proof -
  obtain t1 ns r hs fs g kr k t' where run: "set_walk off F fuel db key v t = (Inr () :: ('e, unit) outcome, t')"
    and t1: "t1 = t\<lparr>nodes := ns, root_node := Some (Loaded r)\<rparr>" and op: "opened F db t1 p key hs fs g kr"
    and k: "gid g = Some k" "kr \<noteq> []" and arm: "arm_ok off F (stored F db t1) (cbits fs) k key v g kr t1 t'"
    by (rule set_walk_run [OF inv key])
  have p: "p = erase (fill fs g)" "key = cbits fs @ kr" "stuck g kr" using op by (auto simp: opened_def)
  then have "map_option ((+) (length (cbits fs))) (split_depth (erase g) kr) = Some n"
    using split split_depth_fill [of fs g kr] by simp
  then obtain i where i: "split_depth (erase g) kr = Some i" "n = length (cbits fs) + i"
    by (cases "split_depth (erase g) kr") auto
  then have "n = length (cbits fs)" using p(3) split_depth_stuck [of g kr i] by simp
  then have "Trie (bitslice_to_bytes off (take n key)) \<in> set (death_row t')" "tree_ident t' = tree_ident t"
    "height_of t' = height_of t"
    using arm i(1) p(2) t1 by (auto simp: arm_ok_def)
  moreover have "tree_inv F db t' (Some (pinsert key v p))" if "key_clear off t key"
    using set_walk_ok [OF inv key that, of v] run by (simp add: trie_insert_def)
  ultimately show ?thesis using run tree_set_walk [OF key(1) v fresh] by simp
qed

end
