(* ===== verification/Tree_Delete.thy ===== *)
theory Tree_Delete
  imports Tree_Set
begin

text \<open>
  \<open>delete_leaf\<close> implements deletion from the abstract trie. Nodes leave the slot map and their
  positions go to the death row; the binary node that loses a child becomes an edge, merged
  with the edges next to it, in place of itself or of its parent.
\<close>

section \<open>Pruning\<close>

text \<open>Slots \<open>R\<close> are freed and positions \<open>D\<close> are put on the death row, nothing else.\<close>

definition pruned :: "'f merkle_tree \<Rightarrow> 'f merkle_tree \<Rightarrow> bits set \<Rightarrow> nat set \<Rightarrow> bool" where
  "pruned t t' D R \<longleftrightarrow>
     root_node t' = root_node t \<and> tree_ident t' = tree_ident t \<and> max_height t' = max_height t \<and>
     cache_leaf_modified t' = cache_leaf_modified t \<and>
     set (death_row t') = set (death_row t) \<union> branch_key (tree_ident t) ` D \<and>
     slots t' = slots t |` (- R) \<and> sm_wf (nodes t')"

lemma pruned_refl: "sm_wf (nodes t) \<Longrightarrow> pruned t t {} {}"
  by (simp add: pruned_def restrict_map_def)

lemma pruned_trans:
  assumes "pruned t t1 D1 R1" "pruned t1 t2 D2 R2"
  shows "pruned t t2 (D1 \<union> D2) (R1 \<union> R2)"
  using assms by (auto simp: pruned_def)

lemma pruned_remove:
  assumes "sm_wf (nodes t)"
  shows "pruned t (nodes_remove k (death_row_insert (branch_key (tree_ident t) p) t)) {p} {k}"
  using sm_wf_remove [OF assms, of k] by (auto simp: pruned_def restrict_map_def fun_eq_iff)

lemma pruned_death_row:
  "sm_wf (nodes t) \<Longrightarrow> pruned t (death_row_insert (branch_key (tree_ident t) p) t) {p} {}"
  by (auto simp: pruned_def)

lemma pruned_stored:
  assumes "pruned t t' D R" "length q \<le> 255" "q \<notin> D" "\<And>p. p \<in> D \<Longrightarrow> length p \<le> 255"
  shows "stored F db t' q = stored F db t q"
proof -
  have "branch_key (tree_ident t) q \<notin> branch_key (tree_ident t) ` D"
    using assms(2-4) path_encode_inj by auto
  then show ?thesis using assms(1) by (simp add: stored_def pruned_def Let_def)
qed

lemma pruned_absent:
  "pruned t t' D R \<Longrightarrow> absent db t q \<or> q \<in> D \<Longrightarrow> absent db t' q"
  by (auto simp: pruned_def absent_def Let_def)

lemma pruned_height: "pruned t t' D R \<Longrightarrow> height_of t' = height_of t"
  by (simp add: pruned_def height_of_def)

lemma pruned_rep:
  assumes pr: "pruned t t' D R" and ids: "set (ids g) \<inter> R = {}" and pos: "dbpos p g \<inter> D = {}"
    and small: "\<And>q. q \<in> dbpos p g \<union> D \<Longrightarrow> length q \<le> 255"
  shows "rep F (slots t') (stored F db t') p h g = rep F (slots t) (stored F db t) p h g"
proof (rule rep_cong)
  show "slots t' i = slots t i" if "i \<in> set (ids g)" for i
    using that pr ids by (auto simp: pruned_def restrict_map_def)
  show "stored F db t' q = stored F db t q" if "q \<in> dbpos p g" for q
    using pruned_stored [OF pr, of q F db] that pos small by auto
qed

lemma sub_dbpos_gpos: "sub_dbpos p g \<subseteq> gpos p g"
  by (cases g) (simp_all add: le_supI1 le_supI2 dbpos_sub_gpos subset_insertI2 Un_mono)

text \<open>A subtrie is cut down to \<open>g'\<close>, whose root node \<open>n\<close> is written to the slot \<open>k\<close>.\<close>

lemma cut_inv:
  assumes inv: "gtree_inv F db t h (fill fs g)" and k: "gid g = Some k"
    and pr: "pruned t t2 D R" and n: "repn F (slots t) (stored F db t) (cbits fs) n g'" "gid g' = Some k"
    and ids: "set (ids g) = R \<union> set (ids g')" "R \<inter> set (ids g') = {}" "distinct (ids g')"
    and D: "\<And>q. q \<in> D \<Longrightarrow> length q \<le> 255 \<and> prefix (cbits fs) q" "D \<inter> sub_dbpos (cbits fs) g' = {}"
      "gpos (cbits fs) g \<subseteq> gpos (cbits fs) g' \<union> D"
    and wf: "pwf (height_of t - length (cbits fs)) (erase g')" "is_edge (erase g') \<Longrightarrow> \<not> ends_edge fs"
  shows "gtree_inv F db (t2\<lparr>nodes := sm_set k n (nodes t2)\<rparr>) h (fill fs g')"
proof -
  let ?t = "t2\<lparr>nodes := sm_set k n (nodes t2)\<rparr>"
  note inv' = inv [unfolded gtree_inv_def]
  have nl: "g' \<noteq> GLeaf v" for v using repn_not_leaf [OF n(1)] .
  have ids': "ids g' = k # sub_ids g'" using ids_split [OF nl] n(2) by simp
  have slots': "slots ?t = (slots t |` (- R))(k \<mapsto> n)" using pr by (simp add: pruned_def)
  have len: "length (cbits fs) \<le> height_of t" using pwf_fill_length [of _ fs g] inv' by blast
  have small: "length q \<le> 255" if "q \<in> sub_dbpos (cbits fs) g'" for q
  proof -
    have "q \<in> gpos (cbits fs) g'" using that sub_dbpos_gpos by blast
    then show ?thesis using gpos_length [OF wf(1)] len height_le [of t] by fastforce
  qed
  have "repn F (slots ?t) (stored F db ?t) (cbits fs) n g'"
  proof -
    have "slots ?t i = slots t i" if "i \<in> set (sub_ids g')" for i
      using that ids(2,3) ids' unfolding slots' by (auto simp: restrict_map_def)
    moreover have "stored F db ?t q = stored F db t q" if "q \<in> sub_dbpos (cbits fs) g'" for q
      using pruned_stored [OF pr small [OF that], of F db] that D(1,2) by auto
    ultimately show ?thesis
      using n(1) repn_cong [of g' "slots ?t" "slots t" "cbits fs" "stored F db ?t" "stored F db t" F n] by blast
  qed
  then have rep: "rep F (slots ?t) (stored F db ?t) (cbits fs) (InMemory k) g'"
    using rep_repn [OF nl] n(2) slots' by (auto simp: at_handle_def)
  have fr: "set (fr_ids fs) \<inter> set (ids g) = {}" "dom (slots t) = set (fr_ids fs) \<union> set (ids g)"
    using inv' by (auto simp: distinct_ids_fr set_ids_fr)
  show ?thesis
  proof (rule gtree_inv_replace [OF inv k rep])
    show "slots ?t i = slots t i" if "i \<in> set (fr_ids fs)" for i
      using that fr(1) ids(1) ids' unfolding slots' by (auto simp: restrict_map_def)
    show "stored F db ?t q = stored F db t q" if "length q \<le> 255" "\<not> prefix (cbits fs) q" for q
      using pruned_stored [OF pr that(1), of F db] that(2) D(1) by auto
    show "dom (slots ?t) = set (fr_ids fs) \<union> set (ids g')"
      unfolding slots' using fr ids(1,2) ids' by (auto simp: dom_def restrict_map_def)
    show "absent db ?t q" if "absent db t q" for q
      using pruned_absent [OF pr, of db q] that by simp
    show "absent db ?t q" if "q \<in> gpos (cbits fs) g - gpos (cbits fs) g'" for q
      using pruned_absent [OF pr, of db q] that D(3) by auto
    show "height_of ?t = height_of t" using pruned_height [OF pr] by simp
  qed (use ids fr wf in auto)
qed

section \<open>Merging with the edge below\<close>

text \<open>
  The remaining child \<open>s\<close> at position \<open>p\<close>: if it is an edge, its path \<open>q\<close> and its child are taken
  over and the node goes away.
\<close>

definition absorbed ::
  "'f ext_ops \<Rightarrow> 'e db_view \<Rightarrow> 'f merkle_tree \<Rightarrow> bits \<Rightarrow> 'f gtree \<Rightarrow> bits \<Rightarrow> 'f node_handle \<Rightarrow> 'f gtree \<Rightarrow>
     bits set \<Rightarrow> nat set \<Rightarrow> bool" where
  "absorbed F db t p s q h c D R \<longleftrightarrow>
     rep F (slots t) (stored F db t) (p @ q) h c \<and> (\<forall>x. pmerge x (erase s) = PEdge (x @ q) (erase c)) \<and>
     set (ids s) = R \<union> set (ids c) \<and> R \<inter> set (ids c) = {} \<and> distinct (ids c) \<and>
     gpos p s = D \<union> gpos (p @ q) c \<and> D = (if q = [] then {} else {p})"

lemma merge_edges_ok:
  fixes F :: "'f ext_ops" and db :: "'e db_view"
  assumes rep: "rep F (slots t) (stored F db t) p (e_child parent) s" and wf: "sm_wf (nodes t)"
    and pwf: "pwf m (erase s)" and ids: "distinct (ids s)"
    and leaf: "\<And>v. s = GLeaf v \<Longrightarrow> absent db t p"
  shows "\<exists>t' q h c D R. merge_edges F db parent p t =
      (Inr (parent\<lparr>e_path := e_path parent @ q, e_child := h\<rparr>) :: ('e, 'f edge_node) outcome, t') \<and>
    pruned t t' D R \<and> absorbed F db t p s q h c D R"
proof -
  have keep: ?thesis if "merge_edges F db parent p t = (Inr parent, t)" "\<not> is_edge (erase s)"
  proof -
    have "absorbed F db t p s [] (e_child parent) s {} {}"
      using rep ids that(2) by (cases s) (simp_all add: absorbed_def)
    then show ?thesis
      using that(1) pruned_refl [OF wf]
      by (intro exI [of _ t] exI [of _ "[]"] exI [of _ "e_child parent"] exI [of _ s] exI [of _ "{}"]) simp
  qed
  have branch: "get_trie_branch_in_db_from_path F (death_row t) (tree_ident t) db p = Inr (Some n)"
    if "stored F db t p = Some n" for n
    using that by (auto simp: stored_def get_trie_branch_in_db_from_path_def Let_def
        split: if_splits sum.splits option.splits)
  show ?thesis
  proof (cases s)
    case (GLeaf v)
    then have "get_trie_branch_in_db_from_path F (death_row t) (tree_ident t) db p = Inr None"
      using leaf by (auto simp: absent_def get_trie_branch_in_db_from_path_def Let_def)
    then show ?thesis using GLeaf rep by (intro keep) (simp_all add: merge_edges_def)
  next
    case (GBin i l r)
    then show ?thesis
      using rep branch
      by (intro keep) (cases i, auto simp: merge_edges_def at_handle_def bindS_def get_node_mut_def sm_get_def)
  next
    case (GEdge i q c)
    then obtain e where e: "at_handle (slots t) (stored F db t) p (e_child parent) i (phash F (erase s)) (Edge e)"
      "e_path e = q" "rep F (slots t) (stored F db t) (p @ q) (e_child e) c"
      using rep by auto
    let ?p' = "parent\<lparr>e_path := e_path parent @ q, e_child := e_child e\<rparr>"
    let ?d = "branch_key (tree_ident t) p"
    have ne: "q \<noteq> []" using pwf GEdge by simp
    show ?thesis
    proof (cases i)
      case None
      have "merge_edges F db parent p t = (Inr ?p', death_row_insert ?d t)"
        using e None branch by (simp add: merge_edges_def at_handle_def)
      moreover have "absorbed F db t p s q (e_child e) c {p} {}"
        using e GEdge None ids ne by (simp add: absorbed_def)
      ultimately show ?thesis using pruned_death_row [OF wf] by blast
    next
      case (Some j)
      have "merge_edges F db parent p t = (Inr ?p', death_row_insert ?d (nodes_remove j t))"
        using e Some by (simp add: merge_edges_def at_handle_def bindS_def get_node_mut_def sm_get_def)
      moreover have "death_row_insert ?d (nodes_remove j t) = nodes_remove j (death_row_insert ?d t)"
        by (simp add: death_row_insert_def nodes_remove_def)
      moreover have "absorbed F db t p s q (e_child e) c {p} {j}"
        using e GEdge Some ids ne by (simp add: absorbed_def)
      ultimately show ?thesis using pruned_remove [OF wf, of j p] by metis
    qed
  qed
qed

section \<open>The binary node that loses a child\<close>

text \<open>
  The tree around the leaf to delete: \<open>d\<close> is the leaf or the edge above it, \<open>s\<close> its sibling below
  the binary node \<open>i\<close>; \<open>D\<close> and \<open>R\<close> are the position and the slot of the edge, if there is one.
\<close>

definition cutting ::
  "'f ext_ops \<Rightarrow> 'e db_view \<Rightarrow> 'f merkle_tree \<Rightarrow> nat \<Rightarrow> 'f frame list \<Rightarrow> nat \<Rightarrow> bool \<Rightarrow> 'f gtree \<Rightarrow> 'f gtree \<Rightarrow>
     bits set \<Rightarrow> nat set \<Rightarrow> bool" where
  "cutting F db t r fs i b s d D R \<longleftrightarrow>
     gtree_inv F db t (InMemory r) (fill fs (fill [FBin i b s] d)) \<and> sm_wf (nodes t) \<and>
     set (ids d) = R \<and> gpos (cbits fs @ [b]) d = D \<and> D \<subseteq> {cbits fs @ [b]}"

lemma cutting_facts:
  assumes "cutting F db t r fs i b s d D R"
  obtains bn where "slots t i = Some (Binary bn)" "b_height bn = length (cbits fs)"
    "rep F (slots t) (stored F db t) (cbits fs @ [\<not> b]) (if b then b_left bn else b_right bn) s"
    "pwf (height_of t - length (cbits fs) - 1) (erase s)" "length (cbits fs) < height_of t"
    "distinct (ids s)" "i \<notin> set (ids s)" "i \<notin> R" "R \<inter> set (ids s) = {}"
    "(set (ids s) \<union> R) \<inter> set (fr_ids fs) = {}" "i \<notin> set (fr_ids fs)"
    "\<And>q. q \<in> gpos (cbits fs @ [\<not> b]) s \<Longrightarrow> length q \<le> 255"
proof -
  let ?g = "fill [FBin i b s] d"
  have inv: "gtree_inv F db t (InMemory r) (fill fs ?g)" using assms by (simp add: cutting_def)
  note inv' = inv [unfolded gtree_inv_def]
  have R: "set (ids d) = R" using assms by (simp add: cutting_def)
  have "rep F (slots t) (stored F db t) [] (InMemory r) (fill fs ?g)" using inv' by blast
  then obtain h where rep: "rep F (slots t) (stored F db t) (cbits fs) h ?g"
    unfolding rep_fill by auto
  have dist: "distinct (ids ?g)" "set (fr_ids fs) \<inter> set (ids ?g) = {}"
    using inv' by (auto simp: distinct_ids_fr)
  have pwf: "pwf (height_of t - length (cbits fs)) (erase ?g)" using inv' pwf_fill_sub by blast
  then have pwf_s: "pwf (height_of t - length (cbits fs) - 1) (erase s)" "length (cbits fs) < height_of t"
    by (auto split: if_splits)
  have "length q \<le> 255" if "q \<in> gpos (cbits fs @ [\<not> b]) s" for q
    using gpos_length [OF pwf_s(1) that] pwf_s(2) height_le [of t] by simp
  then show thesis
    using that rep dist pwf_s R by (cases b) (auto simp: at_handle_def)
qed

lemma cut_branch:
  assumes cut: "cutting F db t r fs i b s d D R" and pr: "pruned t t2 (D \<union> D2) (R \<union> R2)"
    and ab: "absorbed F db t (cbits fs @ [\<not> b]) s q h c D2 R2" and fs: "\<not> ends_edge fs"
  shows "gtree_inv F db (t2\<lparr>nodes := sm_set i (Edge \<lparr>e_hash = None, e_height = length (cbits fs),
      e_path = (\<not> b) # q, e_child = h\<rparr>) (nodes t2)\<rparr>) (InMemory r) (fill fs (GEdge (Some i) ((\<not> b) # q) c))"
proof -
  note cut' = cut [unfolded cutting_def] and ab' = ab [unfolded absorbed_def]
  have f: "pwf (height_of t - length (cbits fs) - 1) (erase s)" "length (cbits fs) < height_of t"
    "i \<notin> set (ids s)" "i \<notin> R" "R \<inter> set (ids s) = {}"
    by (rule cutting_facts [OF cut], blast)+
  have D: "D \<union> D2 \<subseteq> {cbits fs @ [b]} \<union> (if q = [] then {} else {cbits fs @ [\<not> b]})"
    using cut' ab' by auto
  show ?thesis
  proof (rule cut_inv [where g = "fill [FBin i b s] d"])
    show "gtree_inv F db t (InMemory r) (fill fs (fill [FBin i b s] d))" using cut' by blast
    show "set (ids (fill [FBin i b s] d)) = R \<union> R2 \<union> set (ids (GEdge (Some i) ((\<not> b) # q) c))"
      using cut' ab' by auto
    show "(R \<union> R2) \<inter> set (ids (GEdge (Some i) ((\<not> b) # q) c)) = {}" using f ab' by auto
    show "length p \<le> 255 \<and> prefix (cbits fs) p" if "p \<in> D \<union> D2" for p
      using that D f(2) height_le [of t] by (auto split: if_splits)
    show "(D \<union> D2) \<inter> sub_dbpos (cbits fs) (GEdge (Some i) ((\<not> b) # q) c) = {}"
    proof -
      have "prefix (cbits fs @ (\<not> b) # q) x" if "x \<in> dbpos (cbits fs @ (\<not> b) # q) c" for x
        using that dbpos_sub_gpos gpos_prefix by blast
      then show ?thesis using D by (fastforce simp: prefix_def split: if_splits)
    qed
    show "gpos (cbits fs) (fill [FBin i b s] d) \<subseteq> gpos (cbits fs) (GEdge (Some i) ((\<not> b) # q) c) \<union> (D \<union> D2)"
      using cut' ab' by (cases b) auto
    have "erase (GEdge (Some i) ((\<not> b) # q) c) = pmerge [\<not> b] (erase s)" using ab' by simp
    then show "pwf (height_of t - length (cbits fs)) (erase (GEdge (Some i) ((\<not> b) # q) c))"
      using pwf_pmerge [OF f(1), of "[\<not> b]"] f(2) by (simp add: Suc_diff_Suc)
  qed (use pr fs ab' f in auto)
qed

lemma cut_parent:
  assumes cut: "cutting F db t r (fs @ [FEdge j q0]) i b s d D R"
    and pr: "pruned t t2 (D \<union> D2 \<union> {cbits fs @ q0}) (R \<union> R2 \<union> {i})"
    and ab: "absorbed F db t (cbits fs @ q0 @ [\<not> b]) s q h c D2 R2"
    and pe: "slots t j = Some (Edge pe)"
  shows "gtree_inv F db (t2\<lparr>nodes := sm_set j (Edge (pe\<lparr>e_path := q0 @ (\<not> b) # q, e_child := h\<rparr>)) (nodes t2)\<rparr>)
      (InMemory r) (fill fs (GEdge (Some j) (q0 @ (\<not> b) # q) c))"
proof -
  let ?g = "GEdge (Some j) q0 (fill [FBin i b s] d)" and ?g' = "GEdge (Some j) (q0 @ (\<not> b) # q) c"
  note cut' = cut [unfolded cutting_def] and ab' = ab [unfolded absorbed_def]
  have f: "pwf (height_of t - length (cbits (fs @ [FEdge j q0])) - 1) (erase s)"
    "length (cbits (fs @ [FEdge j q0])) < height_of t" "i \<notin> set (ids s)" "i \<notin> R" "R \<inter> set (ids s) = {}"
    "(set (ids s) \<union> R) \<inter> set (fr_ids (fs @ [FEdge j q0])) = {}" "i \<notin> set (fr_ids (fs @ [FEdge j q0]))"
    by (rule cutting_facts [OF cut], blast)+
  have inv: "gtree_inv F db t (InMemory r) (fill fs ?g)" using cut' by simp
  have pwf: "pwf (height_of t) (erase (fill fs ?g))" using inv by (simp add: gtree_inv_def)
  have q0: "q0 \<noteq> []" using pwf_fill_sub [OF pwf] by simp
  have rep: "e_height pe = length (cbits fs)"
  proof -
    have "rep F (slots t) (stored F db t) [] (InMemory r) (fill fs ?g)" using inv by (simp add: gtree_inv_def)
    then show ?thesis using pe unfolding rep_fill by (auto simp: at_handle_def)
  qed
  have D: "D \<union> D2 \<union> {cbits fs @ q0} \<subseteq> {cbits fs @ q0, cbits fs @ q0 @ [b]} \<union>
      (if q = [] then {} else {cbits fs @ q0 @ [\<not> b]})"
    using cut' ab' by auto
  show ?thesis
  proof (rule cut_inv [OF inv _ pr])
    show "set (ids ?g) = R \<union> R2 \<union> {i} \<union> set (ids ?g')" using cut' ab' by auto
    show "(R \<union> R2 \<union> {i}) \<inter> set (ids ?g') = {}" using f ab' by auto
    show "distinct (ids ?g')" using f ab' by auto
    show "length p \<le> 255 \<and> prefix (cbits fs) p" if "p \<in> D \<union> D2 \<union> {cbits fs @ q0}" for p
      using that D f(2) height_le [of t] by (auto split: if_splits)
    show "(D \<union> D2 \<union> {cbits fs @ q0}) \<inter> sub_dbpos (cbits fs) ?g' = {}"
    proof -
      have "prefix (cbits fs @ q0 @ (\<not> b) # q) x" if "x \<in> dbpos (cbits fs @ q0 @ (\<not> b) # q) c" for x
        using that dbpos_sub_gpos gpos_prefix by blast
      then show ?thesis using D by (fastforce simp: prefix_def split: if_splits)
    qed
    show "gpos (cbits fs) ?g \<subseteq> gpos (cbits fs) ?g' \<union> (D \<union> D2 \<union> {cbits fs @ q0})"
      using cut' ab' by (cases b) auto
    have er: "erase ?g' = pmerge (q0 @ [\<not> b]) (erase s)" using ab' by simp
    show "pwf (height_of t - length (cbits fs)) (erase ?g')"
      unfolding er by (rule pwf_pmerge [OF f(1)]) (use q0 f(2) in auto)
    show "\<not> ends_edge fs" using pwf_not_ends_edge [OF pwf] by simp
  qed (use ab' rep in auto)
qed

section \<open>Deletion through the frames\<close>

lemma pdelete_fill:
  "pwf n (erase (fill fs g)) \<Longrightarrow> pdelete kr (erase g) = Some (erase g') \<Longrightarrow>
   (is_edge (erase g') \<Longrightarrow> \<not> ends_edge fs) \<Longrightarrow>
   pdelete (cbits fs @ kr) (erase (fill fs g)) = Some (erase (fill fs g'))"
proof (induction fs arbitrary: n)
  case (Cons f fs)
  have nx: "is_edge (erase g') \<Longrightarrow> \<not> ends_edge fs"
    using Cons.prems(3) by (cases "fs = []") (auto simp: ends_edge_Cons)
  show ?case
  proof (cases f)
    case (FBin i b s)
    then show ?thesis using Cons.prems(1) Cons.IH [OF _ Cons.prems(2) nx, of "n - 1"] by (auto split: if_splits)
  next
    case (FEdge i q)
    have "\<not> is_edge (erase (fill fs g'))"
      using is_edge_fill [of fs g' i q g] Cons.prems FEdge by auto
    then have "pmerge q (erase (fill fs g')) = PEdge q (erase (fill fs g'))"
      by (cases "erase (fill fs g')") auto
    then show ?thesis using FEdge Cons.prems(1) Cons.IH [OF _ Cons.prems(2) nx, of "n - length q"] by auto
  qed
qed simp

text \<open>Merging in the tree from which the edge above the leaf was removed already.\<close>

lemma cutting_merge:
  fixes F :: "'f ext_ops" and db :: "'e db_view"
  assumes cut: "cutting F db t r fs i b s d D R" and pr: "pruned t t1 D R" and bn: "slots t i = Some (Binary bn)"
  defines "edge \<equiv> \<lparr>e_hash = None, e_height = b_height bn, e_path = [\<not> b],
                    e_child = (if b then b_left bn else b_right bn)\<rparr>"
  shows "\<exists>t2 q h c D2 R2. merge_edges F db edge (cbits fs @ [\<not> b]) t1 =
      (Inr (edge\<lparr>e_path := (\<not> b) # q, e_child := h\<rparr>) :: ('e, 'f edge_node) outcome, t2) \<and>
    pruned t t2 (D \<union> D2) (R \<union> R2) \<and> pruned t1 t2 D2 R2 \<and>
    absorbed F db t (cbits fs @ [\<not> b]) s q h c D2 R2"
proof -
  let ?p = "cbits fs @ [\<not> b]"
  note cut' = cut [unfolded cutting_def]
  have f: "rep F (slots t) (stored F db t) ?p (if b then b_left bn else b_right bn) s"
    "pwf (height_of t - length (cbits fs) - 1) (erase s)" "length (cbits fs) < height_of t"
    "distinct (ids s)" "R \<inter> set (ids s) = {}" "\<forall>q \<in> gpos ?p s. length q \<le> 255"
    by (rule cutting_facts [OF cut], use bn in auto)+
  have D: "D \<subseteq> {cbits fs @ [b]}" "\<And>x. x \<in> D \<Longrightarrow> length x \<le> 255"
    using cut' f(3) height_le [of t] by auto
  have same: "rep F (slots t1) (stored F db t1) (?p @ q) h c = rep F (slots t) (stored F db t) (?p @ q) h c"
    if "set (ids c) \<subseteq> set (ids s)" "gpos (?p @ q) c \<subseteq> gpos ?p s" for q h c
  proof (rule pruned_rep [OF pr])
    have pre: "prefix (?p @ q) x" if "x \<in> dbpos (?p @ q) c" for x
      using that dbpos_sub_gpos gpos_prefix by blast
    show "dbpos (?p @ q) c \<inter> D = {}" using pre D(1) by (fastforce simp: prefix_def)
    show "set (ids c) \<inter> R = {}" using f(5) that(1) by blast
    show "length x \<le> 255" if "x \<in> dbpos (?p @ q) c \<union> D" for x
      using that f(6) D(2) dbpos_sub_gpos [of "?p @ q" c] \<open>gpos (?p @ q) c \<subseteq> gpos ?p s\<close> by auto
  qed
  have "rep F (slots t1) (stored F db t1) ?p (e_child edge) s"
    using same [of s "[]"] f(1) by (simp add: edge_def)
  moreover have "absent db t1 ?p" if "s = GLeaf v" for v
  proof -
    let ?g = "fill fs (fill [FBin i b s] d)"
    have inv: "pwf (height_of t) (erase ?g)" "\<And>p. length p \<le> 255 \<Longrightarrow> p \<notin> gpos [] ?g \<Longrightarrow> absent db t p"
      using cut' unfolding gtree_inv_def by blast+
    have len: "length ?p = height_of t" using f(2,3) that by simp
    then have "?p \<notin> gpos [] ?g" using gpos_length [OF inv(1), of ?p "[]"] by auto
    then have "absent db t ?p" using inv(2) len height_le [of t] by simp
    then show ?thesis using pruned_absent [OF pr] by blast
  qed
  moreover have "sm_wf (nodes t1)" using pr by (simp add: pruned_def)
  ultimately obtain t2 q h c D2 R2 where m: "merge_edges F db edge ?p t1 =
      (Inr (edge\<lparr>e_path := e_path edge @ q, e_child := h\<rparr>) :: ('e, 'f edge_node) outcome, t2)"
    "pruned t1 t2 D2 R2" "absorbed F db t1 ?p s q h c D2 R2"
    using merge_edges_ok [of F t1 db ?p edge s, OF _ _ f(2,4)] by blast
  have "absorbed F db t ?p s q h c D2 R2"
    using m(3) same [of c q h] by (auto simp: absorbed_def)
  moreover have "e_path edge @ q = (\<not> b) # q" by (simp add: edge_def)
  ultimately show ?thesis using m pruned_trans [OF pr m(2)] by metis
qed

text \<open>The whole arm of the code.\<close>

definition left_with ::
  "'f ext_ops \<Rightarrow> 'e db_view \<Rightarrow> nat \<Rightarrow> 'f merkle_tree \<Rightarrow> 'f merkle_tree \<Rightarrow> 'f ptree \<Rightarrow> bool" where
  "left_with F db r t t' pt \<longleftrightarrow>
     (\<exists>g. gtree_inv F db t' (InMemory r) g \<and> erase g = pt) \<and> root_node t' = root_node t \<and>
     tree_ident t' = tree_ident t \<and> max_height t' = max_height t \<and>
     cache_leaf_modified t' = cache_leaf_modified t \<and> sm_wf (nodes t') \<and>
     set (death_row t') \<subseteq> set (death_row t) \<union> range Trie"

lemma left_withI:
  assumes "gtree_inv F db (t2\<lparr>nodes := sm_set k n (nodes t2)\<rparr>) (InMemory r) g" "erase g = pt" "pruned t t2 D R"
    "slots t2 k \<noteq> None"
  shows "left_with F db r t (t2\<lparr>nodes := sm_set k n (nodes t2)\<rparr>) pt"
  using assms sm_wf_set [of "nodes t2" k n] by (auto simp: left_with_def pruned_def sm_get_def)

lemma delete_branch_ok:
  fixes F :: "'f ext_ops" and db :: "'e db_view"
  assumes cut: "cutting F db t r fs i b s d D R" and pr: "pruned t t1 D R"
    and key: "key = cbits fs @ b # rest" and d: "pdelete rest (erase d) = None"
  shows "\<exists>t' pt'. delete_branch F db key (cbits fs @ [b]) i (if fs = [] then None else Some (fid (last fs))) t1 =
      (Inr () :: ('e, unit) outcome, t') \<and>
    pdelete key (erase (fill fs (fill [FBin i b s] d))) = Some pt' \<and> left_with F db r t t' pt'"
proof -
  note cut' = cut [unfolded cutting_def]
  obtain bn where bn: "slots t i = Some (Binary bn)" "b_height bn = length (cbits fs)"
    and f: "i \<notin> set (ids s)" "i \<notin> R" "(set (ids s) \<union> R) \<inter> set (fr_ids fs) = {}" "i \<notin> set (fr_ids fs)"
    by (rule cutting_facts [OF cut])
  obtain t2 q h c D2 R2 where merge: "merge_edges F db \<lparr>e_hash = None, e_height = b_height bn, e_path = [\<not> b],
      e_child = (if b then b_left bn else b_right bn)\<rparr> (cbits fs @ [\<not> b]) t1 =
      (Inr \<lparr>e_hash = None, e_height = b_height bn, e_path = (\<not> b) # q, e_child = h\<rparr> :: ('e, 'f edge_node) outcome, t2)"
    and pr2: "pruned t t2 (D \<union> D2) (R \<union> R2)" and ab: "absorbed F db t (cbits fs @ [\<not> b]) s q h c D2 R2"
    using cutting_merge [OF cut pr bn(1)] by auto
  have kept: "slots t2 x = slots t x" if "x \<notin> R \<union> set (ids s)" for x
    using that pr2 ab by (auto simp: pruned_def absorbed_def restrict_map_def)
  have i: "slots t1 i = Some (Binary bn)" "slots t2 i = Some (Binary bn)"
    using bn pr f kept [of i] by (auto simp: pruned_def restrict_map_def)
  have inv: "gtree_inv F db t (InMemory r) (fill fs (fill [FBin i b s] d))" using cut' by blast
  then have pwf: "pwf (height_of t) (erase (fill fs (fill [FBin i b s] d)))" by (simp add: gtree_inv_def)
  have del: "pdelete (b # rest) (erase (fill [FBin i b s] d)) = Some (PEdge ((\<not> b) # q) (erase c))"
    using d ab by (auto simp: absorbed_def)
  have dir: "(direction bn key :: ('e, direction) outcome) = Inr (direction_of_bool b)" using bn(2) key by (simp add: direction_def)
  have inv_dir: "invert (direction_of_bool b) = direction_of_bool (\<not> b)" by (cases b) (simp_all add: direction_of_bool_def)
  let ?e = "\<lparr>e_hash = None, e_height = b_height bn, e_path = (\<not> b) # q, e_child = h\<rparr>"
  have plain: ?thesis if fs: "\<not> ends_edge fs"
    and run: "delete_branch F db key (cbits fs @ [b]) i (if fs = [] then None else Some (fid (last fs))) t1 =
      (Inr () :: ('e, unit) outcome, t2\<lparr>nodes := sm_set i (Edge ?e) (nodes t2)\<rparr>)"
  proof -
    have "left_with F db r t (t2\<lparr>nodes := sm_set i (Edge ?e) (nodes t2)\<rparr>)
        (erase (fill fs (GEdge (Some i) ((\<not> b) # q) c)))"
      using cut_branch [OF cut pr2 ab fs] bn(2) i(2) by (intro left_withI [OF _ refl pr2]) auto
    moreover have "pdelete key (erase (fill fs (fill [FBin i b s] d))) = Some (erase (fill fs (GEdge (Some i) ((\<not> b) # q) c)))"
      unfolding key using pdelete_fill [OF pwf, of "b # rest" "GEdge (Some i) ((\<not> b) # q) c"] del fs by simp
    ultimately show ?thesis using run by blast
  qed
  have start: "delete_branch F db key (cbits fs @ [b]) i parent t1 =
      (case parent of None \<Rightarrow> nodes_assign i (Edge ?e) t2
       | Some j \<Rightarrow> bindS (get_node_mut j) (\<lambda>parent_node t. case parent_node of
            Edge pe \<Rightarrow> bindS (nodes_assign j (Edge (pe\<lparr>e_path := e_path pe @ (\<not> b) # q, e_child := h\<rparr>)))
              (\<lambda>_ t. (Inr (), nodes_remove i (death_row_insert (branch_key (tree_ident t) (cbits fs)) t))) t
          | Binary _ \<Rightarrow> nodes_assign i (Edge ?e) t) t2)" for parent
    using i(1) dir inv_dir merge
    by (cases b; cases parent)
      (simp_all add: delete_branch_def bindS_def get_node_mut_def sm_get_def Let_def split: option.splits node.splits)
  show ?thesis
  proof (cases fs rule: rev_cases)
    case Nil
    then show ?thesis using start [of None] i(2) by (intro plain) (simp_all add: nodes_assign_def sm_get_def)
  next
    case (snoc fs1 f)
    have "rep F (slots t) (stored F db t) [] (InMemory r) (fill fs1 (fill [f] (fill [FBin i b s] d)))"
      using inv unfolding snoc gtree_inv_def fill_append by blast
    then obtain h1 where rep: "rep F (slots t) (stored F db t) (cbits fs1) h1 (fill [f] (fill [FBin i b s] d))"
      unfolding rep_fill by auto
    have "fid f \<notin> R \<union> set (ids s)" using f(3) snoc by auto
    then have fk: "slots t2 (fid f) = slots t (fid f)" by (rule kept)
    show ?thesis
    proof (cases f)
      case (FBin j x s')
      then obtain bn' where "slots t2 j = Some (Binary bn')"
        using rep fk by (cases x) (auto simp: at_handle_def)
      then show ?thesis
        using snoc FBin start [of "Some j"] i(2)
        by (intro plain) (simp_all add: nodes_assign_def sm_get_def bindS_def get_node_mut_def)
    next
      case (FEdge j q0)
      then obtain pe where pe: "slots t j = Some (Edge pe)" "slots t2 j = Some (Edge pe)" "e_path pe = q0"
        using rep fk by (auto simp: at_handle_def)
      let ?n = "Edge (pe\<lparr>e_path := q0 @ (\<not> b) # q, e_child := h\<rparr>)"
      let ?t3 = "nodes_remove i (death_row_insert (branch_key (tree_ident t2) (cbits fs)) t2)"
      let ?t' = "?t3\<lparr>nodes := sm_set j ?n (nodes ?t3)\<rparr>"
      have ne: "i \<noteq> j" using f(4) snoc FEdge by auto
      have run: "delete_branch F db key (cbits fs @ [b]) i (Some j) t1 = (Inr () :: ('e, unit) outcome, ?t')"
        using start [of "Some j"] pe ne
        by (simp add: bindS_def get_node_mut_def sm_get_def nodes_assign_def nodes_remove_def death_row_insert_def
            sm_remove_def sm_set_def fun_upd_twist)
      have "sm_wf (nodes t2)" using pr2 by (simp add: pruned_def)
      then have pr3: "pruned t ?t3 (D \<union> D2 \<union> {cbits fs}) (R \<union> R2 \<union> {i})"
        by (intro pruned_trans [OF pr2] pruned_remove)
      have "gtree_inv F db ?t' (InMemory r) (fill fs1 (GEdge (Some j) (q0 @ (\<not> b) # q) c))"
        using cut_parent [of F db t r fs1 j q0 i b s d D R ?t3 D2 R2 q h c pe] cut pr3 ab pe(1) snoc FEdge by simp
      then have "left_with F db r t ?t' (erase (fill fs1 (GEdge (Some j) (q0 @ (\<not> b) # q) c)))"
        using pe(2) ne by (intro left_withI [OF _ refl pr3]) auto
      moreover have "pdelete key (erase (fill fs (fill [FBin i b s] d))) =
          Some (erase (fill fs1 (GEdge (Some j) (q0 @ (\<not> b) # q) c)))"
      proof -
        have "pdelete (cbits fs1 @ q0 @ b # rest) (erase (fill fs1 (GEdge (Some j) q0 (fill [FBin i b s] d)))) =
            Some (erase (fill fs1 (GEdge (Some j) (q0 @ (\<not> b) # q) c)))"
        proof (rule pdelete_fill)
          show "pwf (height_of t) (erase (fill fs1 (GEdge (Some j) q0 (fill [FBin i b s] d))))"
            using pwf snoc FEdge by simp
          then show "\<not> ends_edge fs1" by (rule pwf_not_ends_edge) simp
          show "pdelete (q0 @ b # rest) (erase (GEdge (Some j) q0 (fill [FBin i b s] d))) =
              Some (erase (GEdge (Some j) (q0 @ (\<not> b) # q) c))"
            using del by simp
        qed
        then show ?thesis using key snoc FEdge by simp
      qed
      ultimately show ?thesis using run snoc FEdge by auto
    qed
  qed
qed

section \<open>\<open>delete_leaf\<close>\<close>

lemma plookup_fill: "plookup (erase (fill fs g)) (cbits fs @ kr) = plookup (erase g) kr"
proof (induction fs)
  case (Cons f fs)
  then show ?case by (cases f) auto
qed simp

lemma leaf_inv_remove:
  assumes inv: "leaf_inv off F db t pt" "trie_wf (height_of t) pt" and key: "length key = height_of t"
    and has: "trie_lookup pt key \<noteq> None"
    and t': "tree_ident t' = tree_ident t" "height_of t' = height_of t"
      "cache_leaf_modified t' = hm_insert (bitslice_to_bytes off key) Remove (cache_leaf_modified t)"
  shows "leaf_inv off F db t' (trie_delete key pt)"
proof -
  have "tree_get off F db t' k = Inr (trie_lookup (trie_delete key pt) k)" if "length k = height_of t" for k
  proof -
    have "bitslice_to_bytes off k = bitslice_to_bytes off key \<longleftrightarrow> k = key"
      using bitslice_to_bytes_inj [of k key] that key height_le [of t] by auto
    then show ?thesis
      using inv(1) that trie_lookup_delete [OF inv(2) key that has]
      unfolding leaf_inv_def tree_get_def t' by (auto simp: hm_get_insert)
  qed
  then show ?thesis using inv t' by (auto simp: leaf_inv_def read_flat_def)
qed

text \<open>The walk and what follows it.\<close>

definition delete_at ::
  "'f ext_ops \<Rightarrow> 'e db_view \<Rightarrow> bits \<Rightarrow> (nat \<times> nat) list \<Rightarrow> ('f, 'e, unit) tree_action" where
  "delete_at F db key hs =
     bindS (delete_final_edge key hs) (\<lambda>(path_nodes, last_binary_path) t.
       case rev (map fst path_nodes) of
         [] \<Rightarrow> (Inr (), delete_root t)
       | [node_id] \<Rightarrow> delete_branch F db key last_binary_path node_id None t
       | node_id # parent_node_id # _ \<Rightarrow>
           delete_branch F db key last_binary_path node_id (Some parent_node_id) t)"

text \<open>The outcome of deleting a key that is in the trie.\<close>

definition deleted :: "'f ext_ops \<Rightarrow> 'e db_view \<Rightarrow> 'f merkle_tree \<Rightarrow> 'f merkle_tree \<Rightarrow> 'f trie \<Rightarrow> bool" where
  "deleted F db t t' pt \<longleftrightarrow>
     tree_inv F db t' pt \<and> tree_ident t' = tree_ident t \<and> height_of t' = height_of t \<and>
     cache_leaf_modified t' = cache_leaf_modified t"

lemma left_with_deleted:
  assumes "left_with F db r t t' pt" "root_node t = Some (Loaded r)" "db_total db" "0 < height_of t"
    "set (death_row t) \<subseteq> range Trie"
  shows "deleted F db t t' (Some pt)"
  using assms by (auto simp: left_with_def deleted_def tree_inv_def root_matches_def height_of_def)

lemma delete_path_split:
  "rev (map fst hs) = i # rev (map fid fs) \<Longrightarrow>
   (case rev (map fst hs) of [] \<Rightarrow> a | [node_id] \<Rightarrow> f node_id None
     | node_id # parent_node_id # _ \<Rightarrow> f node_id (Some parent_node_id)) =
   f i (if fs = [] then None else Some (fid (last fs)))"
  by (cases fs rule: rev_cases) auto

lemma butlast_power: "(butlast ^^ length q) (p @ q) = p"
proof (induction q rule: rev_induct)
  case (snoc x xs)
  have "(butlast ^^ Suc (length xs)) (p @ xs @ [x]) = (butlast ^^ length xs) (butlast ((p @ xs) @ [x]))"
    unfolding funpow_Suc_right by simp
  then show ?case using snoc.IH by (simp add: butlast_append)
qed simp

lemma delete_at_binary:
  fixes F :: "'f ext_ops" and db :: "'e db_view"
  assumes op: "opened F db t pt key hs fs (GBin (Some k) l r) [b]"
    and db: "db_total db" "0 < height_of t" "set (death_row t) \<subseteq> range Trie"
  shows "\<exists>t'. delete_at F db key hs t = (Inr () :: ('e, unit) outcome, t') \<and> deleted F db t t' (trie_delete key (Some pt))"
proof -
  let ?s = "if b then l else r" and ?d = "if b then r else l"
  note op' = op [unfolded opened_def]
  have g: "GBin (Some k) l r = fill [FBin k b ?s] ?d" by simp
  obtain rt where root: "root_node t = Some (Loaded rt)"
    and inv: "gtree_inv F db t (InMemory rt) (fill fs (fill [FBin k b ?s] ?d))"
    using op' unfolding g by blast
  obtain v where d: "?d = GLeaf v" using op' by auto
  have cut: "cutting F db t rt fs k b ?s ?d {} {}"
    using inv op' d by (auto simp: cutting_def)
  have wf: "sm_wf (nodes t)" using op' by blast
  have key: "key = cbits fs @ [b]" using op' by blast
  have "rep F (slots t) (stored F db t) [] (InMemory rt) (fill fs (GBin (Some k) l r))"
    using inv unfolding g gtree_inv_def by blast
  then obtain bn where bn: "slots t k = Some (Binary bn)" unfolding rep_fill by (auto simp: at_handle_def)
  have "pdelete [] (erase ?d) = None" unfolding d by simp
  from delete_branch_ok [OF cut pruned_refl [OF wf] key this]
  obtain t' pt' where run: "delete_branch F db key key k (if fs = [] then None else Some (fid (last fs))) t =
      (Inr () :: ('e, unit) outcome, t')"
    and del: "pdelete key (erase (fill fs (GBin (Some k) l r))) = Some pt'" and left: "left_with F db rt t t' pt'"
    unfolding key g by blast
  have hs: "rev (map fst hs) = k # rev (map fid fs)" using op' by simp
  then have ne: "hs \<noteq> []" "fst (last hs) = k" by (auto simp: hd_rev [symmetric] rev_map hd_map)
  have "delete_final_edge key hs t = (Inr (hs, key) :: ('e, _) outcome, t)"
    using ne bn by (cases "last hs") (simp add: delete_final_edge_def bindS_def get_node_mut_def sm_get_def)
  then have "delete_at F db key hs t = (Inr () :: ('e, unit) outcome, t')"
    using run by (simp add: delete_at_def bindS_def
        delete_path_split [OF hs, where f = "\<lambda>i p. delete_branch F db key key i p t"])
  moreover have "trie_delete key (Some pt) = Some pt'" using del op' by (simp add: trie_delete_def)
  ultimately show ?thesis using left_with_deleted [OF left root db] by auto
qed

lemma delete_root_ok:
  assumes op: "opened F db t pt key hs [] (GEdge (Some k) key (GLeaf v)) key"
    and db: "db_total db" "0 < height_of t" "set (death_row t) \<subseteq> range Trie"
  defines "t1 \<equiv> nodes_remove k (death_row_insert (branch_key (tree_ident t) []) t)"
  shows "deleted F db t (delete_root t1) None"
proof -
  note op' = op [unfolded opened_def]
  obtain rt where root: "root_node t = Some (Loaded rt)"
    and inv: "gtree_inv F db t (InMemory rt) (GEdge (Some k) key (GLeaf v))" using op' by auto
  note inv' = inv [unfolded gtree_inv_def]
  have rt: "rt = k" using inv' by (auto simp: at_handle_def)
  have "slots (delete_root t1) = Map.empty"
    using inv' root rt by (auto simp: t1_def delete_root_def fun_eq_iff)
  moreover have "sm_wf (nodes (delete_root t1))"
    using op' root by (auto simp: t1_def delete_root_def intro!: sm_wf_remove)
  moreover have "absent db (delete_root t1) p" if "length p \<le> 255" for p
    using inv' that root by (cases "p = []") (auto simp: t1_def delete_root_def absent_def Let_def)
  moreover have "root_node (delete_root t1) = Some Empty" "tree_ident (delete_root t1) = tree_ident t"
    "height_of (delete_root t1) = height_of t" "cache_leaf_modified (delete_root t1) = cache_leaf_modified t"
    using root by (auto simp: t1_def delete_root_def height_of_def)
  moreover have "set (death_row (delete_root t1)) \<subseteq> range Trie"
    using db(3) root by (auto simp: t1_def delete_root_def)
  ultimately show ?thesis using db by (simp add: deleted_def tree_inv_def empty_inv_def)
qed

lemma delete_at_edge:
  fixes F :: "'f ext_ops" and db :: "'e db_view"
  assumes op: "opened F db t pt key hs fs (GEdge (Some k) q (GLeaf v)) q"
    and db: "db_total db" "0 < height_of t" "set (death_row t) \<subseteq> range Trie"
  shows "\<exists>t'. delete_at F db key hs t = (Inr () :: ('e, unit) outcome, t') \<and> deleted F db t t' (trie_delete key (Some pt))"
proof -
  let ?d = "GEdge (Some k) q (GLeaf v)"
  let ?t1 = "nodes_remove k (death_row_insert (branch_key (tree_ident t) (cbits fs)) t)"
  note op' = op [unfolded opened_def]
  obtain rt where root: "root_node t = Some (Loaded rt)" and inv: "gtree_inv F db t (InMemory rt) (fill fs ?d)"
    using op' by blast
  have wf: "sm_wf (nodes t)" and key: "key = cbits fs @ q" using op' by blast+
  have pwf: "pwf (height_of t) (erase (fill fs ?d))" using inv by (simp add: gtree_inv_def)
  have "rep F (slots t) (stored F db t) [] (InMemory rt) (fill fs ?d)" using inv by (simp add: gtree_inv_def)
  then obtain e where e: "slots t k = Some (Edge e)" "e_path e = q" unfolding rep_fill by (auto simp: at_handle_def)
  have hs: "map fst hs = map fid fs @ [k]" using op' by simp
  then obtain hs0 x where hs0: "hs = hs0 @ [(k, x)]" "map fst hs0 = map fid fs"
    by (cases hs rule: rev_cases) auto
  have final: "delete_final_edge key hs t = (Inr (hs0, cbits fs) :: ('e, _) outcome, ?t1)"
    using e hs0(1) key by (simp add: delete_final_edge_def bindS_def get_node_mut_def sm_get_def butlast_power Let_def)
  show ?thesis
  proof (cases fs rule: rev_cases)
    case Nil
    have "trie_delete key (Some pt) = None" using op' Nil by (auto simp: trie_delete_def)
    moreover have "delete_at F db key hs t = (Inr () :: ('e, unit) outcome, delete_root ?t1)"
      using final hs0 Nil by (simp add: delete_at_def bindS_def)
    moreover have "deleted F db t (delete_root ?t1) None"
      using delete_root_ok [of F db t pt key hs k v] op key Nil db by simp
    ultimately show ?thesis by simp
  next
    case (snoc fs0 f)
    have "\<not> ends_edge fs" using pwf_not_ends_edge [OF pwf] by simp
    then obtain i b s where f: "f = FBin i b s" using snoc by (cases f) auto
    have cut: "cutting F db t rt fs0 i b s ?d {cbits fs0 @ [b]} {k}"
      using inv wf snoc f by (simp add: cutting_def)
    have pr: "pruned t ?t1 {cbits fs0 @ [b]} {k}" using pruned_remove [OF wf, of k "cbits fs"] snoc f by simp
    have key': "key = cbits fs0 @ b # q" using key snoc f by simp
    have "pdelete q (erase ?d) = None" by simp
    from delete_branch_ok [OF cut pr key' this]
    obtain t' pt' where run: "delete_branch F db key (cbits fs) i (if fs0 = [] then None else Some (fid (last fs0))) ?t1 =
        (Inr () :: ('e, unit) outcome, t')"
      and del: "pdelete key (erase (fill fs ?d)) = Some pt'" and left: "left_with F db rt t t' pt'"
      using snoc f by auto
    have hs1: "rev (map fst hs0) = i # rev (map fid fs0)" using hs0(2) snoc f by simp
    have "delete_at F db key hs t = (Inr () :: ('e, unit) outcome, t')"
      using run final hs1 by (cases fs0 rule: rev_cases) (simp_all add: delete_at_def bindS_def)
    moreover have "trie_delete key (Some pt) = Some pt'" using del op' by (simp add: trie_delete_def)
    ultimately show ?thesis using left_with_deleted [OF left root db] by auto
  qed
qed

text \<open>The refinement of deletion: a key of the trie is deleted, another one changes nothing.\<close>

lemma delete_leaf_delete:
  fixes F :: "'f ext_ops" and db :: "'e db_view"
  assumes inv: "tree_inv F db t pt" "leaf_inv off F db t pt" and key: "length key = height_of t" "height_of t \<le> fuel"
  shows "\<exists>t'. delete_leaf off F fuel db key t = (Inr () :: ('e, unit) outcome, t') \<and>
    (let pt' = if trie_lookup pt key = None then pt else trie_delete key pt in
     tree_inv F db t' pt' \<and> leaf_inv off F db t' pt') \<and> tree_ident t' = tree_ident t \<and> height_of t' = height_of t"
proof -
  let ?kb = "bitslice_to_bytes off key"
  have wf: "trie_wf (height_of t) pt" by (rule tree_inv_wf [OF inv(1)])
  have db: "db_total db" "0 < height_of t" "set (death_row t) \<subseteq> range Trie"
    using inv(1) by (auto simp: tree_inv_def)
  have run: "delete_leaf off F fuel db key t =
    (if trie_lookup pt key = None then (Inr (), t)
     else bindS (seek_path F fuel db key) (delete_at F db key) (cache_insert ?kb Remove t))"
  proof -
    obtain found where found: "db (leaf_key off (tree_ident t) key) = Inr found"
      using db(1) by (auto simp: db_total_def)
    have get: "tree_get off F db t key = Inr (trie_lookup pt key)"
      using inv(2) key(1) by (simp add: leaf_inv_def)
    show ?thesis
      using get found key(1)
      unfolding delete_leaf_def delete_at_def [symmetric]
      by (auto simp: height_of_def Let_def bindS_def tree_get_def decode_flat_def
          split: option.splits insert_or_remove.splits)
  qed
  show ?thesis
  proof (cases "trie_lookup pt key")
    case None
    then show ?thesis using run inv by simp
  next
    case (Some v)
    then obtain p where p: "pt = Some p" "plookup p key = Some v" by (auto simp: trie_lookup_def split: option.splits)
    let ?t0 = "cache_insert ?kb Remove t"
    have inv0: "tree_inv F db ?t0 (Some p)" using inv(1) p(1) by simp
    have key0: "length key = height_of ?t0" "height_of ?t0 \<le> fuel" using key by simp_all
    obtain hs ns r fs g kr where seek: "seek_path F fuel db key ?t0 =
        (Inr hs, ?t0\<lparr>nodes := ns, root_node := Some (Loaded r)\<rparr>)"
      and op: "opened F db (?t0\<lparr>nodes := ns, root_node := Some (Loaded r)\<rparr>) p key hs fs g kr"
      by (rule seek_path_Some [OF inv0 key0])
    let ?t1 = "?t0\<lparr>nodes := ns, root_node := Some (Loaded r)\<rparr>"
    note op' = op [unfolded opened_def]
    have look: "plookup (erase g) kr = Some v" using p(2) op' plookup_fill [of fs g kr] by auto
    have db1: "0 < height_of ?t1" "set (death_row ?t1) \<subseteq> range Trie" using db by simp_all
    have "\<exists>t'. delete_at F db key hs ?t1 = (Inr () :: ('e, unit) outcome, t') \<and> deleted F db ?t1 t' (trie_delete key (Some p))"
    proof (cases g)
      case (GLeaf x)
      then show ?thesis using op' by simp
    next
      case (GBin i l r')
      obtain k b where "i = Some k" "kr = [b]" using op' GBin by auto
      then show ?thesis using delete_at_binary [OF op [unfolded GBin \<open>i = Some k\<close> \<open>kr = [b]\<close>] db(1) db1] by blast
    next
      case (GEdge i q c)
      obtain k where k: "i = Some k" using op' GEdge by auto
      have pre: "prefix q kr" using look GEdge by (auto split: if_splits)
      then obtain x where "kr = q" "c = GLeaf x" using op' GEdge by auto
      then show ?thesis using delete_at_edge [OF op [unfolded GEdge k \<open>kr = q\<close> \<open>c = GLeaf x\<close>] db(1) db1] by blast
    qed
    then obtain t' where at: "delete_at F db key hs ?t1 = (Inr () :: ('e, unit) outcome, t')"
      and del: "deleted F db ?t1 t' (trie_delete key (Some p))" by blast
    have "leaf_inv off F db t' (trie_delete key pt)"
      using del Some by (intro leaf_inv_remove [OF inv(2) wf key(1)]) (auto simp: deleted_def)
    then show ?thesis using run seek at del Some p(1) by (simp add: bindS_def deleted_def)
  qed
qed

end
