(* ===== verification/Tree_Commit.thy ===== *)
theory Tree_Commit
  imports Tree_Delete
begin

text \<open>
  What a commit of one tree computes: the hash of every node in memory, in the order in which
  the second pass consumes them, the updates it hands to the database, and the tree that is
  left. The database with the updates applied holds the same trie with no node in memory.
\<close>

section \<open>What the codecs promise\<close>

text \<open>
  The derived \<open>Encode\<close> and \<open>Decode\<close> of nodes and field elements: a node that only holds hashes,
  of a path that fits its length byte, is read back as it was written; slot keys can be
  neither written nor read; a field element is read back as it was written.
\<close>

fun hash_only :: "'f node \<Rightarrow> bool" where
  "hash_only (Binary b) \<longleftrightarrow> as_hash (b_left b) \<noteq> None \<and> as_hash (b_right b) \<noteq> None"
| "hash_only (Edge e) \<longleftrightarrow> as_hash (e_child e) \<noteq> None"

fun node_small :: "'f node \<Rightarrow> bool" where
  "node_small (Binary b) \<longleftrightarrow> b_height b \<le> 255"
| "node_small (Edge e) \<longleftrightarrow> e_height e \<le> 255 \<and> length (e_path e) \<le> 255"

definition node_codec :: "'f ext_ops \<Rightarrow> bool" where
  "node_codec F \<longleftrightarrow>
     (\<forall>n. hash_only n \<and> node_small n \<longrightarrow> node_decode F (node_encode F n) = Some n) \<and>
     (\<forall>bs n. node_decode F bs = Some n \<longrightarrow> hash_only n)"

definition hash_store :: "(bits \<rightharpoonup> 'f node) \<Rightarrow> bool" where
  "hash_store st \<longleftrightarrow> (\<forall>q n. st q = Some n \<longrightarrow> hash_only n)"

lemma hash_storeD: "hash_store st \<Longrightarrow> st q = Some n \<Longrightarrow> hash_only n"
  by (simp add: hash_store_def)

lemma hash_store_stored: "node_codec F \<Longrightarrow> hash_store (stored F db t)"
  by (auto simp: hash_store_def stored_def node_codec_def Let_def split: if_splits sum.splits option.splits)

definition felt_codec :: "'f ext_ops \<Rightarrow> bool" where
  "felt_codec F \<longleftrightarrow> (\<forall>v. felt_decode F (felt_encode F v) = Some v)"

section \<open>The specification of the two passes\<close>

text \<open>Every subtrie with its position.\<close>

fun gsub :: "bits \<Rightarrow> 'f gtree \<Rightarrow> (bits \<times> 'f gtree) set" where
  "gsub p (GLeaf v) = {}"
| "gsub p (GBin i l r) = insert (p, GBin i l r) (gsub (p @ [False]) l \<union> gsub (p @ [True]) r)"
| "gsub p (GEdge i q c) = insert (p, GEdge i q c) (gsub (p @ q) c)"

text \<open>The hashes of the nodes in memory, children first.\<close>

fun ghashes :: "'f ext_ops \<Rightarrow> 'f gtree \<Rightarrow> 'f list" where
  "ghashes F (GLeaf v) = []"
| "ghashes F (GBin i l r) =
     (if i = None then [] else ghashes F l @ ghashes F r @ [phash F (PBin (erase l) (erase r))])"
| "ghashes F (GEdge i q c) =
     (if i = None then [] else ghashes F c @ [phash F (PEdge q (erase c))])"

text \<open>The node that a commit writes for a subtrie.\<close>

fun cnode :: "'f ext_ops \<Rightarrow> bits \<Rightarrow> 'f gtree \<Rightarrow> 'f node" where
  "cnode F p (GBin i l r) =
     Binary \<lparr>b_hash = Some (phash F (PBin (erase l) (erase r))), b_height = length p,
             b_left = Hash (phash F (erase l)), b_right = Hash (phash F (erase r))\<rparr>"
| "cnode F p (GEdge i q c) =
     Edge \<lparr>e_hash = Some (phash F (PEdge q (erase c))), e_height = length p, e_path = q,
           e_child = Hash (phash F (erase c))\<rparr>"
| "cnode F p (GLeaf v) = Edge \<lparr>e_hash = None, e_height = length p, e_path = [], e_child = Hash v\<rparr>"

fun gups :: "'f ext_ops \<Rightarrow> bytes \<Rightarrow> bits \<Rightarrow> 'f gtree \<Rightarrow> (trie_key \<times> bytes insert_or_remove) list" where
  "gups F ident p (GLeaf v) = []"
| "gups F ident p (GBin i l r) =
     (if i = None then []
      else gups F ident (p @ [False]) l @ gups F ident (p @ [True]) r @
           [(branch_key ident p, Insert (node_encode F (cnode F p (GBin i l r))))])"
| "gups F ident p (GEdge i q c) =
     (if i = None then []
      else gups F ident (p @ q) c @
           [(branch_key ident p, Insert (node_encode F (cnode F p (GEdge i q c))))])"

fun gclear :: "'f gtree \<Rightarrow> 'f gtree" where
  "gclear (GLeaf v) = GLeaf v"
| "gclear (GBin i l r) = GBin None (gclear l) (gclear r)"
| "gclear (GEdge i q c) = GEdge None q (gclear c)"

section \<open>The first pass\<close>

lemma rep_Hash:
  "rep F ns st p (Hash f) g \<Longrightarrow> f = phash F (erase g) \<and> gid g = None \<and> ghashes F g = []"
  by (cases g) (auto simp: at_handle_def split: option.splits)

lemma rep_InMemory:
  "rep F ns st p (InMemory k) g \<Longrightarrow> gid g = Some k \<and> (\<exists>n. ns k = Some n \<and> repn F ns st p n g)"
  by (cases g) (auto simp: at_handle_def split: option.splits)

text \<open>
  The list ends with the hashes of the subtrie, children first. The branch with two children in
  memory, where the right one has a list of its own, gives the same list as the sequential one.
\<close>

lemma compute_hashes_ok:
  fixes m :: "'f node slot_map"
  shows "repn F (sm_slots m) st p n g \<Longrightarrow> gid g \<noteq> None \<Longrightarrow> pwf d (erase g) \<Longrightarrow> d \<le> fuel \<Longrightarrow> d \<le> 256 \<Longrightarrow>
    compute_hashes F fuel m n p hs = (Inr (phash F (erase g), hs @ ghashes F g) :: ('e, _) outcome)"
proof (induction g arbitrary: p n d fuel hs)
  case (GLeaf v)
  then show ?case by simp
next
  case (GBin i l r)
  from GBin.prems obtain b where b: "n = Binary b" "rep F (sm_slots m) st (p @ [False]) (b_left b) l"
    "rep F (sm_slots m) st (p @ [True]) (b_right b) r" by auto
  obtain fuel' where fuel: "fuel = Suc fuel'" "d - 1 \<le> fuel'" using GBin.prems by (cases fuel) auto
  have sub: "(\<exists>f. h = Hash f \<and> f = phash F (erase g) \<and> ghashes F g = []) \<or>
      (\<exists>k nn. h = InMemory k \<and> sm_get m k = Some nn \<and>
        (\<forall>hs. compute_hashes F fuel' m nn q hs = (Inr (phash F (erase g), hs @ ghashes F g) :: ('e, _) outcome)))"
    if rep: "rep F (sm_slots m) st q h g"
      and IH: "\<And>nn hs. repn F (sm_slots m) st q nn g \<Longrightarrow> gid g \<noteq> None \<Longrightarrow>
        compute_hashes F fuel' m nn q hs = (Inr (phash F (erase g), hs @ ghashes F g) :: ('e, _) outcome)" for q h g
  proof (cases h)
    case (Hash f)
    then show ?thesis using rep_Hash [OF rep [unfolded Hash]] by simp
  next
    case (InMemory k)
    obtain nn where "sm_slots m k = Some nn" "repn F (sm_slots m) st q nn g" "gid g \<noteq> None"
      using rep_InMemory [OF rep [unfolded InMemory]] by auto
    then show ?thesis using InMemory IH by (simp add: sm_get_def)
  qed
  have l: "(\<exists>f. b_left b = Hash f \<and> f = phash F (erase l) \<and> ghashes F l = []) \<or>
      (\<exists>k nn. b_left b = InMemory k \<and> sm_get m k = Some nn \<and> (\<forall>hs. compute_hashes F fuel' m nn (p @ [False]) hs =
         (Inr (phash F (erase l), hs @ ghashes F l) :: ('e, _) outcome)))"
    using GBin.prems fuel by (intro sub b(2) GBin.IH(1) [of _ _ "d - 1"]) auto
  have r: "(\<exists>f. b_right b = Hash f \<and> f = phash F (erase r) \<and> ghashes F r = []) \<or>
      (\<exists>k nn. b_right b = InMemory k \<and> sm_get m k = Some nn \<and> (\<forall>hs. compute_hashes F fuel' m nn (p @ [True]) hs =
         (Inr (phash F (erase r), hs @ ghashes F r) :: ('e, _) outcome)))"
    using GBin.prems fuel by (intro sub b(3) GBin.IH(2) [of _ _ "d - 1"]) auto
  show ?case
    using l r b(1) fuel(1) GBin.prems(2)
    by (auto simp: get_node_or_felt_def new_with_direction_def bool_of_direction_def Let_def)
next
  case (GEdge i q c)
  from GEdge.prems obtain e where e: "n = Edge e" "e_path e = q" "rep F (sm_slots m) st (p @ q) (e_child e) c" by auto
  obtain fuel' where fuel: "fuel = Suc fuel'" "d - length q \<le> fuel'"
    using GEdge.prems by (cases fuel; cases q) auto
  have q: "length q \<le> 256" "pwf (d - length q) (erase c)" using GEdge.prems by auto
  show ?case
  proof (cases "e_child e")
    case (Hash f)
    then show ?thesis
      using rep_Hash [OF e(3) [unfolded Hash]] e fuel(1) GEdge.prems(2) q
      by (auto simp: get_node_or_felt_def Let_def hash_edge_node_Inr)
  next
    case (InMemory k)
    obtain nn where nn: "sm_get m k = Some nn" "repn F (sm_slots m) st (p @ q) nn c" "gid c \<noteq> None"
      using rep_InMemory [OF e(3) [unfolded InMemory]] by (auto simp: sm_get_def)
    have "compute_hashes F fuel' m nn (p @ q) hs = (Inr (phash F (erase c), hs @ ghashes F c) :: ('e, _) outcome)"
      using GEdge.IH [OF nn(2,3) q(2), of fuel' hs] fuel(2) GEdge.prems by simp
    then show ?thesis
      using e nn fuel(1) GEdge.prems(2) q InMemory
      by (auto simp: get_node_or_felt_def Let_def hash_edge_node_Inr)
  qed
qed

section \<open>The second pass\<close>

definition apply_ups :: "(trie_key \<times> bytes insert_or_remove) list \<Rightarrow> updates \<Rightarrow> updates" where
  "apply_ups xs ups = fold (\<lambda>(k, v). hm_insert k v) xs ups"

lemma apply_ups_simps [simp]:
  "apply_ups [] ups = ups" "apply_ups (xs @ ys) ups = apply_ups ys (apply_ups xs ups)"
  "apply_ups [(k, v)] ups = hm_insert k v ups"
  by (simp_all add: apply_ups_def)

text \<open>The tree without the slots of a subtrie.\<close>

definition freed :: "'f merkle_tree \<Rightarrow> nat set \<Rightarrow> 'f merkle_tree" where
  "freed t R = t\<lparr>nodes := (nodes t)\<lparr>sm_slots := slots t |` (- R)\<rparr>\<rparr>"

lemma freed_simps [simp]:
  "tree_ident (freed t R) = tree_ident t" "slots (freed t R) = slots t |` (- R)"
  "freed (freed t R) R' = freed t (R \<union> R')" "freed t {} = t"
  "max_height (freed t R) = max_height t" "cache_leaf_modified (freed t R) = cache_leaf_modified t"
  "root_node (freed t R) = root_node t" "death_row (freed t R) = death_row t"
  by (simp_all add: freed_def Compl_Un) (simp add: restrict_map_def)

lemma nodes_remove_freed: "nodes_remove k t = freed t {k}"
  by (simp add: nodes_remove_def sm_remove_def freed_def restrict_complement_singleton_eq)

lemma rep_restrict: "set (ids g) \<inter> R = {} \<Longrightarrow> rep F (ns |` (- R)) st p h g = rep F ns st p h g"
  by (rule rep_cong) (auto simp: restrict_map_def)

lemma closed_ids: "rep F ns st p (Hash f) g \<Longrightarrow> hash_store st \<Longrightarrow> ids g = []"
proof (induction g arbitrary: p f)
  case (GBin i l r)
  then obtain b where i: "i = None" and b: "st p = Some (Binary b)" "rep F ns st (p @ [False]) (b_left b) l"
    "rep F ns st (p @ [True]) (b_right b) r"
    by (auto simp: at_handle_def split: option.splits)
  obtain f1 f2 where "b_left b = Hash f1" "b_right b = Hash f2"
    using hash_storeD [OF GBin.prems(2) b(1)] by (cases "b_left b"; cases "b_right b") auto
  then show ?case using GBin.IH GBin.prems(2) b i by simp
next
  case (GEdge i q c)
  then obtain e where i: "i = None" and e: "st p = Some (Edge e)" "rep F ns st (p @ q) (e_child e) c"
    by (auto simp: at_handle_def split: option.splits)
  obtain f1 where "e_child e = Hash f1" using hash_storeD [OF GEdge.prems(2) e(1)] by (cases "e_child e") auto
  then show ?case using GEdge.IH GEdge.prems(2) e i by simp
qed simp

text \<open>The commit of a handle: nothing for a hash, the subtrie for a node in memory.\<close>

lemma commit_handle_ok:
  fixes t :: "'f merkle_tree"
  assumes "hash_store st"
  shows "rep F (slots t) st p h g \<Longrightarrow> distinct (ids g) \<Longrightarrow> pwf d (erase g) \<Longrightarrow> d \<le> fuel \<Longrightarrow>
    commit_handle F fuel h p (t, ups, ghashes F g @ rest) =
      (Inr (phash F (erase g)) :: ('e, 'f) outcome, freed t (set (ids g)),
       apply_ups (gups F (tree_ident t) p g) ups, rest)"
proof (induction g arbitrary: p h d fuel t ups rest)
  case (GLeaf v)
  then show ?case by simp
next
  case (GBin i l r)
  show ?case
  proof (cases i)
    case None
    then obtain f where "h = Hash f" using GBin.prems by (auto simp: at_handle_def)
    then show ?thesis
      using rep_Hash [of F "slots t" st p f "GBin i l r"] closed_ids [of F "slots t" st p f "GBin i l r"] GBin.prems(1) assms None
      by auto
  next
    case (Some k)
    then obtain b where h: "h = InMemory k" and b: "slots t k = Some (Binary b)" "b_height b = length p"
      "rep F (slots t) st (p @ [False]) (b_left b) l" "rep F (slots t) st (p @ [True]) (b_right b) r"
      using GBin.prems(1) by (auto simp: at_handle_def)
    obtain fuel' where fuel: "fuel = Suc fuel'" "d - 1 \<le> fuel'" using GBin.prems by (cases fuel) auto
    have ids: "k \<notin> set (ids l)" "k \<notin> set (ids r)" "set (ids l) \<inter> set (ids r) = {}" "distinct (ids l)" "distinct (ids r)"
      using GBin.prems(2) Some by auto
    have "rep F (slots (freed t {k})) st (p @ [False]) (b_left b) l"
      using b(3) ids(1) rep_restrict [of l "{k}"] by simp
    from GBin.IH(1) [OF this ids(4), of "d - 1" fuel'] fuel GBin.prems(3)
    have L: "commit_handle F fuel' (b_left b) (p @ [False]) (freed t {k}, ups, ghashes F l @ rest) =
      (Inr (phash F (erase l)) :: ('e, 'f) outcome, freed t ({k} \<union> set (ids l)),
       apply_ups (gups F (tree_ident t) (p @ [False]) l) ups, rest)" for ups rest
      by simp
    have "rep F (slots (freed t ({k} \<union> set (ids l)))) st (p @ [True]) (b_right b) r"
      using b(4) ids(2,3) rep_restrict [of r "{k} \<union> set (ids l)"] by (simp add: Int_commute)
    from GBin.IH(2) [OF this ids(5), of "d - 1" fuel'] fuel GBin.prems(3)
    have R: "commit_handle F fuel' (b_right b) (p @ [True]) (freed t ({k} \<union> set (ids l)), ups, ghashes F r @ rest) =
      (Inr (phash F (erase r)) :: ('e, 'f) outcome, freed t ({k} \<union> set (ids l) \<union> set (ids r)),
       apply_ups (gups F (tree_ident t) (p @ [True]) r) ups, rest)" for ups rest
      by simp
    have node: "Binary (b\<lparr>b_hash := Some (phash F (PBin (erase l) (erase r))),
        b_left := Hash (phash F (erase l)), b_right := Hash (phash F (erase r))\<rparr>) = cnode F p (GBin i l r)"
      using b(2) by simp
    show ?thesis
      using h fuel(1) b(1) Some L R node
      by (simp add: take_node_def next_hash_def get_ident_def put_update_def sm_get_def bindS_def
          nodes_remove_freed new_with_direction_def bool_of_direction_def)
  qed
next
  case (GEdge i q c)
  show ?case
  proof (cases i)
    case None
    then obtain f where "h = Hash f" using GEdge.prems by (auto simp: at_handle_def)
    then show ?thesis
      using rep_Hash [of F "slots t" st p f "GEdge i q c"] closed_ids [of F "slots t" st p f "GEdge i q c"] GEdge.prems(1) assms None
      by auto
  next
    case (Some k)
    then obtain e where h: "h = InMemory k" and e: "slots t k = Some (Edge e)" "e_height e = length p" "e_path e = q"
      "rep F (slots t) st (p @ q) (e_child e) c"
      using GEdge.prems(1) by (auto simp: at_handle_def)
    obtain fuel' where fuel: "fuel = Suc fuel'" "d - length q \<le> fuel'"
      using GEdge.prems by (cases fuel; cases q) auto
    have ids: "k \<notin> set (ids c)" "distinct (ids c)" using GEdge.prems(2) Some by auto
    have "rep F (slots (freed t {k})) st (p @ q) (e_child e) c"
      using e(4) ids(1) rep_restrict [of c "{k}"] by simp
    from GEdge.IH [OF this ids(2), of "d - length q" fuel'] fuel GEdge.prems(3)
    have C: "commit_handle F fuel' (e_child e) (p @ q) (freed t {k}, ups, ghashes F c @ rest) =
      (Inr (phash F (erase c)) :: ('e, 'f) outcome, freed t ({k} \<union> set (ids c)),
       apply_ups (gups F (tree_ident t) (p @ q) c) ups, rest)" for ups rest
      by simp
    have node: "Edge (e\<lparr>e_hash := Some (phash F (PEdge q (erase c))), e_child := Hash (phash F (erase c))\<rparr>) =
        cnode F p (GEdge i q c)"
      using e(2,3) by simp
    show ?thesis
      using h fuel(1) e(1,3) Some C node
      by (simp add: take_node_def next_hash_def get_ident_def put_update_def sm_get_def bindS_def nodes_remove_freed)
  qed
qed

section \<open>Positions\<close>

lemma gpos_gsub: "gpos p g = fst ` gsub p g"
  by (induction g arbitrary: p) (auto simp: image_Un)

lemma gsub_unique:
  "pwf n (erase g) \<Longrightarrow> (q, s) \<in> gsub p g \<Longrightarrow> (q, s') \<in> gsub p g \<Longrightarrow> s = s'"
proof (induction g arbitrary: n p)
  case (GBin i l r)
  have pre: "prefix (p @ [b]) x" if "(x, y) \<in> gsub (p @ [b]) g" for x y b and g :: "'a gtree"
    using that gpos_prefix [of x "p @ [b]" g] by (force simp: gpos_gsub)
  have self: "(p, y) \<notin> gsub (p @ [b]) g" for y b and g :: "'a gtree"
    using pre [of p y b g] by (auto simp: prefix_def)
  have apart: "(x, y') \<notin> gsub (p @ [True]) r" if "(x, y) \<in> gsub (p @ [False]) l" for x y y'
    using pre [OF that] pre [of x y' True r] by (auto simp: prefix_def)
  show ?case
    using GBin.prems GBin.IH(1) [of "n - 1" "p @ [False]"] GBin.IH(2) [of "n - 1" "p @ [True]"] self
    by (auto dest: apart)
next
  case (GEdge i x c)
  have "(p, y) \<notin> gsub (p @ x) c" for y
    using gpos_prefix [of p "p @ x" c] GEdge.prems(1) by (force simp: gpos_gsub)
  then show ?case using GEdge.prems GEdge.IH [of "n - length x" "p @ x"] by auto
qed simp

lemma dbpos_gsub: "q \<in> dbpos p g \<longleftrightarrow> (\<exists>s. (q, s) \<in> gsub p g \<and> gid s = None)"
proof (induction g arbitrary: p)
  case (GBin i l r)
  then show ?case by (cases i) auto
next
  case (GEdge i x c)
  then show ?case by (cases i) auto
qed simp

fun gclosed :: "'f gtree \<Rightarrow> bool" where
  "gclosed (GLeaf v) \<longleftrightarrow> True"
| "gclosed (GBin i l r) \<longleftrightarrow> (if i = None then ids l = [] \<and> ids r = [] else gclosed l \<and> gclosed r)"
| "gclosed (GEdge i q c) \<longleftrightarrow> (if i = None then ids c = [] else gclosed c)"

lemma rep_closed: "rep F ns st p h g \<Longrightarrow> hash_store st \<Longrightarrow> gclosed g"
proof (induction g arbitrary: p h)
  case (GBin i l r)
  show ?case
  proof (cases i)
    case None
    then obtain f where "h = Hash f" using GBin.prems by (auto simp: at_handle_def)
    then show ?thesis using closed_ids [of F ns st p f "GBin i l r"] GBin.prems None by simp
  next
    case (Some k)
    then show ?thesis using GBin by (auto simp: at_handle_def)
  qed
next
  case (GEdge i q c)
  show ?case
  proof (cases i)
    case None
    then obtain f where "h = Hash f" using GEdge.prems by (auto simp: at_handle_def)
    then show ?thesis using closed_ids [of F ns st p f "GEdge i q c"] GEdge.prems None by simp
  next
    case (Some k)
    then show ?thesis using GEdge by (auto simp: at_handle_def)
  qed
qed simp

lemma gsub_no_ids: "ids g = [] \<Longrightarrow> (q, s) \<in> gsub p g \<Longrightarrow> gid s = None"
proof (induction g arbitrary: p)
  case (GBin i l r)
  then show ?case by (cases i) auto
next
  case (GEdge i x c)
  then show ?case by (cases i) auto
qed simp

text \<open>The nodes in memory with their positions, and the update that each one gives.\<close>

definition msub :: "bits \<Rightarrow> 'f gtree \<Rightarrow> (bits \<times> 'f gtree) set" where
  "msub p g = {x \<in> gsub p g. gid (snd x) \<noteq> None}"

definition node_update :: "'f ext_ops \<Rightarrow> bytes \<Rightarrow> bits \<times> 'f gtree \<Rightarrow> trie_key \<times> bytes insert_or_remove" where
  "node_update F ident x = (branch_key ident (fst x), Insert (node_encode F (cnode F (fst x) (snd x))))"

lemma msub_simps:
  "msub p (GLeaf v) = {}"
  "msub p (GBin (Some j) l r) = insert (p, GBin (Some j) l r) (msub (p @ [False]) l \<union> msub (p @ [True]) r)"
  "msub p (GEdge (Some j) q c) = insert (p, GEdge (Some j) q c) (msub (p @ q) c)"
  by (auto simp: msub_def)

lemma msub_no_ids: "ids g = [] \<Longrightarrow> msub p g = {}"
  by (auto simp: msub_def dest: gsub_no_ids)

lemma gups_msub: "gclosed g \<Longrightarrow> set (gups F ident p g) = node_update F ident ` msub p g"
proof (induction g arbitrary: p)
  case (GBin i l r)
  show ?case
  proof (cases i)
    case None
    then show ?thesis using GBin.prems msub_no_ids [of "GBin i l r" p] by simp
  next
    case (Some j)
    then show ?thesis
      using GBin by (auto simp: msub_simps image_Un node_update_def simp del: cnode.simps)
  qed
next
  case (GEdge i x c)
  show ?case
  proof (cases i)
    case None
    then show ?thesis using GEdge.prems msub_no_ids [of "GEdge i x c" p] by simp
  next
    case (Some j)
    then show ?thesis
      using GEdge by (auto simp: msub_simps image_Un node_update_def simp del: cnode.simps)
  qed
qed (simp add: msub_simps)

section \<open>The database after a commit\<close>

text \<open>A subtrie whose nodes in memory have been written out.\<close>

lemma rep_written:
  "rep F ns st p h g \<Longrightarrow> (\<And>q s. (q, s) \<in> gsub p g \<Longrightarrow> gid s \<noteq> None \<Longrightarrow> st' q = Some (cnode F q s)) \<Longrightarrow>
   (\<And>q. q \<in> dbpos p g \<Longrightarrow> st' q = st q) \<Longrightarrow> hash_store st \<Longrightarrow>
   rep F Map.empty st' p (Hash (phash F (erase g))) (gclear g) \<and> erase (gclear g) = erase g"
proof (induction g arbitrary: p h)
  case (GBin i l r)
  have sub: "rep F Map.empty st' (p @ [False]) (Hash (phash F (erase l))) (gclear l) \<and> erase (gclear l) = erase l"
    if "rep F ns st (p @ [False]) h l" for h using that GBin.prems(2-4) by (intro GBin.IH(1)) auto
  have sub': "rep F Map.empty st' (p @ [True]) (Hash (phash F (erase r))) (gclear r) \<and> erase (gclear r) = erase r"
    if "rep F ns st (p @ [True]) h r" for h using that GBin.prems(2-4) by (intro GBin.IH(2)) auto
  show ?case
  proof (cases i)
    case None
    then obtain b where b: "st p = Some (Binary b)" "b_hash b = Some (phash F (PBin (erase l) (erase r)))"
      "b_height b = length p" "rep F ns st (p @ [False]) (b_left b) l" "rep F ns st (p @ [True]) (b_right b) r"
      using GBin.prems(1) by (auto simp: at_handle_def)
    obtain f1 f2 where "b_left b = Hash f1" "b_right b = Hash f2"
      using hash_storeD [OF GBin.prems(4) b(1)] by (cases "b_left b"; cases "b_right b") auto
    then have "b_left b = Hash (phash F (erase l))" "b_right b = Hash (phash F (erase r))"
      using b(4,5) rep_Hash by metis+
    then show ?thesis using b sub [OF b(4)] sub' [OF b(5)] GBin.prems(3) [of p] None by (auto simp: at_handle_def)
  next
    case (Some k)
    then obtain b where "ns k = Some (Binary b)" "rep F ns st (p @ [False]) (b_left b) l"
      "rep F ns st (p @ [True]) (b_right b) r"
      using GBin.prems(1) by (auto simp: at_handle_def)
    then show ?thesis using sub sub' GBin.prems(2) [of p "GBin i l r"] Some by (auto simp: at_handle_def)
  qed
next
  case (GEdge i x c)
  have sub: "rep F Map.empty st' (p @ x) (Hash (phash F (erase c))) (gclear c) \<and> erase (gclear c) = erase c"
    if "rep F ns st (p @ x) h c" for h using that GEdge.prems(2-4) by (intro GEdge.IH) auto
  show ?case
  proof (cases i)
    case None
    then obtain e where e: "st p = Some (Edge e)" "e_hash e = Some (phash F (PEdge x (erase c)))"
      "e_height e = length p" "e_path e = x" "rep F ns st (p @ x) (e_child e) c"
      using GEdge.prems(1) by (auto simp: at_handle_def)
    obtain f1 where "e_child e = Hash f1" using hash_storeD [OF GEdge.prems(4) e(1)] by (cases "e_child e") auto
    then have "e_child e = Hash (phash F (erase c))" using e(5) rep_Hash by metis
    then show ?thesis using e sub [OF e(5)] GEdge.prems(3) [of p] None by (auto simp: at_handle_def)
  next
    case (Some k)
    then obtain e where "ns k = Some (Edge e)" "rep F ns st (p @ x) (e_child e) c"
      using GEdge.prems(1) by (auto simp: at_handle_def)
    then show ?thesis using sub GEdge.prems(2) [of p "GEdge i x c"] Some by (auto simp: at_handle_def)
  qed
qed simp

lemma gpos_gclear [simp]: "gpos p (gclear g) = gpos p g" and ids_gclear [simp]: "ids (gclear g) = []"
  by (induction g arbitrary: p) auto

text \<open>A database to which a list of updates was written.\<close>

definition db_after :: "updates \<Rightarrow> 'e db_view \<Rightarrow> 'e db_view" where
  "db_after ups db k =
     (case hm_get ups k of None \<Rightarrow> db k | Some (Insert bs) \<Rightarrow> Inr (Some bs) | Some Remove \<Rightarrow> Inr None)"

lemma map_of_rev_distinct: "distinct (map fst xs) \<Longrightarrow> map_of (rev xs) = map_of xs"
  by (simp add: map_of_inject_set rev_map [symmetric])

lemma hm_get_apply_ups:
  "hm_get (apply_ups xs ups) k = (case map_of (rev xs) k of None \<Rightarrow> hm_get ups k | Some v \<Rightarrow> Some v)"
  by (induction xs arbitrary: ups)
     (auto simp: apply_ups_def hm_get_insert map_add_def split: option.splits)

lemma hm_get_death_ups:
  "hm_get (fold (\<lambda>node_key. hm_insert node_key Remove) ks ups) k =
     (if k \<in> set ks then Some Remove else hm_get ups k)"
  by (induction ks arbitrary: ups) (auto simp: hm_get_insert)

text \<open>The three parts of the updates of a commit.\<close>

definition death_ups :: "'f merkle_tree \<Rightarrow> updates" where
  "death_ups t = fold (\<lambda>node_key. hm_insert node_key Remove) (death_row t) []"

definition leaf_ups :: "'f ext_ops \<Rightarrow> 'f merkle_tree \<Rightarrow> (trie_key \<times> bytes insert_or_remove) list" where
  "leaf_ups F t = map (\<lambda>(key, value). (Flat (tree_ident t @ key), encode_leaf_update F value)) (cache_leaf_modified t)"

definition all_ups :: "'f ext_ops \<Rightarrow> 'f merkle_tree \<Rightarrow> (trie_key \<times> bytes insert_or_remove) list \<Rightarrow> updates" where
  "all_ups F t xs = apply_ups (leaf_ups F t) (apply_ups xs (death_ups t))"

lemma leaf_ups_fold:
  "fold (\<lambda>(key, value). hm_insert (trie_key_new (tree_ident t) FlatType key) (encode_leaf_update F value))
     (cache_leaf_modified t) ups = apply_ups (leaf_ups F t) ups"
  by (simp add: apply_ups_def leaf_ups_def fold_map comp_def case_prod_unfold)

lemma all_ups_Trie:
  "hm_get (all_ups F t xs) (Trie b) =
     (case map_of (rev xs) (Trie b) of
        Some v \<Rightarrow> Some v
      | None \<Rightarrow> if Trie b \<in> set (death_row t) then Some Remove else None)"
proof -
  have "map_of (rev (leaf_ups F t)) (Trie b) = None"
    by (auto simp: map_of_eq_None_iff leaf_ups_def)
  then show ?thesis
    by (simp add: all_ups_def hm_get_apply_ups death_ups_def hm_get_death_ups split: option.split)
qed

lemma all_ups_Flat:
  assumes "hm_wf (cache_leaf_modified t)" "set (death_row t) \<subseteq> range Trie" "fst ` set xs \<subseteq> range Trie"
  shows "hm_get (all_ups F t xs) (Flat (tree_ident t @ b)) =
    map_option (encode_leaf_update F) (hm_get (cache_leaf_modified t) b)"
proof -
  let ?c = "cache_leaf_modified t"
  have flat: "map_of (map (\<lambda>(key, value). (Flat (tree_ident t @ key), encode_leaf_update F value)) c)
      (Flat (tree_ident t @ b)) = map_option (encode_leaf_update F) (map_of c b)" for c
    by (induction c) auto
  have "distinct (map fst (leaf_ups F t))"
    using assms(1) by (auto simp: leaf_ups_def hm_wf_def comp_def case_prod_unfold distinct_map inj_on_def)
  then have "map_of (rev (leaf_ups F t)) (Flat (tree_ident t @ b)) = map_option (encode_leaf_update F) (hm_get ?c b)"
    using flat [of ?c] by (simp only: map_of_rev_distinct) (simp add: leaf_ups_def hm_get_def)
  moreover have "Flat x \<notin> set (death_row t)" "map_of (rev xs) (Flat x) = None" for x
    using assms(2,3) by (auto simp: map_of_eq_None_iff)
  ultimately show ?thesis
    by (auto simp: all_ups_def hm_get_apply_ups death_ups_def hm_get_death_ups split: option.split)
qed

text \<open>The state of a tree after a commit.\<close>

definition committed :: "'f merkle_tree \<Rightarrow> 'f merkle_tree \<Rightarrow> bool" where
  "committed t t' \<longleftrightarrow>
     root_node t' = None \<and> slots t' = Map.empty \<and> sm_wf (nodes t') \<and> death_row t' = [] \<and>
     cache_leaf_modified t' = [] \<and> tree_ident t' = tree_ident t \<and> max_height t' = max_height t"

lemma committed_height: "committed t t' \<Longrightarrow> height_of t' = height_of t"
  by (simp add: committed_def height_of_def)

lemma leaf_inv_commit:
  assumes inv: "leaf_inv off F db t pt" and codec: "felt_codec F" and com: "committed t t'"
    and trie: "set (death_row t) \<subseteq> range Trie" "fst ` set xs \<subseteq> range Trie"
  shows "leaf_inv off F (db_after (all_ups F t xs) db) t' pt"
proof -
  have wf: "hm_wf (cache_leaf_modified t)" using inv by (simp add: leaf_inv_def)
  have "read_flat off F (db_after (all_ups F t xs) db) t' k = tree_get off F db t k" if "length k = height_of t" for k
    using all_ups_Flat [OF wf trie, of F "bitslice_to_bytes off k"] com codec
    by (auto simp: read_flat_def tree_get_def db_after_def committed_def encode_leaf_update_def decode_flat_def
        felt_codec_def Let_def split: option.splits insert_or_remove.splits)
  moreover have "tree_get off F (db_after (all_ups F t xs) db) t' k = read_flat off F (db_after (all_ups F t xs) db) t' k" for k
    using com by (simp add: tree_get_def read_flat_def committed_def)
  ultimately show ?thesis
    using inv committed_height [OF com] com by (auto simp: leaf_inv_def committed_def)
qed

text \<open>The update of a position: the node in memory there, if there is one.\<close>

lemma gups_lookup:
  assumes closed: "gclosed g" and pwf: "pwf d (erase g)" and small: "\<forall>x \<in> gpos p g. length x \<le> 255"
    and q: "length q \<le> 255"
  shows "(q, s) \<in> msub p g \<Longrightarrow>
      map_of (rev (gups F ident p g)) (branch_key ident q) = Some (Insert (node_encode F (cnode F q s)))"
    and "q \<notin> fst ` msub p g \<Longrightarrow> map_of (rev (gups F ident p g)) (branch_key ident q) = None"
proof -
  let ?xs = "rev (gups F ident p g)"
  have set: "set ?xs = node_update F ident ` msub p g" using gups_msub [OF closed] by simp
  have key: "x = q" if "(x, s) \<in> msub p g" "branch_key ident x = branch_key ident q" for x s
    using that small q branch_key_inj [of x q ident] by (force simp: msub_def gpos_gsub)
  {
    assume s: "(q, s) \<in> msub p g"
    have "(branch_key ident q, Insert (node_encode F (cnode F q s))) \<in> set ?xs"
      using s unfolding set by (force simp: node_update_def)
    then obtain v where v: "map_of ?xs (branch_key ident q) = Some v"
      by (metis map_of_eq_None_iff not_None_eq fst_conv image_eqI)
    then have "(branch_key ident q, v) \<in> node_update F ident ` msub p g" using map_of_SomeD set by metis
    then obtain x s' where x: "(x, s') \<in> msub p g" "branch_key ident x = branch_key ident q"
      "v = Insert (node_encode F (cnode F x s'))" by (auto simp: node_update_def)
    then have "s' = s" using key [OF x(1,2)] s gsub_unique [OF pwf] by (auto simp: msub_def)
    then show "map_of ?xs (branch_key ident q) = Some (Insert (node_encode F (cnode F q s)))"
      using v x(3) key [OF x(1,2)] by simp
  }
  assume no: "q \<notin> fst ` msub p g"
  have "branch_key ident q \<notin> fst ` set ?xs"
  proof
    assume "branch_key ident q \<in> fst ` set ?xs"
    then obtain x s where "(x, s) \<in> msub p g" "branch_key ident x = branch_key ident q"
      unfolding set by (auto simp: node_update_def)
    then show False using key no by force
  qed
  then show "map_of ?xs (branch_key ident q) = None" by (simp add: map_of_eq_None_iff)
qed

lemma cnode_codec:
  assumes codec: "node_codec F" and pwf: "pwf d (erase g)" and qs: "(q, s) \<in> gsub p g" "length p + d \<le> 255"
  shows "node_decode F (node_encode F (cnode F q s)) = Some (cnode F q s)"
proof -
  have "node_small (cnode F q s)"
    using pwf qs
  proof (induction g arbitrary: p d)
    case (GBin i l r)
    have "pwf (d - 1) (erase l)" "pwf (d - 1) (erase r)" "length (p @ [b]) + (d - 1) \<le> 255" for b
      using GBin.prems by auto
    then show ?case
      using GBin.IH(1) [of "d - 1" "p @ [False]"] GBin.IH(2) [of "d - 1" "p @ [True]"] GBin.prems by auto
  next
    case (GEdge i x c)
    have "pwf (d - length x) (erase c)" "length (p @ x) + (d - length x) \<le> 255" using GEdge.prems by auto
    then show ?case using GEdge.IH [of "d - length x" "p @ x"] GEdge.prems by auto
  qed simp
  moreover have "hash_only (cnode F q s)" by (cases s) auto
  ultimately show ?thesis using codec by (simp add: node_codec_def)
qed

lemma rep_stored: "rep F ns st p h g \<Longrightarrow> q \<in> dbpos p g \<Longrightarrow> st q \<noteq> None"
proof (induction g arbitrary: p h)
  case (GBin i l r)
  then show ?case by (cases i) (auto simp: at_handle_def)
next
  case (GEdge i x c)
  then show ?case by (cases i) (auto simp: at_handle_def)
qed simp

lemma db_total_after: "db_total db \<Longrightarrow> db_total (db_after ups db)"
  by (auto simp: db_total_def db_after_def split: option.split insert_or_remove.split)

text \<open>The database after a commit holds the same trie, and exactly its nodes.\<close>

lemma tree_inv_commit:
  assumes g: "gtree_inv F db t h g" and codec: "node_codec F" and com: "committed t t'"
    and tot: "db_total db" "0 < height_of t"
  shows "tree_inv F (db_after (all_ups F t (gups F (tree_ident t) [] g)) db) t' (Some (erase g))"
    and "stored F (db_after (all_ups F t (gups F (tree_ident t) [] g)) db) t' [] \<noteq> None \<and>
      get_hash (the (stored F (db_after (all_ups F t (gups F (tree_ident t) [] g)) db) t' [])) = Some (phash F (erase g))"
proof -
  let ?ups = "all_ups F t (gups F (tree_ident t) [] g)"
  let ?db = "db_after ?ups db"
  note inv = g [unfolded gtree_inv_def]
  have rep: "rep F (slots t) (stored F db t) [] h g" and pwf: "pwf (height_of t) (erase g)" using inv by blast+
  note ho = hash_store_stored [OF codec, of db t]
  have closed: "gclosed g" using rep_closed [OF rep ho] .
  have small: "\<forall>x \<in> gpos [] g. length x \<le> 255"
    using gpos_length [OF pwf] height_le [of t] by fastforce
  note look = gups_lookup [OF closed pwf small, where F = F and ident = "tree_ident t"]
  have ups: "hm_get ?ups (branch_key (tree_ident t) q) =
      (case map_of (rev (gups F (tree_ident t) [] g)) (branch_key (tree_ident t) q) of
         Some v \<Rightarrow> Some v | None \<Rightarrow> if branch_key (tree_ident t) q \<in> set (death_row t) then Some Remove else None)" for q
    unfolding trie_key_new_simps by (rule all_ups_Trie)
  have com': "tree_ident t' = tree_ident t" "death_row t' = []" using com by (simp_all add: committed_def)
  have written: "stored F ?db t' q = Some (cnode F q s)" if "(q, s) \<in> gsub [] g" "gid s \<noteq> None" for q s
  proof -
    have q: "length q \<le> 255" using that small by (force simp: gpos_gsub)
    have "(q, s) \<in> msub [] g" using that by (simp add: msub_def)
    then have "hm_get ?ups (branch_key (tree_ident t) q) = Some (Insert (node_encode F (cnode F q s)))"
      using ups look(1) [OF q] by simp
    then show ?thesis
      using cnode_codec [OF codec pwf that(1)] height_le [of t] com' by (simp add: stored_def db_after_def)
  qed
  have nomem: "q \<notin> fst ` msub [] g" if dbq: "q \<in> dbpos [] g" for q
  proof
    assume "q \<in> fst ` msub [] g"
    then obtain s where s: "(q, s) \<in> gsub [] g" "gid s \<noteq> None" by (auto simp: msub_def)
    obtain s' where s': "(q, s') \<in> gsub [] g" "gid s' = None" using dbq unfolding dbpos_gsub by blast
    show False using gsub_unique [OF pwf s(1) s'(1)] s(2) s'(2) by simp
  qed
  have kept: "stored F ?db t' q = stored F db t q" if "q \<in> dbpos [] g" for q
  proof -
    have q: "length q \<le> 255" using that small dbpos_sub_gpos by blast
    have "branch_key (tree_ident t) q \<notin> set (death_row t)"
      using rep_stored [OF rep that] by (auto simp: stored_def Let_def split: if_splits)
    then show ?thesis using ups [of q] look(2) [OF q nomem [OF that]] com' by (simp add: stored_def db_after_def)
  qed
  have rep': "rep F Map.empty (stored F ?db t') [] (Hash (phash F (erase g))) (gclear g)" "erase (gclear g) = erase g"
    using rep_written [OF rep written kept ho] by blast+
  have "absent ?db t' q" if "length q \<le> 255" "q \<notin> gpos [] g" for q
  proof -
    have "q \<notin> fst ` msub [] g" using that(2) by (auto simp: msub_def gpos_gsub)
    moreover have "absent db t q" using inv that by blast
    ultimately show ?thesis
      using ups [of q] look(2) [OF that(1)] com' by (auto simp: absent_def db_after_def Let_def)
  qed
  then have "gtree_inv F ?db t' (Hash (phash F (erase g))) (gclear g)"
    using rep' pwf com committed_height [OF com] by (simp add: gtree_inv_def committed_def)
  then show "tree_inv F ?db t' (Some (erase g))"
    using com tot db_total_after [OF tot(1)] committed_height [OF com] rep'(2)
    by (auto simp: tree_inv_def committed_def root_matches_def intro!: exI [of _ "gclear g"])
  have "gclear g \<noteq> GLeaf v" for v using pwf tot(2) by (cases g) auto
  then show "stored F ?db t' [] \<noteq> None \<and> get_hash (the (stored F ?db t' [])) = Some (phash F (erase g))"
    using rep' by (cases g) (auto simp: at_handle_def)
qed

lemma tree_inv_commit_None:
  assumes "tree_inv F db t None" and com: "committed t t'"
  shows "tree_inv F (db_after (all_ups F t []) db) t' None"
proof -
  have abs: "absent db t q" if "length q \<le> 255" for q
    using assms(1) that by (simp add: tree_inv_def empty_inv_def)
  have "absent (db_after (all_ups F t []) db) t' q" if "length q \<le> 255" for q
    using abs [OF that] com all_ups_Trie [of F t "[]" "tree_ident t @ path_encode q"]
    by (auto simp: absent_def db_after_def committed_def Let_def)
  then show ?thesis
    using assms committed_height [OF com] db_total_after [of db]
    by (simp add: tree_inv_def empty_inv_def committed_def)
qed

section \<open>\<open>get_updates\<close>\<close>

lemma get_updates_run:
  fixes t :: "'f merkle_tree"
  assumes inv: "gtree_inv F db t h g" "root_matches t h" and codec: "node_codec F" and fuel: "height_of t \<le> fuel"
    and wf: "sm_wf (nodes t)"
  shows "\<exists>t'. get_updates F fuel t =
      (Inr (all_ups F t (gups F (tree_ident t) [] g)) :: ('e, updates) outcome, t') \<and> committed t t'"
proof -
  note g = inv(1) [unfolded gtree_inv_def]
  let ?t0 = "t\<lparr>death_row := []\<rparr>"
  have rep: "rep F (slots t) (stored F db t) [] h g" and pwf: "pwf (height_of t) (erase g)"
    and ids: "distinct (ids g)" "dom (slots t) = set (ids g)" using g by blast+
  note ho = hash_store_stored [OF codec, of db t]
  show ?thesis
  proof (cases "root_node t")
    case None
    then obtain f where "h = Hash f" using inv(2) by (auto simp: root_matches_def)
    then have "ids g = []" "gups F (tree_ident t) [] g = []"
      using closed_ids [of F "slots t" "stored F db t" "[]" f g] rep_Hash [of F "slots t" "stored F db t" "[]" f g] rep ho
      by (auto, cases g, auto)
    then have "slots t = Map.empty" using ids(2) by simp
    then show ?thesis
      using None wf \<open>gups F (tree_ident t) [] g = []\<close>
      by (auto simp: get_updates_def bindS_def Let_def leaf_ups_fold [of ?t0, simplified] all_ups_def death_ups_def
          committed_def leaf_ups_def)
  next
    case (Some x)
    then obtain k where k: "root_node t = Some (Loaded k)" "h = InMemory k"
      using inv(2) by (cases x) (auto simp: root_matches_def)
    obtain n where n: "slots t k = Some n" "repn F (slots t) (stored F db t) [] n g" "gid g \<noteq> None"
      using rep_InMemory [OF rep [unfolded k(2)]] by auto
    have h255: "height_of t \<le> 256" using height_le [of t] by simp
    have hashes: "compute_root_hash F fuel ?t0 [] = (Inr (phash F (erase g), ghashes F g) :: ('e, _) outcome)"
      using k(1) n(1) compute_hashes_ok [OF n(2,3) pwf fuel h255, of "[]"]
      by (simp add: compute_root_hash_def sm_get_def)
    have "rep F (slots ?t0) (stored F db t) [] (InMemory k) g" using rep k by simp
    from commit_handle_ok [OF ho this ids(1) pwf fuel, where ups = "death_ups t" and rest = "[]"]
    have commit: "commit_subtree F fuel k [] (?t0, death_ups t, ghashes F g) =
        (Inr (phash F (erase g)) :: ('e, 'f) outcome, freed ?t0 (set (ids g)),
         apply_ups (gups F (tree_ident t) [] g) (death_ups t), [])" by simp
    let ?t1 = "freed ?t0 (set (ids g))"
    have "get_updates F fuel t = (Inr (all_ups F t (gups F (tree_ident t) [] g)) :: ('e, updates) outcome,
        ?t1\<lparr>root_node := None, cache_leaf_modified := []\<rparr>)"
      using k(1) hashes commit leaf_ups_fold [of ?t1 F]
      by (simp add: get_updates_def bindS_def Let_def death_ups_def all_ups_def leaf_ups_def)
    moreover have "committed t (?t1\<lparr>root_node := None, cache_leaf_modified := []\<rparr>)"
      using ids(2) wf by (auto simp: committed_def freed_def sm_wf_def restrict_map_def fun_eq_iff)
    ultimately show ?thesis by blast
  qed
qed

text \<open>
  The nodes of a tree that is committed: it succeeds with fuel for the height of the tree, leaves
  no node in memory, and the database with its updates holds the same trie, whose hash the root
  has. What the leaf cache holds plays no role for this.
\<close>

lemma get_updates_tree:
  fixes F :: "'f ext_ops" and db :: "'e db_view"
  assumes inv: "tree_inv F db t pt" and codec: "node_codec F" and fuel: "height_of t \<le> fuel"
  shows "\<exists>xs t'. get_updates F fuel t = (Inr (all_ups F t xs) :: ('e, updates) outcome, t') \<and> committed t t' \<and>
    fst ` set xs \<subseteq> range (\<lambda>b. Trie (tree_ident t @ b)) \<and> tree_inv F (db_after (all_ups F t xs) db) t' pt \<and>
    tree_root_hash F (db_after (all_ups F t xs) db) t' = Inr (trie_hash F pt)"
proof (cases pt)
  case None
  have root: "root_node t = None \<or> root_node t = Some Empty" and emp: "slots t = Map.empty" and wf: "sm_wf (nodes t)"
    using inv None by (auto simp: tree_inv_def empty_inv_def)
  let ?t' = "t\<lparr>death_row := [], root_node := None, cache_leaf_modified := []\<rparr>"
  have run: "get_updates F fuel t = (Inr (all_ups F t []) :: ('e, updates) outcome, ?t')"
    using root leaf_ups_fold [of "t\<lparr>death_row := []\<rparr>" F]
    by (auto simp: get_updates_def bindS_def Let_def all_ups_def death_ups_def leaf_ups_def)
  have com: "committed t ?t'" using emp wf by (simp add: committed_def)
  have ti: "tree_inv F (db_after (all_ups F t []) db) ?t' None"
    by (rule tree_inv_commit_None [OF inv [unfolded None] com])
  then have "absent (db_after (all_ups F t []) db) ?t' []" by (simp add: tree_inv_def empty_inv_def)
  then have "tree_root_hash F (db_after (all_ups F t []) db) ?t' = Inr (ZERO F)"
    by (auto simp: tree_root_hash_def get_trie_branch_in_db_from_path_def absent_def Let_def)
  then show ?thesis using run com ti None by (intro exI [of _ "[]"] exI [of _ ?t']) (simp add: trie_hash_def)
next
  case (Some p)
  then obtain h g where g: "erase g = p" "root_matches t h" "gtree_inv F db t h g" and wf: "sm_wf (nodes t)"
    and tot: "db_total db" "0 < height_of t"
    using inv by (auto simp: tree_inv_def)
  let ?xs = "gups F (tree_ident t) [] g" and ?db = "db_after (all_ups F t (gups F (tree_ident t) [] g)) db"
  obtain t' where run: "get_updates F fuel t = (Inr (all_ups F t ?xs) :: ('e, updates) outcome, t')"
    and com: "committed t t'" using get_updates_run [OF g(3,2) codec fuel wf] by blast
  note ti = tree_inv_commit [OF g(3) codec com tot]
  have "gclosed g" using g(3) rep_closed hash_store_stored [OF codec] by (metis gtree_inv_def)
  then have xs: "fst ` set ?xs \<subseteq> range (\<lambda>b. Trie (tree_ident t @ b))" by (auto simp: gups_msub node_update_def)
  obtain n where n: "stored F ?db t' [] = Some n" "get_hash n = Some (phash F p)" using ti(2) g(1) by auto
  have "get_trie_branch_in_db_from_path F (death_row t') (tree_ident t') ?db [] = (Inr (Some n) :: ('e, _) outcome)"
    using n(1) by (auto simp: stored_def get_trie_branch_in_db_from_path_def Let_def
        split: if_splits sum.splits option.splits)
  then have "tree_root_hash F ?db t' = Inr (trie_hash F pt)"
    using com n(2) Some by (simp add: tree_root_hash_def committed_def trie_hash_def)
  then show ?thesis using run com xs ti(1) g(1) Some by blast
qed

text \<open>The whole commit of one tree, the leaves included.\<close>

lemma get_updates_commit:
  fixes F :: "'f ext_ops" and db :: "'e db_view"
  assumes inv: "tree_inv F db t pt" "leaf_inv off F db t pt" and codec: "node_codec F" "felt_codec F"
    and fuel: "height_of t \<le> fuel"
  shows "\<exists>ups t'. get_updates F fuel t = (Inr ups :: ('e, updates) outcome, t') \<and> committed t t' \<and>
    tree_inv F (db_after ups db) t' pt \<and> leaf_inv off F (db_after ups db) t' pt \<and>
    tree_root_hash F (db_after ups db) t' = Inr (trie_hash F pt)"
proof -
  obtain xs t' where run: "get_updates F fuel t = (Inr (all_ups F t xs) :: ('e, updates) outcome, t')" "committed t t'"
    "fst ` set xs \<subseteq> range (\<lambda>b. Trie (tree_ident t @ b))" "tree_inv F (db_after (all_ups F t xs) db) t' pt"
    "tree_root_hash F (db_after (all_ups F t xs) db) t' = Inr (trie_hash F pt)"
    using get_updates_tree [OF inv(1) codec(1) fuel] by blast
  then have xs: "fst ` set xs \<subseteq> range Trie" by blast
  have "set (death_row t) \<subseteq> range Trie" using inv(1) by (simp add: tree_inv_def)
  then have "leaf_inv off F (db_after (all_ups F t xs) db) t' pt"
    by (rule leaf_inv_commit [OF inv(2) codec(2) run(2) _ xs])
  then show ?thesis using run by blast
qed

text \<open>A key on the death row that is none of the tree's own is removed by the commit.\<close>

lemma get_updates_foreign:
  fixes F :: "'f ext_ops" and db :: "'e db_view"
  assumes inv: "tree_inv F db t pt" and codec: "node_codec F" and fuel: "height_of t \<le> fuel"
    and key: "Trie b \<in> set (death_row t)" "\<not> prefix (tree_ident t) b"
  shows "\<exists>ups t'. get_updates F fuel t = (Inr ups :: ('e, updates) outcome, t') \<and> hm_get ups (Trie b) = Some Remove"
proof -
  obtain xs t' where run: "get_updates F fuel t = (Inr (all_ups F t xs) :: ('e, updates) outcome, t')"
    and xs: "fst ` set xs \<subseteq> range (\<lambda>b. Trie (tree_ident t @ b))"
    using get_updates_tree [OF inv codec fuel] by blast
  have "Trie b \<notin> fst ` set xs" using xs key(2) by (auto simp: prefix_def)
  then have "map_of (rev xs) (Trie b) = None" by (simp add: map_of_eq_None_iff)
  then show ?thesis using run key(1) by (simp add: all_ups_Trie)
qed

end
