(* ===== verification/Merkle_Proof.thy ===== *)
theory Merkle_Proof
  imports Tree_Commit
begin

text \<open>
  Proofs of membership and non-membership (\<^verbatim>\<open>src/src/trie/proof.rs\<close>): the nodes on the
  way to some keys, by hash, and the verifier that walks down from a root. A run of the
  verifier that accepts gives the value of the key in the trie with that root, or exhibits two
  different nodes with one hash. The loop of the verifier may only fail to end on an edge with
  an empty path, so its fuel is the length of the key plus one when no edge is empty.
\<close>

section \<open>Definitions\<close>

datatype 'f proof_node = ProofBinary 'f 'f | ProofEdge 'f bits

datatype 'f proof_error =
    KeyLengthMismatch bits byte nat
  | MissingNode bits 'f
  | Overshot bits byte
  | HashMismatch bits 'f 'f

datatype 'f verdict = Value 'f | Rejected "'f proof_error" | Panicked string | Unfinished

type_synonym 'f multi_proof = "('f, 'f proof_node) hash_map"

fun proof_node_hash :: "'f ext_ops \<Rightarrow> 'f proof_node \<Rightarrow> ('e, 'f) outcome" where
  "proof_node_hash F (ProofBinary left right) = Inr (hash_binary_node F left right)"
| "proof_node_hash F (ProofEdge child path) = hash_edge_node F path child"

text \<open>The step from a node whose hash was checked: the next hash and path, or the verdict.\<close>

definition verify_step :: "'f ext_ops \<Rightarrow> bits \<Rightarrow> bits \<Rightarrow> 'f proof_node \<Rightarrow> 'f verdict + ('f \<times> bits)" where
  "verify_step F k cur_path node =
     (case node of
        ProofBinary left right \<Rightarrow>
          (let direction = direction_of_bool (k ! length cur_path) in
           Inr (case direction of Left \<Rightarrow> left | Right \<Rightarrow> right,
                cur_path @ [bool_of_direction direction]))
      | ProofEdge child path \<Rightarrow>
          (if length cur_path + length path \<le> length k \<and>
              take (length path) (drop (length cur_path) k) = path
           then Inr (child, cur_path @ path)
           else Inl (Value (ZERO F))))"

fun verify_loop ::
  "'f ext_ops \<Rightarrow> nat \<Rightarrow> 'f multi_proof \<Rightarrow> bits \<Rightarrow> byte \<Rightarrow> 'f list \<Rightarrow> bits \<Rightarrow> 'f \<Rightarrow> 'f verdict \<times> 'f list" where
  "verify_loop F 0 proof k height checked cur_path felt = (Unfinished, checked)"
| "verify_loop F (Suc fuel) proof k height checked cur_path felt =
     (if length cur_path = length k then (Value felt, checked)
      else if length k < length cur_path then (Rejected (Overshot cur_path height), checked)
      else case hm_get proof felt of
        None \<Rightarrow> (Rejected (MissingNode cur_path felt), checked)
      | Some node \<Rightarrow>
          (case (if felt \<in> set checked then Inr felt
                 else (proof_node_hash F node :: (unit, 'f) outcome)) of
             Inl _ \<Rightarrow> (Panicked ''slice index out of bounds'', checked)
           | Inr computed_hash \<Rightarrow>
               (if computed_hash \<noteq> felt
                then (Rejected (HashMismatch cur_path felt computed_hash), checked)
                else
                  let checked = List.insert felt checked in
                  (case verify_step F k cur_path node of
                     Inl v \<Rightarrow> (v, checked)
                   | Inr (felt, cur_path) \<Rightarrow> verify_loop F fuel proof k height checked cur_path felt))))"

definition verify_key ::
  "'f ext_ops \<Rightarrow> nat \<Rightarrow> 'f multi_proof \<Rightarrow> 'f \<Rightarrow> byte \<Rightarrow> 'f list \<Rightarrow> bits \<Rightarrow> 'f verdict \<times> 'f list" where
  "verify_key F fuel proof root height checked k =
     (if length k \<noteq> unat height then (Rejected (KeyLengthMismatch k height (length k)), checked)
      else verify_loop F fuel proof k height checked [] root)"

text \<open>The iterator over the keys: the cache of checked hashes goes from one key to the next, a
  panic ends it.\<close>

fun verify_keys ::
  "'f ext_ops \<Rightarrow> nat \<Rightarrow> 'f multi_proof \<Rightarrow> 'f \<Rightarrow> byte \<Rightarrow> 'f list \<Rightarrow> bits list \<Rightarrow> 'f verdict list" where
  "verify_keys F fuel proof root height checked [] = []"
| "verify_keys F fuel proof root height checked (k # ks) =
     (case verify_key F fuel proof root height checked k of
        (Panicked s, _) \<Rightarrow> [Panicked s]
      | (v, checked) \<Rightarrow> v # verify_keys F fuel proof root height checked ks)"

definition verify_proof ::
  "'f ext_ops \<Rightarrow> nat \<Rightarrow> 'f multi_proof \<Rightarrow> 'f \<Rightarrow> bits list \<Rightarrow> byte \<Rightarrow> 'f verdict list" where
  "verify_proof F fuel proof root keys height = verify_keys F fuel proof root height [] keys"

text \<open>The visitor that collects the nodes of a proof, and the loop over the keys.\<close>

definition proof_visitor :: "'f ext_ops \<Rightarrow> nat \<Rightarrow> ('f multi_proof, 'f, 'e) node_visitor" where
  "proof_visitor F fuel node_id prev_height = (\<lambda>(proof, tree).
     case bindS (get_node_mut node_id) (\<lambda>node.
            bindS (case node of
                     Binary binary_node \<Rightarrow>
                       bindS (get_or_compute_node_hash F fuel (b_left binary_node)) (\<lambda>left.
                       bindS (get_or_compute_node_hash F fuel (b_right binary_node)) (\<lambda>right.
                       retS (ProofBinary left right)))
                   | Edge edge_node \<Rightarrow>
                       bindS (get_or_compute_node_hash F fuel (e_child edge_node)) (\<lambda>child.
                       retS (ProofEdge child (e_path edge_node))))
              (\<lambda>proof_node.
                 bindS (get_or_compute_node_hash F fuel (InMemory node_id)) (\<lambda>hash.
                 retS (hash, proof_node)))) tree of
       (Inl e, tree) \<Rightarrow> (Inl e, proof, tree)
     | (Inr (hash, proof_node), tree) \<Rightarrow> (Inr (), hm_insert hash proof_node proof, tree))"

fun multi_proof_loop ::
  "'f ext_ops \<Rightarrow> nat \<Rightarrow> 'e db_view \<Rightarrow> byte \<Rightarrow> bits list \<Rightarrow> ('f multi_proof \<times> 'f merkle_iter, 'e, unit) action" where
  "multi_proof_loop F fuel db height [] = retS ()"
| "multi_proof_loop F fuel db height (key # keys) =
     (if length key \<noteq> unat height then failS (Err (KeyLength (unat height) (length key)))
      else bindS (traverse_to F fuel db (proof_visitor F fuel) key) (\<lambda>_. multi_proof_loop F fuel db height keys))"

definition get_multi_proof ::
  "'f ext_ops \<Rightarrow> nat \<Rightarrow> 'e db_view \<Rightarrow> bits list \<Rightarrow> ('f, 'e, 'f multi_proof) tree_action" where
  "get_multi_proof F fuel db keys t =
     (case multi_proof_loop F fuel db (max_height t) keys ([], iter_new t) of
        (Inl e, _, it) \<Rightarrow> (Inl e, it_tree it)
      | (Inr _, proof, it) \<Rightarrow> (Inr proof, it_tree it))"

section \<open>The loop ends\<close>

definition edges_nonempty :: "'f multi_proof \<Rightarrow> bool" where
  "edges_nonempty proof \<longleftrightarrow> (\<forall>(h, n) \<in> set proof. case n of ProofEdge c p \<Rightarrow> p \<noteq> [] | _ \<Rightarrow> True)"

lemma verify_step_progress:
  assumes "verify_step F k p node = Inr (felt, p')" "length p < length k"
    and "case node of ProofEdge c q \<Rightarrow> q \<noteq> [] | _ \<Rightarrow> True"
  shows "length p < length p' \<and> length p' \<le> length k \<and> prefix p p'"
  using assms by (auto simp: verify_step_def Let_def split: proof_node.splits if_splits)

lemma verify_loop_ends:
  assumes "edges_nonempty proof"
  shows "length k < length p + fuel \<Longrightarrow> length p \<le> length k \<Longrightarrow>
    fst (verify_loop F fuel proof k height checked p felt) \<noteq> Unfinished"
proof (induction fuel arbitrary: checked p felt)
  case (Suc fuel)
  show ?case
  proof (cases "hm_get proof felt")
    case (Some node)
    then have ne: "case node of ProofEdge c q \<Rightarrow> q \<noteq> [] | _ \<Rightarrow> True"
      using assms by (auto simp: edges_nonempty_def hm_get_def dest!: map_of_SomeD)
    have "fst (verify_loop F fuel proof k height c p' f) \<noteq> Unfinished"
      if "verify_step F k p node = Inr (f, p')" "length p < length k" for f p' c
      using verify_step_progress [OF that ne] Suc.prems Suc.IH [of p' c f] by auto
    moreover have "verify_step F k p node \<noteq> Inl Unfinished"
      by (auto simp: verify_step_def Let_def split: proof_node.split)
    ultimately show ?thesis
      using Suc.prems Some by (auto simp: Let_def split: sum.split prod.split if_splits)
  qed (use Suc.prems in auto)
qed simp

text \<open>The verifier never reports that it went past the key.\<close>

lemma verify_step_bound: "verify_step F k p node = Inr (felt, p') \<Longrightarrow> length p < length k \<Longrightarrow> length p' \<le> length k"
  by (auto simp: verify_step_def Let_def split: proof_node.splits if_splits)

lemma verify_step_verdict: "verify_step F k p node = Inl v \<Longrightarrow> v = Value (ZERO F)"
  by (auto simp: verify_step_def Let_def split: proof_node.splits if_splits)

lemma verify_loop_no_overshot:
  "length p \<le> length k \<Longrightarrow> fst (verify_loop F fuel proof k height checked p felt) \<noteq> Rejected (Overshot q h)"
proof (induction fuel arbitrary: checked p felt)
  case (Suc fuel)
  have "fst (verify_loop F fuel proof k height c p' f) \<noteq> Rejected (Overshot q h)"
    if "verify_step F k p node = Inr (f, p')" "length p < length k" for f p' c node
    using Suc.IH verify_step_bound [OF that] by blast
  then show ?case
    using Suc.prems
    by (auto simp: Let_def dest: verify_step_verdict split: option.split sum.split prod.split if_splits)
qed simp

lemma verify_keys_no_overshot: "Rejected (Overshot q h) \<notin> set (verify_keys F fuel proof root height checked keys)"
proof (induction keys arbitrary: checked)
  case (Cons k keys)
  obtain w c where run: "verify_key F fuel proof root height checked k = (w, c)" by fastforce
  have "w \<noteq> Rejected (Overshot q h)"
    using verify_loop_no_overshot [of "[]" k F fuel "proof" height checked root q h] run
    by (auto simp: verify_key_def split: if_splits)
  then show ?case using run Cons by (cases w) auto
qed simp

section \<open>Soundness\<close>

text \<open>The node of a trie, as a proof shows it, and all subtries that have one.\<close>

fun pnode :: "'f ext_ops \<Rightarrow> 'f ptree \<Rightarrow> 'f proof_node" where
  "pnode F (PBin l r) = ProofBinary (phash F l) (phash F r)"
| "pnode F (PEdge q c) = ProofEdge (phash F c) q"
| "pnode F (PLeaf v) = ProofEdge v []"

fun psubs :: "'f ptree \<Rightarrow> 'f ptree list" where
  "psubs (PLeaf v) = []"
| "psubs (PBin l r) = PBin l r # psubs l @ psubs r"
| "psubs (PEdge q c) = PEdge q c # psubs c"

text \<open>Two different nodes with one hash, one in the proof and one in the trie.\<close>

definition collides :: "'f ext_ops \<Rightarrow> 'f multi_proof \<Rightarrow> 'f ptree \<Rightarrow> bool" where
  "collides F proof t \<longleftrightarrow>
     (\<exists>(h, n) \<in> set proof. \<exists>s \<in> set (psubs t).
        (proof_node_hash F n :: (unit, 'f) outcome) = Inr (phash F s) \<and> n \<noteq> pnode F s)"

definition cache_valid :: "'f ext_ops \<Rightarrow> 'f multi_proof \<Rightarrow> 'f list \<Rightarrow> bool" where
  "cache_valid F proof checked \<longleftrightarrow>
     (\<forall>h \<in> set checked. \<forall>n. hm_get proof h = Some n \<longrightarrow> (proof_node_hash F n :: (unit, 'f) outcome) = Inr h)"

lemma cache_valid_simps [simp]:
  "cache_valid F proof []"
  "cache_valid F proof checked \<Longrightarrow> hm_get proof felt = Some n \<Longrightarrow>
     (proof_node_hash F n :: (unit, 'f) outcome) = Inr felt \<Longrightarrow> cache_valid F proof (List.insert felt checked)"
  by (auto simp: cache_valid_def)

text \<open>One round of the loop that goes on.\<close>

lemma verify_loop_round:
  fixes F :: "'f ext_ops"
  assumes "cache_valid F proof checked" "length p < length k"
    and "fst (verify_loop F (Suc fuel) proof k height checked p felt) = Value v \<or>
      snd (verify_loop F (Suc fuel) proof k height checked p felt) \<noteq> checked"
  obtains node where "hm_get proof felt = Some node" "(proof_node_hash F node :: (unit, 'f) outcome) = Inr felt"
    "cache_valid F proof (List.insert felt checked)"
    "verify_loop F (Suc fuel) proof k height checked p felt =
      (case verify_step F k p node of Inl v \<Rightarrow> (v, List.insert felt checked)
       | Inr (felt', p') \<Rightarrow> verify_loop F fuel proof k height (List.insert felt checked) p' felt')"
proof -
  obtain node where node: "hm_get proof felt = Some node"
    using assms(2,3) by (cases "hm_get proof felt") auto
  have hash: "(proof_node_hash F node :: (unit, 'f) outcome) = Inr felt"
    using assms node
    by (cases "felt \<in> set checked"; cases "proof_node_hash F node :: (unit, 'f) outcome")
       (auto simp: cache_valid_def split: if_splits)
  have valid: "cache_valid F proof (List.insert felt checked)" using assms(1) node hash by simp
  have "verify_loop F (Suc fuel) proof k height checked p felt =
      (case verify_step F k p node of Inl v \<Rightarrow> (v, List.insert felt checked)
       | Inr (felt', p') \<Rightarrow> verify_loop F fuel proof k height (List.insert felt checked) p' felt')"
    using assms(2) node hash by (auto simp: Let_def split: sum.split prod.split)
  with node hash valid show thesis by (rule that)
qed

lemma verify_loop_sound:
  fixes F :: "'f ext_ops"
  assumes no: "\<not> collides F proof t"
  shows "cache_valid F proof checked \<Longrightarrow> set (psubs s) \<subseteq> set (psubs t) \<Longrightarrow> pwf (length k - length p) s \<Longrightarrow>
    length p \<le> length k \<Longrightarrow> felt = phash F s \<Longrightarrow>
    fst (verify_loop F fuel proof k height checked p felt) = Value v \<Longrightarrow>
    v = (case plookup s (drop (length p) k) of None \<Rightarrow> ZERO F | Some x \<Rightarrow> x)"
proof (induction fuel arbitrary: checked p felt s)
  case (Suc fuel)
  show ?case
  proof (cases "length p = length k")
    case True
    then obtain x where "s = PLeaf x" using Suc.prems(3) by (cases s) auto
    then show ?thesis using True Suc.prems(5,6) by simp
  next
    case False
    then have lt: "length p < length k" using Suc.prems(4) by simp
    obtain node where node: "hm_get proof felt = Some node" "(proof_node_hash F node :: (unit, 'f) outcome) = Inr felt"
      and valid: "cache_valid F proof (List.insert felt checked)"
      and run: "verify_loop F (Suc fuel) proof k height checked p felt =
        (case verify_step F k p node of Inl v \<Rightarrow> (v, List.insert felt checked)
         | Inr (felt', p') \<Rightarrow> verify_loop F fuel proof k height (List.insert felt checked) p' felt')"
      using verify_loop_round [OF Suc.prems(1) lt] Suc.prems(6) by blast
    have mem: "s \<in> set (psubs t)" using Suc.prems(2,3) lt by (cases s) auto
    have node_s: "node = pnode F s"
      using no mem node Suc.prems(5) by (auto simp: collides_def hm_get_def dest!: map_of_SomeD)
    have dk: "drop (length p) k = k ! length p # drop (Suc (length p)) k" using lt by (simp add: Cons_nth_drop_Suc)
    show ?thesis
    proof (cases s)
      case (PLeaf x)
      then show ?thesis using Suc.prems(3) lt by simp
    next
      case (PBin l r)
      let ?b = "k ! length p"
      have "verify_step F k p node = Inr (phash F (if ?b then r else l), p @ [?b])"
        using node_s PBin by (auto simp: verify_step_def Let_def direction_of_bool_def bool_of_direction_def)
      then have "v = (case plookup (if ?b then r else l) (drop (length (p @ [?b])) k) of None \<Rightarrow> ZERO F | Some x \<Rightarrow> x)"
        using Suc.prems PBin lt run by (intro Suc.IH [OF valid]) auto
      then show ?thesis using PBin dk by simp
    next
      case (PEdge q c)
      have le: "length p + length q \<le> length k" using Suc.prems(3) PEdge lt by auto
      have pre: "(take (length q) (drop (length p) k) = q) = prefix q (drop (length p) k)"
        by (metis take_is_prefix prefixE append_eq_conv_conj)
      show ?thesis
      proof (cases "prefix q (drop (length p) k)")
        case True
        then have "verify_step F k p node = Inr (phash F c, p @ q)"
          using node_s PEdge pre le by (simp add: verify_step_def)
        then have "v = (case plookup c (drop (length (p @ q)) k) of None \<Rightarrow> ZERO F | Some x \<Rightarrow> x)"
          using Suc.prems PEdge lt run by (intro Suc.IH [OF valid]) auto
        then show ?thesis using PEdge True by (simp add: add.commute)
      next
        case False
        then have "verify_step F k p node = Inl (Value (ZERO F))"
          using node_s PEdge pre le by (simp add: verify_step_def)
        then show ?thesis using run Suc.prems(6) PEdge False by simp
      qed
    qed
  qed
qed simp

text \<open>The cache that one key leaves is valid for the next key.\<close>

lemma verify_loop_valid:
  fixes F :: "'f ext_ops"
  shows "cache_valid F proof checked \<Longrightarrow> cache_valid F proof (snd (verify_loop F fuel proof k height checked p felt))"
proof (induction fuel arbitrary: checked p felt)
  case (Suc fuel)
  show ?case
  proof (cases "length p < length k \<and> snd (verify_loop F (Suc fuel) proof k height checked p felt) \<noteq> checked")
    case True
    then obtain node where "cache_valid F proof (List.insert felt checked)"
      "verify_loop F (Suc fuel) proof k height checked p felt =
        (case verify_step F k p node of Inl v \<Rightarrow> (v, List.insert felt checked)
         | Inr (felt', p') \<Rightarrow> verify_loop F fuel proof k height (List.insert felt checked) p' felt')"
      using verify_loop_round [OF Suc.prems] by blast
    then show ?thesis using Suc.IH by (simp split: sum.split prod.split)
  next
    case False
    then have "snd (verify_loop F (Suc fuel) proof k height checked p felt) = checked" by auto
    then show ?thesis using Suc.prems by (simp only:)
  qed
qed simp

definition trie_collides :: "'f ext_ops \<Rightarrow> 'f multi_proof \<Rightarrow> 'f trie \<Rightarrow> bool" where
  "trie_collides F proof t \<longleftrightarrow>
     (case t of
        None \<Rightarrow> \<exists>(h, n) \<in> set proof. (proof_node_hash F n :: (unit, 'f) outcome) = Inr (ZERO F)
      | Some p \<Rightarrow> collides F proof p)"

lemma verify_key_sound:
  fixes F :: "'f ext_ops"
  assumes no: "\<not> trie_collides F proof t" and wf: "trie_wf (unat height) t"
    and valid: "cache_valid F proof checked"
    and acc: "fst (verify_key F fuel proof (trie_hash F t) height checked k) = Value v"
  shows "v = (case trie_lookup t k of None \<Rightarrow> ZERO F | Some x \<Rightarrow> x) \<and> length k = unat height"
proof (cases t)
  case None
  have len: "length k = unat height" using acc by (simp add: verify_key_def split: if_splits)
  obtain fuel' where fuel: "fuel = Suc fuel'"
    using acc len by (cases fuel) (simp_all add: verify_key_def)
  have "0 < length k" using wf len by (simp add: trie_wf_def)
  then obtain node where "hm_get proof (ZERO F) = Some node"
    "(proof_node_hash F node :: (unit, 'f) outcome) = Inr (ZERO F)"
    using verify_loop_round [OF valid, of "[]" k fuel' height "ZERO F" v] acc None len fuel
    by (auto simp: verify_key_def trie_hash_def simp del: verify_loop.simps)
  then show ?thesis using no None by (auto simp: trie_collides_def hm_get_def dest!: map_of_SomeD)
next
  case (Some p)
  have len: "length k = unat height" using acc by (simp add: verify_key_def split: if_splits)
  have "fst (verify_loop F fuel proof k height checked [] (phash F p)) = Value v"
    using acc len Some by (simp add: verify_key_def trie_hash_def)
  moreover have "\<not> collides F proof p" "pwf (length k - length ([] :: bits)) p"
    using no wf Some len by (simp_all add: trie_collides_def trie_wf_def)
  ultimately have "v = (case plookup p (drop (length ([] :: bits)) k) of None \<Rightarrow> ZERO F | Some x \<Rightarrow> x)"
    using verify_loop_sound [OF _ valid subset_refl, of p k "[]" "phash F p" fuel height v] by (simp del: verify_loop.simps)
  then show ?thesis using Some len by (simp add: trie_lookup_def)
qed

lemma verify_key_valid:
  "cache_valid F proof checked \<Longrightarrow> cache_valid F proof (snd (verify_key F fuel proof root height checked k))"
  by (simp add: verify_key_def verify_loop_valid)

lemma verify_keys_sound:
  fixes F :: "'f ext_ops"
  assumes no: "\<not> trie_collides F proof t" and wf: "trie_wf (unat height) t"
  shows "cache_valid F proof checked \<Longrightarrow> i < length (verify_keys F fuel proof (trie_hash F t) height checked keys) \<Longrightarrow>
    verify_keys F fuel proof (trie_hash F t) height checked keys ! i = Value v \<Longrightarrow>
    i < length keys \<and> v = (case trie_lookup t (keys ! i) of None \<Rightarrow> ZERO F | Some x \<Rightarrow> x)"
proof (induction keys arbitrary: i checked)
  case (Cons k keys)
  obtain w c where run: "verify_key F fuel proof (trie_hash F t) height checked k = (w, c)" by fastforce
  have c: "cache_valid F proof c" using verify_key_valid [OF Cons.prems(1)] run by (metis snd_conv)
  show ?case
  proof (cases i)
    case 0
    then have "w = Value v" using Cons.prems(3) run by (cases w) auto
    then have "fst (verify_key F fuel proof (trie_hash F t) height checked k) = Value v" using run by simp
    then show ?thesis using 0 verify_key_sound [OF no wf Cons.prems(1)] by simp
  next
    case (Suc j)
    then show ?thesis using Cons.prems(2,3) run Cons.IH [OF c, of j] by (cases w) auto
  qed
qed simp

text \<open>Without empty edges, and with edges that fit a felt, every key gets a verdict.\<close>

lemma verify_keys_ends:
  "edges_nonempty proof \<Longrightarrow> unat height < fuel \<Longrightarrow>
    Unfinished \<notin> set (verify_keys F fuel proof root height checked keys)"
proof (induction keys arbitrary: checked)
  case (Cons k keys)
  obtain w c where run: "verify_key F fuel proof root height checked k = (w, c)" by fastforce
  have "w \<noteq> Unfinished"
    using verify_loop_ends [OF Cons.prems(1), of k "[]" fuel F height checked root] Cons.prems(2) run
    by (auto simp: verify_key_def split: if_splits)
  then show ?case using run Cons by (cases w) auto
qed simp

end
