(* ===== verification/Merkle_Trees.thy ===== *)
theory Merkle_Trees
  imports Key_Value_Db Merkle_Proof
begin

text \<open>
  The collection of trees by identifier over one store (\<^verbatim>\<open>src/src/trie/trees.rs\<close>).
  A tree is created when it is first used. A commit takes the updates of every tree, computed
  by one thread each, and then writes them through one batch.
\<close>

section \<open>Definitions\<close>

record ('f, 'db, 'id) merkle_trees =
  ts_db :: "('db, 'id) key_value_db"
  trees :: "(bytes, 'f merkle_tree) hash_map"
  ts_max_height :: byte

type_synonym ('f, 'db, 'id, 'e, 'a) trees_action = "(('f, 'db, 'id) merkle_trees, 'e, 'a) action"

definition trees_new :: "('db, 'id) key_value_db \<Rightarrow> byte \<Rightarrow> ('f, 'db, 'id) merkle_trees" where
  "trees_new db tree_height = \<lparr>ts_db = db, trees = [], ts_max_height = tree_height\<rparr>"

text \<open>
  The loops of a tree run at most once per bit of its height, which is a \<^verbatim>\<open>u8\<close>.
\<close>

definition LOOP_BOUND :: nat where
  "LOOP_BOUND = 256"

text \<open>The tree under an identifier, or a new one.\<close>

definition tree_entry :: "('f, 'db, 'id) merkle_trees \<Rightarrow> bytes \<Rightarrow> 'f merkle_tree" where
  "tree_entry ts ident =
     (case hm_get (trees ts) ident of Some t \<Rightarrow> t | None \<Rightarrow> tree_new ident (ts_max_height ts))"

text \<open>A call on the tree that \<open>entry_ref(identifier).or_insert_with\<close> gives.\<close>

definition on_entry :: "bytes \<Rightarrow> ('f, 'e, 'a) tree_action \<Rightarrow> ('f, 'db, 'id, 'e, 'a) trees_action" where
  "on_entry ident m ts =
     (case m (tree_entry ts ident) of (r, t) \<Rightarrow> (r, ts\<lparr>trees := hm_insert ident t (trees ts)\<rparr>))"

definition trees_set ::
  "nat \<Rightarrow> 'f ext_ops \<Rightarrow> ('db, 'batch, 'e) db_ops \<Rightarrow> bytes \<Rightarrow> bits \<Rightarrow> 'f \<Rightarrow> ('f, 'db, 'id, 'e, unit) trees_action" where
  "trees_set off F B ident key value ts =
     on_entry ident (tree_set off F LOOP_BOUND (kv_get B (ts_db ts)) key value) ts"

definition trees_get ::
  "nat \<Rightarrow> 'f ext_ops \<Rightarrow> ('db, 'batch, 'e) db_ops \<Rightarrow> ('f, 'db, 'id) merkle_trees \<Rightarrow> bytes \<Rightarrow> bits \<Rightarrow> ('e, 'f option) outcome" where
  "trees_get off F B ts ident key = tree_get off F (kv_get B (ts_db ts)) (tree_entry ts ident) key"

definition trees_get_at ::
  "nat \<Rightarrow> 'f ext_ops \<Rightarrow> ('f, 'db, 'id) merkle_trees \<Rightarrow> bytes \<Rightarrow> bits \<Rightarrow> 'id \<Rightarrow> ('e, 'f option) outcome" where
  "trees_get_at off F ts ident key i =
     tree_get_at off F (\<lambda>k. kv_get_at (ts_db ts) k i) (tree_entry ts ident) key"

definition trees_contains ::
  "nat \<Rightarrow> ('db, 'batch, 'e) db_ops \<Rightarrow> ('f, 'db, 'id) merkle_trees \<Rightarrow> bytes \<Rightarrow> bits \<Rightarrow> ('e, bool) outcome" where
  "trees_contains off B ts ident key = tree_contains off (kv_contains B (ts_db ts)) (tree_entry ts ident) key"

definition reset_to_last_commit :: "('f, 'db, 'id, 'e, unit) trees_action" where
  "reset_to_last_commit ts = (Inr (), ts\<lparr>trees := []\<rparr>)"

definition trees_root_hash ::
  "'f ext_ops \<Rightarrow> ('db, 'batch, 'e) db_ops \<Rightarrow> ('f, 'db, 'id) merkle_trees \<Rightarrow> bytes \<Rightarrow> ('e, 'f) outcome" where
  "trees_root_hash F B ts ident = tree_root_hash F (kv_get B (ts_db ts)) (tree_entry ts ident)"

definition trees_get_keys ::
  "('db, 'batch, 'e) db_ops \<Rightarrow> ('f, 'db, 'id) merkle_trees \<Rightarrow> bytes \<Rightarrow> ('e, bytes list) outcome" where
  "trees_get_keys B ts ident =
     and_then (db_result (db_get_by_prefix B (kv_db (ts_db ts)) (DbFlat ident))) (\<lambda>pairs.
       Inr (map (\<lambda>(key, _). drop (length ident + 1) key)
              (filter (\<lambda>(key, _). length ident < length key) pairs)))"

definition trees_get_key_value_pairs ::
  "('db, 'batch, 'e) db_ops \<Rightarrow> ('f, 'db, 'id) merkle_trees \<Rightarrow> bytes \<Rightarrow> ('e, (bytes \<times> bytes) list) outcome" where
  "trees_get_key_value_pairs B ts ident =
     and_then (db_result (db_get_by_prefix B (kv_db (ts_db ts)) (DbFlat ident))) (\<lambda>pairs.
       Inr (map (\<lambda>(key, value). (drop (length ident + 1) key, value))
              (filter (\<lambda>(key, _). length ident < length key) pairs)))"

text \<open>The updates of every tree, and the trees that are left.\<close>

fun collect_updates ::
  "'f ext_ops \<Rightarrow> (bytes, 'f merkle_tree) hash_map \<Rightarrow>
     ('e, updates) outcome list \<times> (bytes, 'f merkle_tree) hash_map" where
  "collect_updates F [] = ([], [])"
| "collect_updates F ((ident, tree) # ts) =
     (case get_updates F LOOP_BOUND tree of (changes, tree) \<Rightarrow>
      (case collect_updates F ts of (cs, ts) \<Rightarrow> (changes # cs, (ident, tree) # ts)))"

text \<open>A panic in one of the threads is one of the caller, before anything is written.\<close>

fun panicked :: "('e, 'a) outcome \<Rightarrow> bool" where
  "panicked (Inl (Err _)) = False"
| "panicked (Inl _) = True"
| "panicked (Inr _) = False"

fun write_changes ::
  "('db, 'batch, 'e) db_ops \<Rightarrow> updates \<Rightarrow> ('db, 'batch, 'id, 'e, unit) kv_action" where
  "write_changes B [] = retS ()"
| "write_changes B ((key, value) # changes) =
     bindS (case value of Insert value \<Rightarrow> kv_insert B key value | Remove \<Rightarrow> kv_remove B key)
       (\<lambda>_. write_changes B changes)"

fun write_trees ::
  "('db, 'batch, 'e) db_ops \<Rightarrow> ('e, updates) outcome list \<Rightarrow> ('db, 'batch, 'id, 'e, unit) kv_action" where
  "write_trees B [] = retS ()"
| "write_trees B (changes # db_changes) =
     bindS (liftS changes) (\<lambda>changes.
     bindS (write_changes B changes) (\<lambda>_. write_trees B db_changes))"

definition trees_commit ::
  "'f ext_ops \<Rightarrow> ('db, 'batch, 'e) db_ops \<Rightarrow> ('f, 'db, 'id, 'e, unit) trees_action" where
  "trees_commit F B ts =
     (case collect_updates F (trees ts) of (db_changes, tree_map) \<Rightarrow>
      let ts = ts\<lparr>trees := tree_map\<rparr> in
      case List.find panicked db_changes of
        Some (Inl e) \<Rightarrow> (Inl e, ts)
      | _ \<Rightarrow>
          (let batch = create_batch B (kv_db (ts_db ts)) in
           case write_trees B db_changes (ts_db ts, Some batch) of
             (Inl e, kv, _) \<Rightarrow> (Inl e, ts\<lparr>ts_db := kv\<rparr>)
           | (Inr _, kv, written) \<Rightarrow>
               (case kv_write_batch B (case written of Some b \<Rightarrow> b | None \<Rightarrow> batch) kv of
                  (r, kv) \<Rightarrow> (r, ts\<lparr>ts_db := kv\<rparr>))))"

definition trees_get_multi_proof ::
  "'f ext_ops \<Rightarrow> ('db, 'batch, 'e) db_ops \<Rightarrow> bytes \<Rightarrow> bits list \<Rightarrow> ('f, 'db, 'id, 'e, 'f multi_proof) trees_action" where
  "trees_get_multi_proof F B ident keys ts =
     on_entry ident (get_multi_proof F LOOP_BOUND (kv_get B (ts_db ts)) keys) ts"

end
