(* ===== verification/Bonsai_Storage.thy ===== *)
theory Bonsai_Storage
  imports Merkle_Trees
begin

text \<open>
  The entry point of the crate (\<^verbatim>\<open>src/src/lib.rs\<close>): the storage wraps the trees and
  the layer over the store, and every method of its interface is a call into them. The
  definitions take the store's methods \<open>B\<close>, its snapshots \<open>P\<close> and the commit identifiers \<open>I\<close> as
  arguments, the way the Rust type is generic in them.
\<close>

section \<open>Definitions\<close>

record bonsai_storage_config =
  storage_max_saved_trie_logs :: "64 word option"
  storage_max_saved_snapshots :: "64 word option"
  storage_snapshot_interval :: "64 word"

definition storage_config_default :: bonsai_storage_config where
  "storage_config_default =
     \<lparr>storage_max_saved_trie_logs = Some 500, storage_max_saved_snapshots = Some 100,
      storage_snapshot_interval = 5\<rparr>"

text \<open>The two \<open>From\<close> instances of \<^verbatim>\<open>src/src/key_value_db.rs\<close>.\<close>

definition kv_config_of :: "bonsai_storage_config \<Rightarrow> kv_config" where
  "kv_config_of c =
     \<lparr>max_saved_trie_logs = storage_max_saved_trie_logs c,
      max_saved_snapshots = storage_max_saved_snapshots c,
      snapshot_interval = storage_snapshot_interval c\<rparr>"

definition storage_config_of :: "kv_config \<Rightarrow> bonsai_storage_config" where
  "storage_config_of c =
     \<lparr>storage_max_saved_trie_logs = max_saved_trie_logs c,
      storage_max_saved_snapshots = max_saved_snapshots c,
      storage_snapshot_interval = snapshot_interval c\<rparr>"

record ('f, 'db, 'id) bonsai_storage =
  tries :: "('f, 'db, 'id) merkle_trees"

type_synonym ('f, 'db, 'id, 'e, 'a) storage_action = "(('f, 'db, 'id) bonsai_storage, 'e, 'a) action"

definition storage_new :: "'db \<Rightarrow> bonsai_storage_config \<Rightarrow> byte \<Rightarrow> ('f, 'db, 'id) bonsai_storage" where
  "storage_new db cfg height =
     (let key_value_db = kv_new db (kv_config_of cfg) None in \<lparr>tries = trees_new key_value_db height\<rparr>)"

definition new_from_transactional_state ::
  "'db \<Rightarrow> bonsai_storage_config \<Rightarrow> byte \<Rightarrow> 'id \<Rightarrow> ('e, ('f, 'db, 'id) bonsai_storage) outcome" where
  "new_from_transactional_state db cfg height created =
     (let key_value_db = kv_new db (kv_config_of cfg) (Some created) in
      Inr \<lparr>tries = trees_new key_value_db height\<rparr>)"

definition on_tries :: "('f, 'db, 'id, 'e, 'a) trees_action \<Rightarrow> ('f, 'db, 'id, 'e, 'a) storage_action" where
  "on_tries m s = (case m (tries s) of (r, ts) \<Rightarrow> (r, s\<lparr>tries := ts\<rparr>))"

text \<open>\<open>db_mut\<close>: a call on the layer over the store.\<close>

definition on_db :: "(('db, 'id) key_value_db, 'e, 'a) action \<Rightarrow> ('f, 'db, 'id, 'e, 'a) storage_action" where
  "on_db m s = (case m (ts_db (tries s)) of (r, kv) \<Rightarrow> (r, s\<lparr>tries := (tries s)\<lparr>ts_db := kv\<rparr>\<rparr>))"

definition storage_insert ::
  "nat \<Rightarrow> 'f ext_ops \<Rightarrow> ('db, 'batch, 'e) db_ops \<Rightarrow> bytes \<Rightarrow> bits \<Rightarrow> 'f \<Rightarrow> ('f, 'db, 'id, 'e, unit) storage_action" where
  "storage_insert off F B ident key value = on_tries (trees_set off F B ident key value)"

definition storage_remove ::
  "nat \<Rightarrow> 'f ext_ops \<Rightarrow> ('db, 'batch, 'e) db_ops \<Rightarrow> bytes \<Rightarrow> bits \<Rightarrow> ('f, 'db, 'id, 'e, unit) storage_action" where
  "storage_remove off F B ident key = on_tries (trees_set off F B ident key (ZERO F))"

definition storage_get ::
  "nat \<Rightarrow> 'f ext_ops \<Rightarrow> ('db, 'batch, 'e) db_ops \<Rightarrow> ('f, 'db, 'id) bonsai_storage \<Rightarrow> bytes \<Rightarrow> bits \<Rightarrow> ('e, 'f option) outcome" where
  "storage_get off F B s ident key = trees_get off F B (tries s) ident key"

definition storage_get_at ::
  "nat \<Rightarrow> 'f ext_ops \<Rightarrow> ('f, 'db, 'id) bonsai_storage \<Rightarrow> bytes \<Rightarrow> bits \<Rightarrow> 'id \<Rightarrow> ('e, 'f option) outcome" where
  "storage_get_at off F s ident key i = trees_get_at off F (tries s) ident key i"

definition storage_contains ::
  "nat \<Rightarrow> ('db, 'batch, 'e) db_ops \<Rightarrow> ('f, 'db, 'id) bonsai_storage \<Rightarrow> bytes \<Rightarrow> bits \<Rightarrow> ('e, bool) outcome" where
  "storage_contains off B s ident key = trees_contains off B (tries s) ident key"

definition revert_to :: "'id \<Rightarrow> ('f, 'db, 'id, 'e, unit) storage_action" where
  "revert_to requested_id s = (todo, s)"

definition storage_get_changes :: "('f, 'db, 'id) bonsai_storage \<Rightarrow> 'id \<Rightarrow> ('e, change_batch) outcome" where
  "storage_get_changes s i = kv_get_changes (ts_db (tries s)) i"

definition storage_root_hash ::
  "'f ext_ops \<Rightarrow> ('db, 'batch, 'e) db_ops \<Rightarrow> ('f, 'db, 'id) bonsai_storage \<Rightarrow> bytes \<Rightarrow> ('e, 'f) outcome" where
  "storage_root_hash F B s ident = trees_root_hash F B (tries s) ident"

definition transactional_commit ::
  "'f ext_ops \<Rightarrow> ('db, 'batch, 'e) db_ops \<Rightarrow> 'id id_ops \<Rightarrow> 'id \<Rightarrow> ('f, 'db, 'id, 'e, unit) storage_action" where
  "transactional_commit F B I i =
     bindS (on_tries (trees_commit F B)) (\<lambda>_.
     bindS (on_db (kv_commit B I i)) (\<lambda>_.
     retS ()))"

definition storage_get_keys ::
  "('db, 'batch, 'e) db_ops \<Rightarrow> ('f, 'db, 'id) bonsai_storage \<Rightarrow> bytes \<Rightarrow> ('e, bytes list) outcome" where
  "storage_get_keys B s ident = trees_get_keys B (tries s) ident"

definition storage_get_key_value_pairs ::
  "('db, 'batch, 'e) db_ops \<Rightarrow> ('f, 'db, 'id) bonsai_storage \<Rightarrow> bytes \<Rightarrow> ('e, (bytes \<times> bytes) list) outcome" where
  "storage_get_key_value_pairs B s ident = trees_get_key_value_pairs B (tries s) ident"

definition storage_get_latest_id :: "('f, 'db, 'id) bonsai_storage \<Rightarrow> ('e, 'id option) outcome" where
  "storage_get_latest_id s = kv_get_latest_id (ts_db (tries s))"

definition storage_get_multi_proof ::
  "'f ext_ops \<Rightarrow> ('db, 'batch, 'e) db_ops \<Rightarrow> bytes \<Rightarrow> bits list \<Rightarrow> ('f, 'db, 'id, 'e, 'f multi_proof) storage_action" where
  "storage_get_multi_proof F B ident keys = on_tries (trees_get_multi_proof F B ident keys)"

definition storage_commit ::
  "'f ext_ops \<Rightarrow> ('db, 'batch, 'e) db_ops \<Rightarrow> ('db, 'id, 'txn, 'e) persistent_ops \<Rightarrow> 'id id_ops \<Rightarrow> 'id \<Rightarrow>
     ('f, 'db, 'id, 'e, unit) storage_action" where
  "storage_commit F B P I i =
     bindS (on_tries (trees_commit F B)) (\<lambda>_.
     bindS (on_db (kv_commit B I i)) (\<lambda>_.
     bindS (on_db (create_snapshot P I i)) (\<lambda>_.
     retS ())))"

definition get_transactional_state ::
  "('db, 'batch, 'e) db_ops \<Rightarrow> ('db, 'id, 'txn, 'e) persistent_ops \<Rightarrow> ('txn, 'batch2, 'e2) db_ops \<Rightarrow>
     'id id_ops \<Rightarrow> ('f, 'db, 'id) bonsai_storage \<Rightarrow> 'id \<Rightarrow> bonsai_storage_config \<Rightarrow>
     ('e2, ('f, 'txn, 'id) bonsai_storage option) outcome" where
  "get_transactional_state B P T I s change_id cfg =
     and_then (get_transaction B P T I (ts_db (tries s)) change_id) (\<lambda>txn.
       case txn of
         Some transaction \<Rightarrow>
           and_then (new_from_transactional_state transaction cfg (ts_max_height (tries s)) change_id)
             (\<lambda>st. Inr (Some st))
       | None \<Rightarrow> Inr None)"

definition get_config :: "('f, 'db, 'id) bonsai_storage \<Rightarrow> bonsai_storage_config" where
  "get_config s = storage_config_of (config (ts_db (tries s)))"

text \<open>
  \<open>merge\<close>: the messages of the errors, which print the key and the error, are cut to their
  first words.
\<close>

definition merge_error :: "string \<Rightarrow> ('s, 'e, unit) action \<Rightarrow> ('s, 'e, unit) action" where
  "merge_error msg m s =
     (case m s of (Inl (Err e), s') \<Rightarrow> (Inl (Err (Merge msg)), s') | r \<Rightarrow> r)"

fun merge_leaves ::
  "'f ext_ops \<Rightarrow> ('db, 'batch, 'e) db_ops \<Rightarrow> bytes \<Rightarrow> (bytes, 'f insert_or_remove) hash_map \<Rightarrow>
     ('f, 'db, 'id, 'e, unit) storage_action" where
  "merge_leaves F B ident [] = retS ()"
| "merge_leaves F B ident ((k, op) # ops) =
     bindS
       (case op of
          Insert v \<Rightarrow>
            bindS (liftS (bytes_to_bitvec k)) (\<lambda>key.
              merge_error ''While merging insert'' (storage_insert 0 F B ident key v))
        | Remove \<Rightarrow>
            bindS (liftS (bytes_to_bitvec k)) (\<lambda>key.
              merge_error ''While merging remove'' (storage_remove 0 F B ident key)))
       (\<lambda>_. merge_leaves F B ident ops)"

fun merge_trees ::
  "'f ext_ops \<Rightarrow> ('db, 'batch, 'e) db_ops \<Rightarrow> (bytes, 'f merkle_tree) hash_map \<Rightarrow>
     ('f, 'db, 'id, 'e, unit) storage_action" where
  "merge_trees F B [] = retS ()"
| "merge_trees F B ((ident, tree) # ts) =
     bindS (merge_leaves F B ident (cache_leaf_modified tree)) (\<lambda>_. merge_trees F B ts)"

definition storage_merge ::
  "'f ext_ops \<Rightarrow> ('db, 'batch, 'e) db_ops \<Rightarrow> ('f, 'txn, 'id) bonsai_storage \<Rightarrow>
     ('f, 'db, 'id, 'e, unit) storage_action" where
  "storage_merge F B transactional =
     bindS (on_db (kv_merge (ts_db (tries transactional)))) (\<lambda>_.
       merge_trees F B (trees (tries transactional)))"

end
