(* ===== verification/Tree_Frame.thy ===== *)
theory Tree_Frame
  imports Tree_Commit
begin

text \<open>
  What a change of one tree can put on the death row: keys of the tree itself, and for an
  insertion the encoded prefixes of the key that it inserts, which lack the identifier. The
  lemmas go through every operation with a predicate that the operation keeps, whether it
  succeeds or not.
\<close>

section \<open>Predicates kept by actions\<close>

named_theorems keep_rules \<open>actions that keep the predicate on the death row\<close>

definition keeps :: "('s \<Rightarrow> bool) \<Rightarrow> ('s, 'e, 'a) action \<Rightarrow> bool" where
  "keeps P m \<longleftrightarrow> (\<forall>s. P s \<longrightarrow> P (snd (m s)))"

lemma keepsI: "(\<And>s. P s \<Longrightarrow> P (snd (m s))) \<Longrightarrow> keeps P m"
  by (simp add: keeps_def)

lemma keepsD: "keeps P m \<Longrightarrow> P s \<Longrightarrow> P (snd (m s))"
  by (simp add: keeps_def)

lemma keepsE: "keeps P m \<Longrightarrow> m s = (r, s') \<Longrightarrow> P s \<Longrightarrow> P s'"
  by (auto simp: keeps_def)

lemma keeps_bindS [keep_rules]: "keeps P m \<Longrightarrow> (\<And>a. keeps P (f a)) \<Longrightarrow> keeps P (bindS m f)"
  by (fastforce simp: keeps_def bindS_def split: prod.split sum.split)

lemma keeps_basic [keep_rules]: "keeps P (retS a)" "keeps P (failS e)" "keeps P (liftS r)"
  by (simp_all add: keeps_def)

text \<open>The death row and the keys of the leaf cache within two sets, in the tree with a given identifier.\<close>

definition row_in :: "trie_key set \<Rightarrow> bytes set \<Rightarrow> bytes \<Rightarrow> 'f merkle_tree \<Rightarrow> bool" where
  "row_in D C ident t \<longleftrightarrow>
     set (death_row t) \<subseteq> D \<and> fst ` set (cache_leaf_modified t) \<subseteq> C \<and> tree_ident t = ident"

lemma hm_insert_keys: "fst ` set (hm_insert k v m) = insert k (fst ` set m)"
  by (simp add: hm_insert_def AList.dom_update)

lemma row_in_simps [simp]:
  "row_in D C ident (t\<lparr>nodes := ns\<rparr>) = row_in D C ident t"
  "row_in D C ident (t\<lparr>root_node := r\<rparr>) = row_in D C ident t"
  "row_in D C ident (nodes_remove k t) = row_in D C ident t"
  "row_in D C ident (cache_insert k' v t) \<longleftrightarrow> k' \<in> C \<and> row_in D C ident t"
  "row_in D C ident (death_row_insert key t) \<longleftrightarrow> key \<in> D \<and> row_in D C ident t"
  by (auto simp: row_in_def hm_insert_keys)

lemma nodes_insert_row: "nodes_insert n t = (k, t') \<Longrightarrow> row_in D C ident t' = row_in D C ident t"
  by (auto simp: nodes_insert_def split: prod.splits)

section \<open>The walk\<close>

lemma keeps_nodes_assign [keep_rules]: "keeps (row_in D C ident) (nodes_assign k n)"
  by (auto simp: keeps_def nodes_assign_def)

lemma keeps_load_db_node [keep_rules]: "keeps (row_in D C ident) (load_db_node F db key)"
  by (auto simp: keeps_def load_db_node_def nodes_insert_row split: option.split sum.split prod.split)

lemma keeps_load_root_node [keep_rules]: "keeps (row_in D C ident) (load_root_node F db)"
  using keepsE [OF keeps_load_db_node]
  by (fastforce simp: keeps_def load_root_node_def bindS_def
      split: option.split sum.split prod.split root_handle.split)

lemma keeps_load_node_handle [keep_rules]: "keeps (row_in D C ident) (load_node_handle F db h path)"
  using keepsE [OF keeps_load_db_node]
  by (fastforce simp: keeps_def load_node_handle_def bindS_def
      split: node_handle.split option.split sum.split prod.split)

text \<open>
  The walk without a visitor keeps what the loading of nodes and the change of a reference to a
  child keep.
\<close>

definition walk_keeps :: "('f merkle_tree \<Rightarrow> bool) \<Rightarrow> 'f ext_ops \<Rightarrow> 'e db_view \<Rightarrow> bool" where
  "walk_keeps P F db \<longleftrightarrow>
     (\<forall>h p. keeps P (load_node_handle F db h p :: ('f, 'e, nat) tree_action)) \<and>
     (\<forall>k t n n'. P t \<longrightarrow> slots t k = Some n \<longrightarrow> get_hash n' = get_hash n \<longrightarrow>
        P (t\<lparr>nodes := sm_set k n' (nodes t)\<rparr>))"

lemma keeps_on_tree [keep_rules]: "keeps P m \<Longrightarrow> keeps (\<lambda>it. P (it_tree it)) (on_tree m)"
  by (fastforce simp: keeps_def on_tree_def split: prod.split)

lemma keeps_on_iter [keep_rules]: "keeps P m \<Longrightarrow> keeps (\<lambda>s. P (snd s)) (on_iter m)"
  by (fastforce simp: keeps_def on_iter_def split: prod.split)

lemma keeps_get_node_mut [keep_rules]: "keeps P (get_node_mut k)"
  by (auto simp: keeps_def get_node_mut_def split: option.split)

lemma keeps_traverse_pick [keep_rules]: "keeps (\<lambda>it. P (it_tree it)) (traverse_pick node height key)"
  by (auto simp: keeps_def traverse_pick_def Let_def split: node.split sum.split)

lemma keeps_update_parent_ref:
  assumes "walk_keeps P F db"
  shows "keeps (\<lambda>it. P (it_tree it)) (update_parent_ref k c :: ('a, 'b, unit) iter_action)"
proof (rule keepsI)
  fix it :: "'a merkle_iter"
  assume it: "P (it_tree it)"
  show "P (it_tree (snd (update_parent_ref k c it :: ('b, unit) outcome \<times> _)))"
  proof (cases "slots (it_tree it) k")
    case (Some n)
    have assign: "P (it_tree (snd (on_tree (nodes_assign k n') it :: ('b, unit) outcome \<times> _)))" if "get_hash n' = get_hash n" for n'
      using assms it Some that by (auto simp: walk_keeps_def on_tree_def nodes_assign_def sm_get_def)
    show ?thesis
      using it Some assign
      by (cases n) (simp_all add: update_parent_ref_def bindS_def [of "on_tree (get_node_mut k)"] on_tree_def [of "get_node_mut k"]
          get_node_mut_def sm_get_def)
  qed (use it in \<open>simp add: update_parent_ref_def bindS_def on_tree_def get_node_mut_def sm_get_def\<close>)
qed

lemma keeps_traverse_one:
  assumes "walk_keeps P F db"
  shows "keeps (\<lambda>it. P (it_tree it)) (traverse_one F db k height key)"
proof (rule keepsI)
  fix it :: "'a merkle_iter"
  assume it: "P (it_tree it)"
  let ?rest = "\<lambda>(node_handle, matches) it.
        if \<not> matches \<or> length key \<le> length (current_path it)
        then (Inr None,
              it\<lparr>leaf_hash := (if matches \<and> length (current_path it) = length key
                               then as_hash node_handle else None)\<rparr>)
        else bindS (on_tree (load_node_handle F db node_handle (current_path it))) (\<lambda>child_key.
             bindS (update_parent_ref k child_key) (\<lambda>_.
             retS (Some child_key))) it"
  have "keeps (\<lambda>it. P (it_tree it)) (bindS (on_tree (load_node_handle F db h p)) (\<lambda>child_key.
      bindS (update_parent_ref k child_key) (\<lambda>_. retS (Some child_key))))" for h p
    using assms by (intro keep_rules keeps_update_parent_ref [OF assms]) (simp add: walk_keeps_def)
  from keepsD [OF this] have "keeps (\<lambda>it. P (it_tree it)) (?rest a)" for a
    by (cases a, intro keepsI) (simp del: retS_simp)
  then have "keeps (\<lambda>it. P (it_tree it)) (bindS (on_tree (get_node_mut k))
      (\<lambda>node. bindS (traverse_pick node height key) ?rest))"
    by (intro keep_rules)
  from keepsD [OF this, of "it\<lparr>current_nodes_heights := current_nodes_heights it @ [(k, length (current_path it))]\<rparr>"]
  show "P (it_tree (snd (traverse_one F db k height key it)))"
    using it by (simp add: traverse_one_def Let_def)
qed

lemma keeps_traverse_loop:
  fixes db :: "'e db_view"
  assumes "walk_keeps P F db"
  shows "keeps (\<lambda>s. P (it_tree (snd s))) (traverse_loop F fuel db (noop_visitor :: (unit, 'f, 'e) node_visitor) key node)"
proof (induction fuel arbitrary: node)
  case 0
  then show ?case by (cases node) (simp_all add: keeps_def)
next
  case (Suc fuel)
  show ?case
  proof (cases node)
    case (Some k)
    have "P (it_tree (snd (snd (traverse_loop F (Suc fuel) db (noop_visitor :: (unit, 'f, 'e) node_visitor) key (Some k) (v, it)))))"
      if "P (it_tree it)" for v it
      using keepsD [OF keeps_bindS [OF keeps_on_iter [OF keeps_traverse_one [OF assms]] Suc.IH],
          of "(v, it)" k "length (current_path it)" key "\<lambda>n. n"] that
      by (simp add: bindS_def)
    then show ?thesis using Some by (auto simp: keeps_def)
  qed (simp add: keeps_def)
qed

lemma keeps_seek_path:
  fixes db :: "'e db_view"
  assumes walk: "walk_keeps P F db" and root: "keeps P (load_root_node F db :: ('f, 'e, nat option) tree_action)"
  shows "keeps P (seek_path F fuel db key)"
proof (rule keepsI)
  fix t :: "'f merkle_tree"
  assume t: "P t"
  show "P (snd (seek_path F fuel db key t))"
  proof (cases "key = []")
    case False
    have "P (it_tree it)" if "load_root_node F db t = (r, t')"
      "traverse_loop F fuel db noop_visitor key (Some k) ((), iter_new t') = (r', u, it)" for k r r' and t' :: "'f merkle_tree" and u it
      using keepsD [OF keeps_traverse_loop [OF walk], of "((), iter_new t')" fuel key "Some k"] that keepsE [OF root that(1) t]
      by (simp add: iter_new_def)
    moreover have "P t'" if "load_root_node F db t = (r, t')" for r t' by (rule keepsE [OF root that t])
    ultimately show ?thesis using False by (force simp: seek_path_start split: prod.split sum.split option.split)
  qed (use t in \<open>simp add: seek_path_def seek_to_def traverse_to_def iter_new_def\<close>)
qed

lemma walk_keeps_row [keep_rules]:
  "walk_keeps (row_in D C ident) F db" "keeps (row_in D C ident) (seek_path F fuel db key)"
proof -
  show "walk_keeps (row_in D C ident) F db" by (simp add: walk_keeps_def keeps_load_node_handle)
  then show "keeps (row_in D C ident) (seek_path F fuel db key)" by (rule keeps_seek_path) (rule keeps_load_root_node)
qed

section \<open>Changes\<close>

text \<open>The keys of a tree, and the keys that an insertion may add.\<close>

definition own_keys :: "bytes \<Rightarrow> trie_key set" where
  "own_keys ident = {Trie (ident @ b) | b. True}"

definition bare_keys :: "nat \<Rightarrow> bits \<Rightarrow> trie_key set" where
  "bare_keys off key = {Trie (bitslice_to_bytes off (take n key)) | n. n < length key}"

lemma own_keysI [simp]: "Trie (ident @ b) \<in> own_keys ident"
  by (auto simp: own_keys_def)

lemma row_in_nodes_assign: "row_in D C ident (snd (nodes_assign k n t)) = row_in D C ident t"
  by (simp add: nodes_assign_def)

lemma own_key_in: "own_keys ident \<subseteq> D \<Longrightarrow> row_in D C ident t \<Longrightarrow> Trie (tree_ident t @ b) \<in> D"
  by (auto simp: row_in_def)

lemma keeps_set_edge:
  assumes D: "bare_keys off key \<subseteq> D" and C: "bitslice_to_bytes off key \<in> C"
  shows "keeps (row_in D C ident) (set_edge off key value k edge)"
proof (rule keepsI)
  fix t :: "'a merkle_tree"
  assume t: "row_in D C ident t"
  let ?bh = "e_height edge + length (common_path edge key)"
  show "row_in D C ident (snd (set_edge off key value k edge t))"
  proof (cases "?bh \<noteq> length key \<and> ?bh + 1 \<le> length key \<and> length (common_path edge key) + 1 \<le> length (e_path edge)")
    case True
    then have "e_height edge < length key" by simp
    then have "Trie (bitslice_to_bytes off (take (e_height edge) key)) \<in> bare_keys off key"
      unfolding bare_keys_def by blast
    then have bare: "Trie (bitslice_to_bytes off (take (e_height edge) key)) \<in> D" using D by blast
    show ?thesis
      using True t bare C
      by (auto simp: set_edge_def Let_def bindS_def row_in_nodes_assign split del: if_split split: prod.split)
         (auto dest!: nodes_insert_row [where D = D and ident = ident] split: if_splits)
  next
    case False
    then show ?thesis
      using t C by (auto simp: set_edge_def Let_def bindS_def slice_from_def row_in_nodes_assign)
  qed
qed

lemma keeps_set_binary [keep_rules]: "bitslice_to_bytes off key \<in> C \<Longrightarrow> keeps (row_in D C ident) (set_binary off key value k binary)"
  by (auto simp: keeps_def set_binary_def Let_def bindS_def row_in_nodes_assign split: sum.split)

lemma keeps_set_empty [keep_rules]: "bitslice_to_bytes off key \<in> C \<Longrightarrow> keeps (row_in D C ident) (set_empty off key value)"
  by (auto simp: keeps_def set_empty_def nodes_insert_row split: prod.split)

lemma keeps_merge_edges [keep_rules]:
  "own_keys ident \<subseteq> D \<Longrightarrow> keeps (row_in D C ident) (merge_edges F db parent path)"
  by (auto simp: keeps_def merge_edges_def bindS_def get_node_mut_def own_key_in
      split: node_handle.split sum.split option.split node.split)

lemma keeps_delete_final_edge [keep_rules]:
  "own_keys ident \<subseteq> D \<Longrightarrow> keeps (row_in D C ident) (delete_final_edge key path_nodes)"
  by (auto simp: keeps_def delete_final_edge_def bindS_def get_node_mut_def Let_def own_key_in
      split: sum.split option.split node.split prod.split)

text \<open>What happens to the node above the branch that loses a child.\<close>

lemma keeps_assign_parent:
  assumes D: "own_keys ident \<subseteq> D"
  shows "keeps (row_in D C ident) (\<lambda>t. case parent_node of
      Edge parent_edge \<Rightarrow> bindS (nodes_assign j (n parent_edge))
        (\<lambda>_ t. (Inr (), nodes_remove k (death_row_insert (trie_key_new (tree_ident t) TrieType b) t))) t
    | Binary _ \<Rightarrow> nodes_assign k n' t)"
  using own_key_in [OF D] by (auto simp: keeps_def bindS_def nodes_assign_def split: node.split)

lemma keeps_delete_branch [keep_rules]:
  assumes D: "own_keys ident \<subseteq> D"
  shows "keeps (row_in D C ident) (delete_branch F db key path k parent)"
proof -
  have "keeps (row_in D C ident) (case parent of
      None \<Rightarrow> nodes_assign k n
    | Some j \<Rightarrow> bindS (get_node_mut j) (m j))"
    if "\<And>j a. keeps (row_in D C ident) (m j a)" for n m
    using that by (auto split: option.split intro!: keep_rules)
  note rest = this [OF keeps_assign_parent [OF D]]
  have "keeps (row_in D C ident) (case as_binary node of
      None \<Rightarrow> failS e | Some b \<Rightarrow> bindS (liftS (direction b key)) (f b))"
    if "\<And>b a. keeps (row_in D C ident) (f b a)" for node e f
    using that by (auto split: option.split intro!: keep_rules)
  note this [OF keeps_bindS [OF keeps_merge_edges [OF D] rest]]
  then show ?thesis
    unfolding delete_branch_def Let_def by (intro keeps_bindS keeps_get_node_mut)
qed

lemma keeps_delete_root [simp]: "own_keys ident \<subseteq> D \<Longrightarrow> row_in D C ident t \<Longrightarrow> row_in D C ident (delete_root t)"
  by (auto simp: delete_root_def Let_def own_key_in split: option.split root_handle.split)

lemma keeps_delete_at [keep_rules]:
  assumes D: "own_keys ident \<subseteq> D"
  shows "keeps (row_in D C ident) (delete_at F db key hs)"
proof -
  note branch = keepsD [OF keeps_delete_branch [OF D]]
  have "keeps (row_in D C ident) ((\<lambda>(path_nodes, path) t. (case rev (map fst path_nodes) of
        [] \<Rightarrow> (Inr (), delete_root t)
      | [node_id] \<Rightarrow> delete_branch F db key path node_id None t
      | node_id # parent_node_id # _ \<Rightarrow> delete_branch F db key path node_id (Some parent_node_id) t)) x)" for x
    by (cases x, intro keepsI) (simp add: D branch split: list.split)
  then show ?thesis
    unfolding delete_at_def by (intro keeps_bindS keeps_delete_final_edge D)
qed

lemma delete_leaf_alt:
  "delete_leaf off F fuel db key t =
     (if length key \<noteq> unat (max_height t)
      then (Inl (Err (KeyLength (unat (max_height t)) (length key))), t)
      else bindS (\<lambda>t. case hm_get (cache_leaf_modified t) (bitslice_to_bytes off key) of
                  Some entry \<Rightarrow> (Inr (case entry of Insert _ \<Rightarrow> True | Remove \<Rightarrow> False), t)
                | None \<Rightarrow>
                    (case db (leaf_key off (tree_ident t) key) of
                       Inl e \<Rightarrow> (Inl e, t)
                     | Inr found \<Rightarrow> (Inr (found \<noteq> None), t)))
          (\<lambda>tree_has_value t.
             if \<not> tree_has_value then (Inr (), t)
             else bindS (seek_path F fuel db key) (delete_at F db key)
                    (cache_insert (bitslice_to_bytes off key) Remove t)) t)"
  unfolding delete_leaf_def Let_def delete_at_def by (rule refl)

lemma keeps_delete_leaf [keep_rules]:
  assumes D: "own_keys ident \<subseteq> D" and C: "bitslice_to_bytes off key \<in> C"
  shows "keeps (row_in D C ident) (delete_leaf off F fuel db key)"
proof -
  have "keeps (row_in D C ident) (bindS (seek_path F fuel db key) (delete_at F db key))"
    by (intro keeps_bindS walk_keeps_row(2) keeps_delete_at D)
  from keepsD [OF this]
  have "keeps (row_in D C ident) (\<lambda>t. bindS (seek_path F fuel db key) (delete_at F db key) (cache_insert (bitslice_to_bytes off key) Remove t))"
    by (intro keepsI) (simp add: C)
  then have del: "keeps (row_in D C ident) (\<lambda>t. if \<not> has then (Inr (), t)
      else bindS (seek_path F fuel db key) (delete_at F db key) (cache_insert (bitslice_to_bytes off key) Remove t))" for has
    by (simp add: keeps_def)
  have found: "keeps (row_in D C ident) (\<lambda>t. case hm_get (cache_leaf_modified t) (bitslice_to_bytes off key) of
        Some entry \<Rightarrow> (Inr (case entry of Insert _ \<Rightarrow> True | Remove \<Rightarrow> False), t)
      | None \<Rightarrow> (case db (leaf_key off (tree_ident t) key) of
                   Inl e \<Rightarrow> (Inl e, t) | Inr found \<Rightarrow> (Inr (found \<noteq> None), t)))"
    by (auto simp: keeps_def split: option.split sum.split)
  show ?thesis
  proof (rule keepsI)
    fix t :: "'a merkle_tree"
    assume t: "row_in D C ident t"
    show "row_in D C ident (snd (delete_leaf off F fuel db key t))"
    proof (cases "length key = unat (max_height t)")
      case True
      then show ?thesis
        using keepsD [OF keeps_bindS [OF found del [where has = h for h]] t] unfolding delete_leaf_alt by simp
    qed (use t in \<open>simp add: delete_leaf_alt\<close>)
  qed
qed

lemma keeps_set_walk [keep_rules]:
  assumes D: "bare_keys off key \<subseteq> D" and C: "bitslice_to_bytes off key \<in> C"
  shows "keeps (row_in D C ident) (set_walk off F fuel db key value)"
proof -
  have "keeps (row_in D C ident) (case node of
      Edge edge \<Rightarrow> set_edge off key value k edge | Binary binary \<Rightarrow> set_binary off key value k binary)" for node k
    by (auto split: node.split intro: keeps_set_edge [OF D C] keeps_set_binary [OF C])
  then show ?thesis
    unfolding set_walk_def
    by (intro keeps_bindS walk_keeps_row(2)) (auto split: prod.split intro!: keeps_bindS keeps_get_node_mut keeps_set_empty C)
qed

text \<open>The death row after a call of \<open>set\<close>.\<close>

lemma keeps_tree_set:
  assumes D: "own_keys ident \<subseteq> D" "bare_keys off key \<subseteq> D" and C: "bitslice_to_bytes off key \<in> C"
  shows "keeps (row_in D C ident) (tree_set off F fuel db key value)"
proof -
  have "keeps (row_in D C ident) (bindS (liftS r) (\<lambda>value_db.
      if value_db = Some value then retS () else set_walk off F fuel db key value))" for r
    by (intro keeps_bindS keep_rules) (simp add: keeps_set_walk [OF D(2) C] keeps_basic)
  note walk = keepsD [OF this]
  show ?thesis
  proof (rule keepsI)
    fix t :: "'a merkle_tree"
    assume t: "row_in D C ident t"
    show "row_in D C ident (snd (tree_set off F fuel db key value t))"
      using t C walk [OF t] keepsD [OF keeps_delete_leaf [OF D(1) C, of F fuel db] t]
      unfolding tree_set_def Let_def set_walk_def [symmetric] by (simp split: option.split insert_or_remove.split)
  qed
qed

lemma tree_set_frame:
  assumes "tree_set off F fuel db key value t = (r, t')"
  shows "set (death_row t') \<subseteq> set (death_row t) \<union> own_keys (tree_ident t) \<union> bare_keys off key"
    and "fst ` set (cache_leaf_modified t') \<subseteq> insert (bitslice_to_bytes off key) (fst ` set (cache_leaf_modified t))"
proof -
  let ?D = "set (death_row t) \<union> own_keys (tree_ident t) \<union> bare_keys off key"
  let ?C = "insert (bitslice_to_bytes off key) (fst ` set (cache_leaf_modified t))"
  have "row_in ?D ?C (tree_ident t) t" by (auto simp: row_in_def)
  then have "row_in ?D ?C (tree_ident t) t'"
    by (rule keepsE [OF keeps_tree_set assms, rotated 3]) auto
  then show "set (death_row t') \<subseteq> ?D" "fst ` set (cache_leaf_modified t') \<subseteq> ?C" by (simp_all add: row_in_def)
qed

section \<open>The updates of a commit\<close>

text \<open>The updates have one entry per key, and their keys are on the death row or of the tree.\<close>

definition ups_in :: "trie_key set \<Rightarrow> bytes \<Rightarrow> (bytes, 'f insert_or_remove) hash_map \<Rightarrow> 'f merkle_tree \<times> updates \<times> 'f list \<Rightarrow> bool" where
  "ups_in K ident C s \<longleftrightarrow>
     hm_wf (fst (snd s)) \<and> fst ` set (fst (snd s)) \<subseteq> K \<and> tree_ident (fst s) = ident \<and> cache_leaf_modified (fst s) = C"

lemma keeps_commit_steps:
  "keeps (ups_in K ident C) next_hash" "keeps (ups_in K ident C) (take_node k)"
  "key \<in> K \<Longrightarrow> keeps (ups_in K ident C) (put_update key v)"
  by (auto simp: keeps_def ups_in_def next_hash_def take_node_def put_update_def hm_insert_keys
      split: list.split option.split)

lemma keeps_with_ident:
  assumes "keeps (ups_in K ident C) (f ident)"
  shows "keeps (ups_in K ident C) (bindS get_ident f)"
  using assms by (auto simp: keeps_def ups_in_def bindS_def get_ident_def)

lemma keeps_commit_subtree:
  assumes K: "own_keys ident \<subseteq> K"
  shows "keeps (ups_in K ident C) (commit_subtree F fuel k p :: ('f, 'e, 'f) commit_action)"
    and "keeps (ups_in K ident C) (commit_handle F fuel h p :: ('f, 'e, 'f) commit_action)"
proof (induction F fuel k p and F fuel h p rule: commit_subtree_commit_handle.induct)
  have own: "Trie (ident @ b) \<in> K" for b using K by auto
  case (2 F fuel k p)
  then show ?case
    by (auto simp del: retS_simp intro!: keeps_bindS keeps_basic keeps_commit_steps keeps_with_ident own split: node.split)
qed (simp_all del: retS_simp failS_simp add: keeps_basic)

lemma fold_hm_insert_keys:
  "fst ` set (fold (\<lambda>x. hm_insert (f x) (g x)) xs m) = f ` set xs \<union> fst ` set m"
  "hm_wf m \<Longrightarrow> hm_wf (fold (\<lambda>x. hm_insert (f x) (g x)) xs m)"
  by (induction xs arbitrary: m) (auto simp: hm_insert_keys)

lemma get_updates_frame:
  assumes run: "get_updates F fuel t = (Inr ups :: ('e, updates) outcome, t')"
  shows "hm_wf ups"
    and "fst ` set ups \<subseteq> set (death_row t) \<union> own_keys (tree_ident t) \<union>
      (\<lambda>b. Flat (tree_ident t @ b)) ` fst ` set (cache_leaf_modified t)"
proof -
  let ?K = "set (death_row t) \<union> own_keys (tree_ident t)"
  let ?death = "fold (\<lambda>k. hm_insert k (Remove :: bytes insert_or_remove)) (death_row t) []"
  have start: "ups_in ?K (tree_ident t) (cache_leaf_modified t) (t\<lparr>death_row := []\<rparr>, ?death, hs)" for hs
    using fold_hm_insert_keys [where f = "\<lambda>x. x" and g = "\<lambda>_. Remove :: bytes insert_or_remove"
        and xs = "death_row t" and m = "[]"]
    by (simp add: ups_in_def)
  have sub: "ups_in ?K (tree_ident t) (cache_leaf_modified t) (s :: 'a merkle_tree \<times> updates \<times> 'a list)"
    if "commit_subtree F fuel k p (t\<lparr>death_row := []\<rparr>, ?death, hs) = (r :: ('e, 'a) outcome, s)" for r s k p hs
    using keepsE [OF keeps_commit_subtree(1) that start] by auto
  obtain ups1 t1 hs1 where in1: "ups_in ?K (tree_ident t) (cache_leaf_modified t) (t1, ups1, hs1)"
    and ups: "ups = fold (\<lambda>(key, value). hm_insert (trie_key_new (tree_ident t) FlatType key)
      (encode_leaf_update F value)) (cache_leaf_modified t1) ups1"
  proof (cases "\<exists>k. root_node t = Some (Loaded k)")
    case True
    then obtain k where k: "root_node t = Some (Loaded k)" ..
    then obtain h hs where hs: "compute_root_hash F fuel (t\<lparr>death_row := []\<rparr>) [] = (Inr (h, hs) :: ('e, _) outcome)"
      using run by (auto simp: get_updates_def Let_def bindS_def split: sum.splits)
    obtain r t1 ups1 hs1 where c: "commit_subtree F fuel k [] (t\<lparr>death_row := []\<rparr>, ?death, hs) =
        (r :: ('e, 'a) outcome, t1, ups1, hs1)" by (metis prod_cases4)
    note in1 = sub [OF c]
    then have "tree_ident t1 = tree_ident t" by (simp add: ups_in_def)
    then show thesis
      using run k hs c by (intro that [OF in1]) (auto simp: get_updates_def Let_def bindS_def split: sum.splits)
  next
    case False
    then show thesis
      using run by (intro that [OF start])
        (auto simp: get_updates_def Let_def bindS_def split: option.splits root_handle.splits)
  qed
  note keys = fold_hm_insert_keys [where f = "\<lambda>x. Flat (tree_ident t @ fst x)"
      and g = "\<lambda>x. encode_leaf_update F (snd x)" and m = ups1]
  show "hm_wf ups" "fst ` set ups \<subseteq> ?K \<union> (\<lambda>b. Flat (tree_ident t @ b)) ` fst ` set (cache_leaf_modified t)"
    using in1 keys by (auto simp: ups ups_in_def case_prod_unfold)
qed

end
