(* ===== verification/Trees_Correct.thy ===== *)
theory Trees_Correct
  imports Merkle_Trees Tree_Frame
begin

text \<open>
  Several trees over one store. The invariant says that every tree of a family of identifiers,
  none a prefix of another, holds its trie, and that no tree has a key of another one on its
  death row. Insertions and removals change one trie, and a commit writes all of them.
\<close>

section \<open>The invariant\<close>

definition prefix_free :: "bytes set \<Rightarrow> bool" where
  "prefix_free Ids \<longleftrightarrow> (\<forall>i \<in> Ids. \<forall>j \<in> Ids. prefix i j \<longrightarrow> i = j)"

text \<open>
  \<open>set\<close> puts the bytes of a proper prefix of the key on the death row when it splits an edge, in
  the layout of the caller's bit slice and without the identifier of the tree. No such bytes start
  with an identifier; if there is one tree with the empty identifier, they name no node but the
  one that is split, which holds for every byte-aligned key (\<open>key_safe_aligned\<close>).
\<close>

definition key_safe :: "nat \<Rightarrow> bytes set \<Rightarrow> bits \<Rightarrow> bool" where
  "key_safe off Ids key \<longleftrightarrow>
     (\<forall>n < length key.
        (\<forall>i \<in> Ids. i \<noteq> [] \<longrightarrow> \<not> prefix i (bitslice_to_bytes off (take n key))) \<and>
        ([] \<in> Ids \<longrightarrow>
           (\<forall>q. length q \<le> 255 \<longrightarrow> bitslice_to_bytes off (take n key) = path_encode q \<longrightarrow> q = take n key)))"

definition tree_ok ::
  "nat \<Rightarrow> 'f ext_ops \<Rightarrow> 'e db_view \<Rightarrow> byte \<Rightarrow> bytes set \<Rightarrow> bytes \<Rightarrow> 'f merkle_tree \<Rightarrow> 'f trie \<Rightarrow> bool" where
  "tree_ok off F db height Ids i t pt \<longleftrightarrow>
     tree_ident t = i \<and> max_height t = height \<and> tree_inv F db t pt \<and> leaf_inv off F db t pt \<and>
     (\<forall>j \<in> Ids. j \<noteq> i \<longrightarrow> (\<forall>k \<in> set (death_row t). \<not> prefix j (as_slice k)))"

definition trees_inv ::
  "nat \<Rightarrow> 'f ext_ops \<Rightarrow> 'e db_view \<Rightarrow> bytes set \<Rightarrow> ('f, 'db, 'id) merkle_trees \<Rightarrow> (bytes \<Rightarrow> 'f trie) \<Rightarrow> bool" where
  "trees_inv off F db Ids ts m \<longleftrightarrow>
     hm_wf (trees ts) \<and> fst ` set (trees ts) \<subseteq> Ids \<and>
     (\<forall>i \<in> Ids. tree_ok off F db (ts_max_height ts) Ids i (tree_entry ts i) (m i))"

text \<open>The leaves that were changed since the last commit, as the caches have them.\<close>

definition dirty_in :: "nat \<Rightarrow> ('f, 'db, 'id) merkle_trees \<Rightarrow> (bytes \<times> bits) set \<Rightarrow> bool" where
  "dirty_in off ts d \<longleftrightarrow>
     (\<forall>i. fst ` set (cache_leaf_modified (tree_entry ts i)) \<subseteq> bitslice_to_bytes off ` {k. (i, k) \<in> d})"

lemma prefix_freeD: "prefix_free Ids \<Longrightarrow> i \<in> Ids \<Longrightarrow> j \<in> Ids \<Longrightarrow> prefix i x \<Longrightarrow> prefix j x \<Longrightarrow> i = j"
  unfolding prefix_free_def by (metis prefix_same_cases)

lemma tree_entry_insert [simp]:
  "tree_entry (ts\<lparr>trees := hm_insert i t (trees ts)\<rparr>) j = (if j = i then t else tree_entry ts j)"
  by (simp add: tree_entry_def hm_simps split: option.split)

lemma max_height_of: "height_of t = height_of t' \<Longrightarrow> max_height t = max_height t'"
  by (simp add: height_of_def word_unat_eq_iff)

lemma tree_inv_total: "tree_inv F db t pt \<Longrightarrow> db_total db"
  by (simp add: tree_inv_def)

section \<open>Changing one tree\<close>

lemma key_safe_clear: "key_safe off Ids key \<Longrightarrow> tree_ident t \<in> Ids \<Longrightarrow> key_clear off t key"
  unfolding key_safe_def key_clear_def by (metis append_Nil prefixI)

lemma key_safe_aligned:
  assumes "length key \<le> 255" shows "key_safe 0 {[]} key"
proof -
  have "q = take n key" if q: "length q \<le> 255" "bitslice_to_bytes 0 (take n key) = path_encode q" for n q
  proof -
    have "take n key \<noteq> []" using q(2) path_encode_not_Nil [of q] by (metis bitslice_to_bytes_Nil)
    moreover have "length (take n key) \<le> 255" using assms by simp
    ultimately show ?thesis using q by (metis bitslice_to_bytes_path path_encode_inj)
  qed
  then show ?thesis unfolding key_safe_def by simp
qed

text \<open>The death row after a change stays clear of the other trees.\<close>

lemma death_row_clear:
  assumes ids: "prefix_free Ids" "i \<in> Ids" "j \<in> Ids" "j \<noteq> i" and safe: "key_safe off Ids key"
    and row: "set (death_row t') \<subseteq> set (death_row t) \<union> own_keys i \<union> bare_keys off key"
    and old: "\<forall>k \<in> set (death_row t). \<not> prefix j (as_slice k)" and k: "k \<in> set (death_row t')"
  shows "\<not> prefix j (as_slice k)"
proof -
  have "\<not> prefix j (i @ b)" for b using prefix_freeD [OF ids(1-3), of "i @ b"] ids(4) by auto
  moreover have "j \<noteq> []" using ids by (auto simp: prefix_free_def)
  then have "\<not> prefix j (bitslice_to_bytes off (take n key))" if "n < length key" for n
    using safe ids(3) that by (auto simp: key_safe_def)
  ultimately show ?thesis using row old k by (auto simp: own_keys_def bare_keys_def)
qed

text \<open>
  A call of \<open>set\<close> whose effect on the tree is known changes the trie of one identifier and
  leaves the others.
\<close>

lemma trees_set_ok:
  fixes F :: "'f ext_ops" and ts :: "('f, 'db, 'id) merkle_trees" and B :: "('db, 'batch, 'e) db_ops"
  defines "db \<equiv> kv_get B (ts_db ts)"
  assumes inv: "trees_inv off F db Ids ts m" and dirty: "dirty_in off ts d"
    and ids: "prefix_free Ids" "i \<in> Ids" and safe: "key_safe off Ids key"
    and run: "tree_set off F LOOP_BOUND db key v (tree_entry ts i) = (Inr () :: ('e, unit) outcome, t')"
    and t': "tree_inv F db t' pt" "leaf_inv off F db t' pt" "tree_ident t' = tree_ident (tree_entry ts i)"
      "height_of t' = height_of (tree_entry ts i)"
  shows "\<exists>ts'. trees_set off F B i key v ts = (Inr () :: ('e, unit) outcome, ts') \<and> ts_db ts' = ts_db ts \<and>
    ts_max_height ts' = ts_max_height ts \<and> trees_inv off F db Ids ts' (m(i := pt)) \<and> dirty_in off ts' (insert (i, key) d)"
proof -
  let ?t = "tree_entry ts i" and ?ts = "ts\<lparr>trees := hm_insert i t' (trees ts)\<rparr>"
  have ok: "tree_ok off F db (ts_max_height ts) Ids j (tree_entry ts j) (m j)" if "j \<in> Ids" for j
    using inv that by (simp add: trees_inv_def)
  note frame = tree_set_frame [OF run]
  have "tree_ok off F db (ts_max_height ts) Ids i t' pt"
    using ok [OF ids(2)] t' max_height_of [OF t'(4)] death_row_clear [OF ids _ _ safe, where t = ?t and t' = t'] frame(1)
    by (auto simp: tree_ok_def)
  then have "trees_inv off F db Ids ?ts (m(i := pt))"
    using inv ids(2) ok by (auto simp: trees_inv_def hm_insert_keys)
  moreover have "dirty_in off ?ts (insert (i, key) d)"
    unfolding dirty_in_def
  proof
    fix j
    have old: "fst ` set (cache_leaf_modified (tree_entry ts j)) \<subseteq> bitslice_to_bytes off ` {k. (j, k) \<in> d}"
      using dirty by (simp add: dirty_in_def)
    show "fst ` set (cache_leaf_modified (tree_entry ?ts j)) \<subseteq> bitslice_to_bytes off ` {k. (j, k) \<in> insert (i, key) d}"
    proof (cases "j = i")
      case True
      have "fst ` set (cache_leaf_modified t') \<subseteq> insert (bitslice_to_bytes off key) (bitslice_to_bytes off ` {k. (i, k) \<in> d})"
        using old frame(2) True by blast
      then show ?thesis using True by (simp add: insert_image [symmetric]) blast
    next
      case False
      then show ?thesis using old by auto
    qed
  qed
  moreover have "trees_set off F B i key v ts = (Inr (), ?ts)"
    using run by (simp add: trees_set_def on_entry_def db_def)
  ultimately show ?thesis by (intro exI [of _ ?ts]) simp
qed

lemma height_bound: "height_of t \<le> LOOP_BOUND"
  using height_le [of t] by (simp add: LOOP_BOUND_def)

text \<open>Insertion of a key that neither early return of \<open>set\<close> keeps from the tree.\<close>

lemma trees_set_insert:
  fixes F :: "'f ext_ops" and ts :: "('f, 'db, 'id) merkle_trees" and B :: "('db, 'batch, 'e) db_ops"
  defines "db \<equiv> kv_get B (ts_db ts)"
  assumes inv: "trees_inv off F db Ids ts m" and dirty: "dirty_in off ts d"
    and ids: "prefix_free Ids" "i \<in> Ids" and safe: "key_safe off Ids key"
    and key: "length key = unat (ts_max_height ts)" and v: "v \<noteq> ZERO F"
    and pre: "set_pre off F db (tree_entry ts i) key v"
  shows "\<exists>ts'. trees_set off F B i key v ts = (Inr () :: ('e, unit) outcome, ts') \<and> ts_db ts' = ts_db ts \<and>
    ts_max_height ts' = ts_max_height ts \<and> trees_inv off F db Ids ts' (m(i := trie_insert key v (m i))) \<and>
    dirty_in off ts' (insert (i, key) d)"
proof -
  let ?t = "tree_entry ts i"
  have t: "tree_ident ?t = i" "max_height ?t = ts_max_height ts" "tree_inv F db ?t (m i)" "leaf_inv off F db ?t (m i)"
    using inv ids(2) by (auto simp: trees_inv_def tree_ok_def)
  have len: "length key = height_of ?t" using key t(2) by (simp add: height_of_def)
  have "key_clear off ?t key" using key_safe_clear [OF safe, of ?t] t(1) ids(2) by simp
  then obtain t' where "tree_set off F LOOP_BOUND db key v ?t = (Inr () :: ('e, unit) outcome, t')"
    "tree_inv F db t' (trie_insert key v (m i))" "leaf_inv off F db t' (trie_insert key v (m i))"
    "tree_ident t' = tree_ident ?t" "height_of t' = height_of ?t"
    using tree_set_insert [OF t(3,4) len height_bound _ v pre] by blast
  then show ?thesis
    using trees_set_ok [OF inv [unfolded db_def] dirty ids safe] unfolding db_def by blast
qed

lemma trees_set_remove:
  fixes F :: "'f ext_ops" and ts :: "('f, 'db, 'id) merkle_trees" and B :: "('db, 'batch, 'e) db_ops"
  defines "db \<equiv> kv_get B (ts_db ts)"
  assumes inv: "trees_inv off F db Ids ts m" and dirty: "dirty_in off ts d"
    and ids: "prefix_free Ids" "i \<in> Ids" and safe: "key_safe off Ids key"
    and key: "length key = unat (ts_max_height ts)"
  shows "\<exists>ts'. trees_set off F B i key (ZERO F) ts = (Inr () :: ('e, unit) outcome, ts') \<and> ts_db ts' = ts_db ts \<and>
    ts_max_height ts' = ts_max_height ts \<and>
    trees_inv off F db Ids ts' (m(i := if trie_lookup (m i) key = None then m i else trie_delete key (m i))) \<and>
    dirty_in off ts' (insert (i, key) d)"
proof -
  let ?t = "tree_entry ts i" and ?pt = "if trie_lookup (m i) key = None then m i else trie_delete key (m i)"
  have t: "tree_ident ?t = i" "max_height ?t = ts_max_height ts" "tree_inv F db ?t (m i)" "leaf_inv off F db ?t (m i)"
    using inv ids(2) by (auto simp: trees_inv_def tree_ok_def)
  have len: "length key = height_of ?t" using key t(2) by (simp add: height_of_def)
  from delete_leaf_delete [OF t(3,4) len height_bound]
  obtain t' where "tree_set off F LOOP_BOUND db key (ZERO F) ?t = (Inr () :: ('e, unit) outcome, t')"
    "tree_inv F db t' ?pt" "leaf_inv off F db t' ?pt" "tree_ident t' = tree_ident ?t" "height_of t' = height_of ?t"
    by (auto simp: tree_set_def Let_def)
  then show ?thesis
    using trees_set_ok [OF inv [unfolded db_def] dirty ids safe] unfolding db_def by blast
qed

section \<open>A tree reads its own keys only\<close>

definition agree_on :: "bytes \<Rightarrow> 'e db_view \<Rightarrow> 'e db_view \<Rightarrow> bool" where
  "agree_on i db db' \<longleftrightarrow> (\<forall>k. prefix i (as_slice k) \<longrightarrow> db k = db' k)"

lemma agree_on_keys:
  "agree_on i db db' \<Longrightarrow> db (Trie (i @ b)) = db' (Trie (i @ b))"
  "agree_on i db db' \<Longrightarrow> db (Flat (i @ b)) = db' (Flat (i @ b))"
  by (simp_all add: agree_on_def)

lemma tree_cong:
  assumes "agree_on (tree_ident t) db db'"
  shows "stored F db t = stored F db' t" "absent db t p = absent db' t p" "read_flat off F db t k = read_flat off F db' t k"
    "tree_get off F db t k = tree_get off F db' t k" "tree_root_hash F db t = tree_root_hash F db' t"
  using agree_on_keys [OF assms]
  by (auto simp: stored_def absent_def read_flat_def tree_get_def tree_root_hash_def get_trie_branch_in_db_from_path_def
      fun_eq_iff Let_def split: option.split root_handle.split)

lemma tree_inv_cong:
  assumes "agree_on (tree_ident t) db db'" "db_total db'"
  shows "tree_inv F db t pt \<Longrightarrow> tree_inv F db' t pt" "leaf_inv off F db t pt \<Longrightarrow> leaf_inv off F db' t pt"
  using assms(2) tree_cong [OF assms(1)]
  by (auto simp: tree_inv_def leaf_inv_def empty_inv_def gtree_inv_def split: option.splits)

section \<open>Collecting and writing the updates\<close>

text \<open>The updates applied to the contents of a store.\<close>

definition apply_changes :: "updates \<Rightarrow> (database_key \<rightharpoonup> bytes) \<Rightarrow> database_key \<rightharpoonup> bytes" where
  "apply_changes ups m =
     fold (\<lambda>(k, v) m. m(database_key_of k := (case v of Insert b \<Rightarrow> Some b | Remove \<Rightarrow> None))) ups m"

lemma apply_changes_simps [simp]:
  "apply_changes [] m = m"
  "apply_changes ((k, v) # ups) m =
     apply_changes ups (m(database_key_of k := (case v of Insert b \<Rightarrow> Some b | Remove \<Rightarrow> None)))"
  by (simp_all add: apply_changes_def)

lemma apply_changes_other: "k \<notin> database_key_of ` fst ` set ups \<Longrightarrow> apply_changes ups m k = m k"
  by (induction ups arbitrary: m) auto

lemma apply_changes_get:
  "hm_wf ups \<Longrightarrow> apply_changes ups m (database_key_of k) =
     (case hm_get ups k of None \<Rightarrow> m (database_key_of k) | Some (Insert b) \<Rightarrow> Some b | Some Remove \<Rightarrow> None)"
proof (induction ups arbitrary: m)
  case (Cons u ups)
  obtain k' v where u: "u = (k', v)" by fastforce
  show ?case
  proof (cases "k' = k")
    case True
    then have "database_key_of k \<notin> database_key_of ` fst ` set ups" using Cons.prems u by (force simp: hm_wf_def)
    then show ?thesis
      using u True by (simp add: apply_changes_other hm_get_def split: insert_or_remove.split)
  next
    case False
    then show ?thesis using u Cons by (simp add: hm_wf_def hm_get_def split: option.split)
  qed
qed (simp add: hm_get_def)

context batch_database
begin

lemma write_changes_pending:
  "ok (kv_db kv) \<Longrightarrow> \<exists>kv' b'. write_changes B ups (kv, Some b) = (Inr () :: ('e, unit) outcome, kv', Some b') \<and>
     ok (kv_db kv') \<and> pending (kv_db kv') b' = apply_changes ups (pending (kv_db kv) b) \<and> config kv' = config kv"
proof (induction ups arbitrary: kv b)
  case (Cons u ups)
  obtain k v where u: "u = (k, v)" by fastforce
  obtain kv1 b1 where w: "(case v of Insert value \<Rightarrow> kv_insert B k value | Remove \<Rightarrow> kv_remove B k) (kv, Some b) =
      (Inr () :: ('e, unit) outcome, kv1, Some b1)" "ok (kv_db kv1)" "config kv1 = config kv"
    "pending (kv_db kv1) b1 = (pending (kv_db kv) b)(database_key_of k := (case v of Insert b \<Rightarrow> Some b | Remove \<Rightarrow> None))"
    using kv_insert_pending [OF Cons.prems, of k _ b] kv_remove_pending [OF Cons.prems, of k b]
    by (cases v) (auto, blast+)
  obtain kv2 b2 where r: "write_changes B ups (kv1, Some b1) = (Inr () :: ('e, unit) outcome, kv2, Some b2)" "ok (kv_db kv2)"
    "pending (kv_db kv2) b2 = apply_changes ups (pending (kv_db kv1) b1)" "config kv2 = config kv1"
    using Cons.IH [OF w(2)] by blast
  have "write_changes B (u # ups) (kv, Some b) = (Inr () :: ('e, unit) outcome, kv2, Some b2)"
    using w(1) r(1) u by (simp add: bindS_def)
  moreover have "pending (kv_db kv2) b2 = apply_changes (u # ups) (pending (kv_db kv) b)"
    unfolding r(3) w(4) u apply_changes_simps ..
  ultimately show ?case using r(2,4) w(3) by (intro exI [of _ kv2] exI [of _ b2]) simp
qed simp

lemma write_trees_pending:
  "ok (kv_db kv) \<Longrightarrow> \<exists>kv' b'. write_trees B (map Inr upss) (kv, Some b) = (Inr () :: ('e, unit) outcome, kv', Some b') \<and>
     ok (kv_db kv') \<and> pending (kv_db kv') b' = fold apply_changes upss (pending (kv_db kv) b) \<and> config kv' = config kv"
proof (induction upss arbitrary: kv b)
  case (Cons ups upss)
  obtain kv1 b1 where w: "write_changes B ups (kv, Some b) = (Inr () :: ('e, unit) outcome, kv1, Some b1)" "ok (kv_db kv1)"
    "config kv1 = config kv" "pending (kv_db kv1) b1 = apply_changes ups (pending (kv_db kv) b)"
    using write_changes_pending [OF Cons.prems, of ups b] by blast
  show ?case using Cons.IH [OF w(2), of b1] w by (auto simp: bindS_def)
qed simp

end

text \<open>The updates of each tree, with what they do to the store for the tree itself.\<close>

definition updates_of ::
  "nat \<Rightarrow> 'f ext_ops \<Rightarrow> 'e db_view \<Rightarrow> (bytes \<Rightarrow> 'f trie) \<Rightarrow> bytes \<times> 'f merkle_tree \<Rightarrow> updates \<Rightarrow> bytes \<times> 'f merkle_tree \<Rightarrow> bool" where
  "updates_of off F db m e ups e' \<longleftrightarrow>
     fst e' = fst e \<and> committed (snd e) (snd e') \<and> hm_wf ups \<and>
     fst ` set ups \<subseteq> set (death_row (snd e)) \<union> own_keys (fst e) \<union>
       (\<lambda>b. Flat (fst e @ b)) ` fst ` set (cache_leaf_modified (snd e)) \<and>
     tree_inv F (db_after ups db) (snd e') (m (fst e)) \<and> leaf_inv off F (db_after ups db) (snd e') (m (fst e)) \<and>
     tree_root_hash F (db_after ups db) (snd e') = Inr (trie_hash F (m (fst e)))"

lemma collect_updates_ok:
  fixes F :: "'f ext_ops" and db :: "'e db_view"
  assumes codec: "node_codec F" "felt_codec F"
  shows "(\<forall>(i, t) \<in> set es. tree_ident t = i \<and> tree_inv F db t (m i) \<and> leaf_inv off F db t (m i)) \<Longrightarrow>
    \<exists>upss es'. collect_updates F es = (map Inr upss :: ('e, updates) outcome list, es') \<and>
      length upss = length es \<and> length es' = length es \<and>
      (\<forall>n < length es. updates_of off F db m (es ! n) (upss ! n) (es' ! n))"
proof (induction es)
  case (Cons e es)
  obtain i t where e: "e = (i, t)" by fastforce
  then have t: "tree_ident t = i" "tree_inv F db t (m i)" "leaf_inv off F db t (m i)" using Cons.prems by auto
  obtain ups t' where g: "get_updates F LOOP_BOUND t = (Inr ups :: ('e, updates) outcome, t')" "committed t t'"
    "tree_inv F (db_after ups db) t' (m i)" "leaf_inv off F (db_after ups db) t' (m i)"
    "tree_root_hash F (db_after ups db) t' = Inr (trie_hash F (m i))"
    using get_updates_commit [OF t(2,3) codec height_bound] by blast
  have u: "updates_of off F db m e ups (i, t')"
    using g get_updates_frame [OF g(1)] t(1) e by (simp add: updates_of_def)
  obtain upss es' where r: "collect_updates F es = (map Inr upss :: ('e, updates) outcome list, es')"
    "length upss = length es" "length es' = length es" "\<forall>n < length es. updates_of off F db m (es ! n) (upss ! n) (es' ! n)"
    using Cons by auto
  show ?case
    using e g(1) u r by (intro exI [of _ "ups # upss"] exI [of _ "(i, t') # es'"]) (auto simp: nth_Cons split: nat.split)
qed simp

lemma fold_apply_none:
  "\<forall>ups \<in> set upss. k \<notin> fst ` set ups \<Longrightarrow> fold apply_changes upss m (database_key_of k) = m (database_key_of k)"
proof (induction upss arbitrary: m)
  case (Cons ups upss)
  then have "database_key_of k \<notin> database_key_of ` fst ` set ups" by (auto simp: image_iff)
  then have "apply_changes ups m (database_key_of k) = m (database_key_of k)" by (rule apply_changes_other)
  then show ?case using Cons.IH [of "apply_changes ups m"] Cons.prems by simp
qed simp

lemma fold_apply_one:
  assumes n: "n < length upss" and others: "\<forall>l < length upss. l \<noteq> n \<longrightarrow> k \<notin> fst ` set (upss ! l)" and wf: "hm_wf (upss ! n)"
  shows "fold apply_changes upss m (database_key_of k) = apply_changes (upss ! n) m (database_key_of k)"
proof -
  have split: "upss = take n upss @ upss ! n # drop (Suc n) upss" using n by (simp add: id_take_nth_drop)
  have "\<forall>ups \<in> set (take n upss). k \<notin> fst ` set ups"
  proof
    fix ups assume "ups \<in> set (take n upss)"
    then obtain l where "l < n" "ups = upss ! l" using n by (auto simp: in_set_conv_nth)
    then show "k \<notin> fst ` set ups" using others n by simp
  qed
  moreover have "\<forall>ups \<in> set (drop (Suc n) upss). k \<notin> fst ` set ups"
  proof
    fix ups assume "ups \<in> set (drop (Suc n) upss)"
    then obtain l where "l < length upss - Suc n" "ups = drop (Suc n) upss ! l" by (auto simp: in_set_conv_nth)
    then have "Suc n + l < length upss" "ups = upss ! (Suc n + l)" by simp_all
    then show "k \<notin> fst ` set ups" using others by simp
  qed
  ultimately have "fold apply_changes (take n upss @ upss ! n # drop (Suc n) upss) m (database_key_of k) =
      apply_changes (upss ! n) m (database_key_of k)"
    by (simp add: fold_apply_none apply_changes_get [OF wf] split: option.split)
  then show ?thesis using split by simp
qed

lemma tree_entry_nth:
  assumes "hm_wf (trees ts)" "l < length (trees ts)"
  shows "tree_entry ts (fst (trees ts ! l)) = snd (trees ts ! l)"
proof -
  have "map_of (trees ts) (fst (trees ts ! l)) = Some (snd (trees ts ! l))"
    using assms by (intro map_of_is_SomeI) (simp_all add: hm_wf_def)
  then show ?thesis by (simp add: tree_entry_def hm_get_def)
qed

text \<open>The keys that one tree updates are not those of another.\<close>

lemma updates_apart:
  assumes "updates_of off F db m (j, t) ups e'" "tree_ok off F db h Ids j t pt" "prefix_free Ids" "i \<in> Ids" "j \<in> Ids" "i \<noteq> j"
    and k: "prefix i (as_slice k)"
  shows "k \<notin> fst ` set ups"
proof
  assume "k \<in> fst ` set ups"
  then have "k \<in> set (death_row t) \<union> own_keys j \<union> range (\<lambda>b. Flat (j @ b))"
    using assms(1) by (fastforce simp: updates_of_def)
  moreover have "k \<notin> set (death_row t)" using assms(2,4,6) k by (auto simp: tree_ok_def)
  moreover have "\<not> prefix j (as_slice k)" using prefix_freeD [OF assms(3-5) k] assms(6) by blast
  ultimately show False by (auto simp: own_keys_def)
qed

text \<open>The root hash of a tree that has not been used since it was opened.\<close>

lemma new_tree_root_hash:
  fixes F :: "'f ext_ops" and db :: "'e db_view"
  assumes "tree_inv F db (tree_new i h) pt" "leaf_inv off F db (tree_new i h) pt" "node_codec F" "felt_codec F"
  shows "tree_root_hash F db (tree_new i h) = Inr (trie_hash F pt)"
proof -
  have "get_updates F LOOP_BOUND (tree_new i h :: 'f merkle_tree) = (Inr [] :: ('e, updates) outcome, tree_new i h)"
    by (simp add: get_updates_def tree_new_def bindS_def)
  moreover have "db_after [] db = db" by (simp add: db_after_def fun_eq_iff)
  ultimately show ?thesis using get_updates_commit [OF assms height_bound] by auto
qed

text \<open>
  What a commit leaves: the same tries, with nothing in memory, and their hashes at the roots.
  Such a tree is as good as one that was just opened.
\<close>

definition clean :: "'f merkle_tree \<Rightarrow> bool" where
  "clean t \<longleftrightarrow> root_node t = None \<and> slots t = Map.empty \<and> death_row t = [] \<and> cache_leaf_modified t = []"

lemma tree_new_sel:
  "tree_ident (tree_new i h) = i" "max_height (tree_new i h) = h" "death_row (tree_new i h) = []"
  by (simp_all add: tree_new_def)

lemma clean_new [simp]: "clean (tree_new i h)"
  by (simp add: clean_def tree_new_def sm_empty_def)

lemma committed_clean: "committed t t' \<Longrightarrow> clean t'"
  by (simp add: committed_def clean_def)

lemma clean_reopen:
  fixes t :: "'f merkle_tree"
  assumes ok: "tree_ok off F db h Ids i t pt" and "clean t"
  shows "tree_ok off F db h Ids i (tree_new i h) pt"
proof -
  let ?n = "tree_new i h :: 'f merkle_tree"
  have same: "slots ?n = slots t" "root_node ?n = root_node t" "death_row ?n = death_row t" "tree_ident ?n = tree_ident t"
    "cache_leaf_modified ?n = cache_leaf_modified t" "max_height ?n = max_height t" "sm_wf (nodes ?n)"
    using assms by (simp_all add: tree_new_def tree_ok_def clean_def sm_empty_def sm_wf_def)
  then have h: "height_of ?n = height_of t" by (simp add: height_of_def)
  have st: "stored F db ?n = stored F db t" "absent db ?n = absent db t" "root_matches ?n = root_matches t"
    by (simp_all add: stored_def absent_def root_matches_def same fun_eq_iff)
  have "gtree_inv F db ?n = gtree_inv F db t" "empty_inv db ?n = empty_inv db t"
    by (simp_all add: gtree_inv_def empty_inv_def same h st fun_eq_iff)
  then have "tree_inv F db ?n pt" using ok by (cases pt) (simp_all add: tree_inv_def tree_ok_def same h st)
  moreover have "tree_get off F db ?n = tree_get off F db t" "read_flat off F db ?n = read_flat off F db t"
    unfolding tree_get_def read_flat_def same by simp_all
  then have "leaf_inv off F db ?n pt" using ok by (simp add: leaf_inv_def tree_ok_def same h)
  ultimately show ?thesis using ok by (simp add: tree_ok_def same)
qed

definition trees_committed ::
  "nat \<Rightarrow> 'f ext_ops \<Rightarrow> ('db, 'batch, 'e) db_ops \<Rightarrow> bytes set \<Rightarrow> ('f, 'db, 'id) merkle_trees \<Rightarrow> (bytes \<Rightarrow> 'f trie) \<Rightarrow> bool" where
  "trees_committed off F B Ids ts m \<longleftrightarrow>
     trees_inv off F (kv_get B (ts_db ts)) Ids ts m \<and> dirty_in off ts {} \<and> (\<forall>i. clean (tree_entry ts i)) \<and>
     (\<forall>i \<in> Ids. trees_root_hash F B ts i = Inr (trie_hash F (m i)))"

lemma trees_committed_intro:
  fixes F :: "'f ext_ops" and ts :: "('f, 'db, 'id) merkle_trees" and B :: "('db, 'batch, 'e) db_ops"
  defines "db \<equiv> kv_get B (ts_db ts)"
  assumes inv: "trees_inv off F db Ids ts m" and ids: "prefix_free Ids" and codec: "node_codec F" "felt_codec F"
    and len: "length upss = length (trees ts)" "length es = length (trees ts)"
    and ups: "\<forall>n < length (trees ts). updates_of off F db m (trees ts ! n) (upss ! n) (es ! n)"
    and ts': "trees ts' = es" "ts_max_height ts' = ts_max_height ts"
    and view: "\<And>k. kv_get B (ts_db ts') k = Inr (fold apply_changes upss v (database_key_of k))"
      "\<And>k. db k = Inr (v (database_key_of k))"
  shows "trees_committed off F B Ids ts' m"
proof -
  have wf: "hm_wf (trees ts)" "fst ` set (trees ts) \<subseteq> Ids" using inv by (auto simp: trees_inv_def)
  have keys: "map fst es = map fst (trees ts)" using ups len by (auto simp: list_eq_iff_nth_eq updates_of_def)
  have wf': "hm_wf es" using wf(1) keys by (simp add: hm_wf_def)
  let ?db = "kv_get B (ts_db ts')"
  have total: "db_total ?db" using view(1) by (auto simp: db_total_def)
  have entry: "tree_entry ts (fst (trees ts ! l)) = snd (trees ts ! l)" "tree_entry ts' (fst (trees ts ! l)) = snd (es ! l)"
    if "l < length (trees ts)" for l
  proof -
    have "fst (es ! l) = fst (trees ts ! l)" using keys that len by (metis nth_map)
    then show "tree_entry ts (fst (trees ts ! l)) = snd (trees ts ! l)" "tree_entry ts' (fst (trees ts ! l)) = snd (es ! l)"
      using that tree_entry_nth [OF wf(1)] tree_entry_nth [of ts' l] wf' ts' len by simp_all
  qed
  have apart: "k \<notin> fst ` set (upss ! l)"
    if l: "l < length (trees ts)" and i: "i \<in> Ids" "fst (trees ts ! l) \<noteq> i" "prefix i (as_slice k)" for l i k
  proof -
    have "fst (trees ts ! l) \<in> Ids" using wf(2) l by auto
    moreover from this have "tree_ok off F db (ts_max_height ts) Ids (fst (trees ts ! l)) (snd (trees ts ! l)) (m (fst (trees ts ! l)))"
      using inv entry(1) [OF l] by (auto simp: trees_inv_def)
    ultimately show ?thesis
      using updates_apart [of off F db m _ _ "upss ! l" "es ! l", OF _ _ ids i(1)] ups l i by (metis prod.collapse)
  qed
  have all: "tree_ok off F ?db (ts_max_height ts') Ids i (tree_entry ts' i) (m i) \<and>
      clean (tree_entry ts' i) \<and> trees_root_hash F B ts' i = Inr (trie_hash F (m i))" if i: "i \<in> Ids" for i
  proof (cases "\<exists>n < length (trees ts). fst (trees ts ! n) = i")
    case True
    then obtain n where n: "n < length (trees ts)" "fst (trees ts ! n) = i" by blast
    let ?t' = "snd (es ! n)" and ?ups = "upss ! n"
    have u: "updates_of off F db m (trees ts ! n) ?ups (es ! n)" using ups n(1) by blast
    have ok: "tree_ok off F db (ts_max_height ts) Ids i (snd (trees ts ! n)) (m i)"
      using inv i entry(1) [OF n(1)] n(2) by (auto simp: trees_inv_def)
    have com: "committed (snd (trees ts ! n)) ?t'" and wfu: "hm_wf ?ups" using u by (simp_all add: updates_of_def)
    have "fst (trees ts ! l) \<noteq> i" if "l < length (trees ts)" "l \<noteq> n" for l
      using wf(1) that n by (auto simp: hm_wf_def distinct_conv_nth)
    then have one: "fold apply_changes upss v (database_key_of k) = apply_changes ?ups v (database_key_of k)"
      if "prefix i (as_slice k)" for k
      using apart [OF _ i _ that] n(1) len by (intro fold_apply_one wfu) auto
    have id: "tree_ident ?t' = i" "max_height ?t' = ts_max_height ts'" using com ok ts' by (simp_all add: committed_def tree_ok_def)
    have agree: "agree_on (tree_ident ?t') (db_after ?ups db) ?db"
      unfolding agree_on_def id
      by (auto simp: view one apply_changes_get [OF wfu] db_after_def split: option.split insert_or_remove.split)
    have "tree_inv F ?db ?t' (m i)" "leaf_inv off F ?db ?t' (m i)"
      using u n(2) tree_inv_cong [OF agree total] by (auto simp: updates_of_def)
    moreover have "tree_root_hash F ?db ?t' = Inr (trie_hash F (m i))"
      using u n(2) tree_cong(5) [OF agree, of F] by (auto simp: updates_of_def)
    ultimately show ?thesis
      using id com entry(2) [OF n(1)] n(2) committed_clean [OF com]
      by (simp add: tree_ok_def committed_def trees_root_hash_def)
  next
    case False
    then have no1: "i \<notin> set (map fst (trees ts))" unfolding in_set_conv_nth by (metis length_map nth_map)
    moreover have "i \<notin> set (map fst (trees ts'))" using no1 unfolding ts'(1) keys .
    ultimately have no: "i \<notin> fst ` set (trees ts)" "i \<notin> fst ` set (trees ts')" by simp_all
    then have new: "tree_entry ts i = tree_new i (ts_max_height ts)" "tree_entry ts' i = tree_new i (ts_max_height ts)"
      using ts'(2) by (simp_all add: tree_entry_def hm_get_def map_of_eq_None_iff [THEN iffD2])
    have "fold apply_changes upss v (database_key_of k) = v (database_key_of k)" if "prefix i (as_slice k)" for k
      using apart [OF _ i _ that] False len by (intro fold_apply_none) (metis in_set_conv_nth)
    then have agree: "agree_on i db ?db" by (simp add: agree_on_def view)
    have ok: "tree_ok off F db (ts_max_height ts) Ids i (tree_new i (ts_max_height ts)) (m i)"
      using inv i new(1) by (auto simp: trees_inv_def)
    have "tree_inv F ?db (tree_new i (ts_max_height ts)) (m i)" "leaf_inv off F ?db (tree_new i (ts_max_height ts)) (m i)"
      using tree_inv_cong [of "tree_new i (ts_max_height ts)" db ?db, where F = F and pt = "m i", OF _ total] agree ok
      by (auto simp: tree_ok_def)
    then show ?thesis
      using ok ts'(2) new(2) new_tree_root_hash [OF _ _ codec]
      by (auto simp: tree_ok_def trees_root_hash_def tree_new_sel)
  qed
  then have "trees_inv off F ?db Ids ts' m" using wf wf' arg_cong [OF keys, of set] ts' by (simp add: trees_inv_def)
  moreover have "clean (tree_entry ts' i)" for i
  proof (cases "i \<in> Ids")
    case False
    then have "i \<notin> fst ` set (trees ts')" using wf(2) keys ts'(1) by (metis list.set_map subsetD)
    then show ?thesis by (simp add: tree_entry_def hm_get_def map_of_eq_None_iff [THEN iffD2])
  qed (use all in blast)
  moreover from this have "dirty_in off ts' {}" by (simp add: dirty_in_def clean_def)
  ultimately show ?thesis using all by (simp add: trees_committed_def)
qed

text \<open>A leaf that a commit leaves in the store was there before, or comes from the leaf cache of a tree.\<close>

definition flat_from :: "'e db_view \<Rightarrow> 'e db_view \<Rightarrow> ('f, 'db, 'id) merkle_trees \<Rightarrow> bool" where
  "flat_from db db' ts \<longleftrightarrow> (\<forall>b. db' (Flat b) \<noteq> Inr None \<longrightarrow> db (Flat b) \<noteq> Inr None \<or>
     (\<exists>i \<in> fst ` set (trees ts). \<exists>k \<in> fst ` set (cache_leaf_modified (tree_entry ts i)). b = i @ k))"

lemma commit_flat_from:
  fixes F :: "'f ext_ops" and ts :: "('f, 'db, 'id) merkle_trees" and db :: "'e db_view"
  assumes inv: "trees_inv off F db Ids ts m" and len: "length upss = length (trees ts)"
    and ups: "\<forall>n < length (trees ts). updates_of off F db m (trees ts ! n) (upss ! n) (es ! n)"
    and view: "\<And>k. db' k = Inr (fold apply_changes upss v (database_key_of k))" "\<And>k. db k = Inr (v (database_key_of k))"
  shows "flat_from db db' ts"
  unfolding flat_from_def
proof (intro allI impI)
  fix b assume b: "db' (Flat b) \<noteq> Inr None"
  show "db (Flat b) \<noteq> Inr None \<or>
    (\<exists>i \<in> fst ` set (trees ts). \<exists>k \<in> fst ` set (cache_leaf_modified (tree_entry ts i)). b = i @ k)"
  proof (cases "\<exists>n < length (trees ts). Flat b \<in> fst ` set (upss ! n)")
    case True
    then obtain n where n: "n < length (trees ts)" "Flat b \<in> fst ` set (upss ! n)" by blast
    obtain i t where e: "trees ts ! n = (i, t)" by fastforce
    have entry: "tree_entry ts i = t" using inv tree_entry_nth [of ts n] n(1) e by (simp add: trees_inv_def)
    have i: "i \<in> fst ` set (trees ts)" using nth_mem [OF n(1)] e by force
    then have "tree_inv F db t (m i)" using inv entry by (auto simp: trees_inv_def tree_ok_def)
    then have "Flat b \<notin> set (death_row t)" by (auto simp: tree_inv_def)
    moreover have "updates_of off F db m (i, t) (upss ! n) (es ! n)" using ups n(1) e by metis
    ultimately have "Flat b \<in> (\<lambda>b. Flat (i @ b)) ` fst ` set (cache_leaf_modified t)"
      using n(2) by (auto simp: updates_of_def own_keys_def)
    then show ?thesis using i entry by blast
  next
    case False
    then have "fold apply_changes upss v (database_key_of (Flat b)) = v (database_key_of (Flat b))"
      using len by (intro fold_apply_none) (metis in_set_conv_nth)
    then show ?thesis using b view by simp
  qed
qed

section \<open>The commit\<close>

lemma find_panicked_Inr [simp]: "List.find panicked (map Inr upss) = None"
  by (induction upss) simp_all

context batch_database
begin

lemma trees_commit_ok:
  fixes F :: "'f ext_ops" and ts :: "('f, 'db, 'i) merkle_trees"
  assumes ok: "ok (kv_db (ts_db ts))" and inv: "trees_inv off F (kv_get B (ts_db ts)) Ids ts m" and ids: "prefix_free Ids"
    and codec: "node_codec F" "felt_codec F"
  shows "\<exists>ts'. trees_commit F B ts = (Inr () :: ('e, unit) outcome, ts') \<and> ok (kv_db (ts_db ts')) \<and>
    ts_max_height ts' = ts_max_height ts \<and> config (ts_db ts') = config (ts_db ts) \<and> trees_committed off F B Ids ts' m \<and>
    flat_from (kv_get B (ts_db ts)) (kv_get B (ts_db ts')) ts"
proof -
  let ?db = "kv_get B (ts_db ts)" and ?kv = "ts_db ts"
  have each: "\<forall>(i, t) \<in> set (trees ts). tree_ident t = i \<and> tree_inv F ?db t (m i) \<and> leaf_inv off F ?db t (m i)"
  proof clarify
    fix i t assume mem: "(i, t) \<in> set (trees ts)"
    then have "i \<in> Ids" "tree_entry ts i = t"
      using inv by (force simp: trees_inv_def, simp add: trees_inv_def tree_entry_def hm_get_def hm_wf_def)
    then show "tree_ident t = i \<and> tree_inv F ?db t (m i) \<and> leaf_inv off F ?db t (m i)"
      using inv by (auto simp: trees_inv_def tree_ok_def)
  qed
  obtain upss es where col: "collect_updates F (trees ts) = (map Inr upss :: ('e, updates) outcome list, es)"
    "length upss = length (trees ts)" "length es = length (trees ts)"
    "\<forall>n < length (trees ts). updates_of off F ?db m (trees ts ! n) (upss ! n) (es ! n)"
    using collect_updates_ok [OF codec each] by blast
  obtain kv1 b1 where w: "write_trees B (map Inr upss) (?kv, Some (create_batch B (kv_db ?kv))) =
      (Inr () :: ('e, unit) outcome, kv1, Some b1)" "ok (kv_db kv1)" "config kv1 = config ?kv"
    "pending (kv_db kv1) b1 = fold apply_changes upss (view (kv_db ?kv))"
    using write_trees_pending [OF ok, of upss "create_batch B (kv_db ?kv)"] create_pending [OF ok] by auto
  obtain db2 where wr: "db_write_batch B (kv_db kv1) b1 = (Inr (), db2)" "ok db2"
    "view db2 = fold apply_changes upss (view (kv_db ?kv))"
    using write_view [OF w(2), of b1] w(4) by auto
  let ?ts' = "ts\<lparr>trees := es, ts_db := kv1\<lparr>kv_db := db2\<rparr>\<rparr>"
  have run: "trees_commit F B ts = (Inr () :: ('e, unit) outcome, ?ts')"
    using col(1) w(1) wr(1) by (simp add: trees_commit_def Let_def kv_write_batch_def db_result_def)
  have view: "kv_get B (ts_db ?ts') k = Inr (fold apply_changes upss (view (kv_db ?kv)) (database_key_of k))"
      "?db k = Inr (view (kv_db ?kv) (database_key_of k))" for k
    using kv_get_view [of "kv1\<lparr>kv_db := db2\<rparr>" k] kv_get_view [OF ok] wr by simp_all
  have "trees_committed off F B Ids ?ts' m" by (rule trees_committed_intro [OF inv ids codec col(2,3,4) _ _ view]) simp_all
  moreover have "flat_from ?db (kv_get B (ts_db ?ts')) ts" by (rule commit_flat_from [OF inv col(2,4) view])
  ultimately show ?thesis using run wr(2) w(3) by (intro exI [of _ ?ts']) simp
qed

end

end
