(* ===== verification/Proof_Walk.thy ===== *)
theory Proof_Walk
  imports Tree_Update Merkle_Proof
begin

text \<open>
  The walk of the iterator with the visitor that collects a proof, from key to key. On a tree
  whose nodes in memory have the right hashes cached, as after a commit, the walk only loads
  nodes, goes on from the last node it shares with the next key, and leaves every node on the way
  to every key in the proof.
\<close>

section \<open>Cached hashes\<close>

text \<open>Every node in memory has the hash of its subtrie cached.\<close>

definition cached :: "(nat \<rightharpoonup> 'f node) \<Rightarrow> nat option \<Rightarrow> 'f \<Rightarrow> bool" where
  "cached ns i h \<longleftrightarrow> (\<forall>k. i = Some k \<longrightarrow> map_option get_hash (ns k) = Some (Some h))"

fun hashed :: "'f ext_ops \<Rightarrow> (nat \<rightharpoonup> 'f node) \<Rightarrow> 'f gtree \<Rightarrow> bool" where
  "hashed F ns (GLeaf v) \<longleftrightarrow> True"
| "hashed F ns (GBin i l r) \<longleftrightarrow> cached ns i (phash F (PBin (erase l) (erase r))) \<and> hashed F ns l \<and> hashed F ns r"
| "hashed F ns (GEdge i q c) \<longleftrightarrow> cached ns i (phash F (PEdge q (erase c))) \<and> hashed F ns c"

lemma cached_simps [simp]:
  "cached ns None h" "cached ns (Some k) h \<longleftrightarrow> map_option get_hash (ns k) = Some (Some h)"
  by (simp_all add: cached_def)

lemma hashed_cong:
  "(\<And>i. i \<in> set (ids g) \<Longrightarrow> map_option get_hash (ns' i) = map_option get_hash (ns i)) \<Longrightarrow> hashed F ns' g = hashed F ns g"
  by (induction g) (auto simp: cached_def id_list_def split: option.splits)

lemma hashed_upd: "k \<notin> set (ids g) \<Longrightarrow> hashed F (ns(k := x)) g = hashed F ns g"
  by (rule hashed_cong) auto

lemma hashed_root: "hashed F ns g \<Longrightarrow> gid g = Some k \<Longrightarrow> map_option get_hash (ns k) = Some (Some (phash F (erase g)))"
  by (cases g) auto

lemma hashed_no_ids: "ids g = [] \<Longrightarrow> hashed F ns g"
  by (induction g) (auto simp: id_list_def split: option.splits)

lemma hashed_fill_sub: "hashed F ns (fill fs g) \<Longrightarrow> hashed F ns g"
  by (induction fs g rule: fill.induct) (auto split: if_splits)

lemma hashed_fill_replace:
  assumes "hashed F ns (fill fs g)" "erase g' = erase g" "hashed F ns' g'"
    and "\<And>i. i \<in> set (fr_ids fs) \<Longrightarrow> map_option get_hash (ns' i) = map_option get_hash (ns i)"
  shows "hashed F ns' (fill fs g')"
  using assms
proof (induction fs)
  case (Cons f fs)
  have e: "erase (fill fs g') = erase (fill fs g)" using Cons.prems(2) by (rule erase_fill_cong)
  show ?case
  proof (cases f)
    case (FBin i b s)
    have "hashed F ns' s = hashed F ns s" using Cons.prems(4) FBin by (intro hashed_cong) simp
    then show ?thesis using Cons FBin e by (auto split: if_splits)
  next
    case (FEdge i q)
    then show ?thesis using Cons e by auto
  qed
qed simp

text \<open>Reading the hash of a node finds it, and changes nothing.\<close>

lemma get_cached_hash:
  assumes "rep F (slots t) st p h c" "hashed F (slots t) c"
  shows "get_or_compute_node_hash F (Suc n) h t = (Inr (phash F (erase c)), t)"
proof (cases "gid c")
  case (Some k)
  then obtain x where "h = InMemory k" "slots t k = Some x" "get_hash x = Some (phash F (erase c))"
    using assms hashed_root [OF assms(2) Some] by (cases c) (auto simp: at_handle_def)
  then show ?thesis by (simp add: bindS_def get_node_mut_def sm_get_def)
next
  case None
  then show ?thesis using assms(1) by (cases c) (auto simp: at_handle_def)
qed

section \<open>A tree opened at a node\<close>

text \<open>What a walk leaves as it is, besides the slots and the root.\<close>

definition rest_of :: "'f merkle_tree \<Rightarrow> byte \<times> bytes \<times> trie_key list \<times> (bytes, 'f insert_or_remove) hash_map" where
  "rest_of t = (max_height t, tree_ident t, death_row t, cache_leaf_modified t)"

lemma rest_of_simps [simp]: "rest_of (t\<lparr>nodes := ns\<rparr>) = rest_of t" "rest_of (t\<lparr>root_node := r\<rparr>) = rest_of t"
  by (simp_all add: rest_of_def)

lemma rest_ofD: "rest_of t' = rest_of t \<Longrightarrow> max_height t' = max_height t \<and> height_of t' = height_of t"
  by (simp add: rest_of_def height_of_def)

definition hashed_inv :: "'f ext_ops \<Rightarrow> 'e db_view \<Rightarrow> 'f merkle_tree \<Rightarrow> 'f ptree \<Rightarrow> bool" where
  "hashed_inv F db t pt \<longleftrightarrow> sm_wf (nodes t) \<and> db_total db \<and> 0 < height_of t \<and> set (death_row t) \<subseteq> range Trie \<and>
     (\<exists>h g. erase g = pt \<and> root_matches t h \<and> gtree_inv F db t h g \<and> hashed F (slots t) g)"

definition zipped ::
  "'f ext_ops \<Rightarrow> 'e db_view \<Rightarrow> 'f merkle_tree \<Rightarrow> 'f ptree \<Rightarrow> 'f frame list \<Rightarrow> 'f gtree \<Rightarrow> bool" where
  "zipped F db t pt fs g \<longleftrightarrow>
     sm_wf (nodes t) \<and> db_total db \<and> 0 < height_of t \<and> set (death_row t) \<subseteq> range Trie \<and> erase (fill fs g) = pt \<and>
     (\<exists>r. root_node t = Some (Loaded r) \<and> gtree_inv F db t (InMemory r) (fill fs g)) \<and> hashed F (slots t) (fill fs g)"

lemma hashed_inv_tree: "hashed_inv F db t pt \<Longrightarrow> tree_inv F db t (Some pt)"
  by (auto simp: hashed_inv_def tree_inv_def)

lemma zipped_inv: "zipped F db t pt fs g \<Longrightarrow> hashed_inv F db t pt"
  by (fastforce simp: zipped_def hashed_inv_def root_matches_def)

lemma zipped_append: "zipped F db t pt (fs @ fs') g \<longleftrightarrow> zipped F db t pt fs (fill fs' g)"
  by (simp add: zipped_def)

text \<open>The frame of the last step: its node is in memory and points at the subtrie.\<close>

lemma zipped_rep:
  assumes "zipped F db t pt fs g"
  shows "\<exists>h. rep F (slots t) (stored F db t) (cbits fs) h g" "hashed F (slots t) g"
    "pwf (height_of t - length (cbits fs)) (erase g)" "length (cbits fs) \<le> height_of t"
proof -
  from assms obtain r where inv: "gtree_inv F db t (InMemory r) (fill fs g)" and h: "hashed F (slots t) (fill fs g)"
    by (auto simp: zipped_def)
  then show "\<exists>h. rep F (slots t) (stored F db t) (cbits fs) h g"
    using rep_fill [of F "slots t" "stored F db t" "[]" "InMemory r" fs g] by (auto simp: gtree_inv_def)
  show "hashed F (slots t) g" by (rule hashed_fill_sub [OF h])
  show "pwf (height_of t - length (cbits fs)) (erase g)" "length (cbits fs) \<le> height_of t"
    using inv by (auto simp: gtree_inv_def dest: pwf_fill_sub pwf_fill_length)
qed

text \<open>The node itself.\<close>

lemma zipped_node:
  assumes "zipped F db t pt fs g" "gid g = Some k"
  obtains n where "slots t k = Some n" "repn F (slots t) (stored F db t) (cbits fs) n g"
    "get_hash n = Some (phash F (erase g))"
proof -
  have nl: "g \<noteq> GLeaf v" for v using assms(2) by auto
  obtain h where "rep F (slots t) (stored F db t) (cbits fs) h g" using zipped_rep(1) [OF assms(1)] by blast
  then obtain n where n: "at_handle (slots t) (stored F db t) (cbits fs) h (gid g) (phash F (erase g)) n"
    "repn F (slots t) (stored F db t) (cbits fs) n g"
    using rep_repn [OF nl] by blast
  then have "slots t k = Some n" using assms(2) by (simp add: at_handle_def)
  then show thesis
    using that n(2) hashed_root [OF zipped_rep(2) [OF assms(1)] assms(2)] by simp
qed

text \<open>The visitor adds the node to the proof, as the trie has it.\<close>

lemma proof_visitor_adds:
  assumes z: "zipped F db t pt fs g" and k: "gid g = Some k"
  shows "proof_visitor F (Suc fuel) k h (v, t) = (Inr (), hm_insert (phash F (erase g)) (pnode F (erase g)) v, t)"
proof -
  obtain n where n: "slots t k = Some n" "repn F (slots t) (stored F db t) (cbits fs) n g"
    "get_hash n = Some (phash F (erase g))" by (rule zipped_node [OF z k])
  note hashed = zipped_rep(2) [OF z]
  show ?thesis
    using n hashed
    by (cases g) (auto simp: proof_visitor_def bindS_def get_node_mut_def sm_get_def get_cached_hash retS_def)
qed

section \<open>Loading the next node\<close>

lemma get_hash_set_step [simp]: "get_hash (set_step x h n) = get_hash n"
  by (cases n) (auto simp: set_child_def split: Trie_Path.direction.split)

lemma frep_step:
  assumes "frep F ns st p h f hc" "ns (fid f) = Some n" "ns' (fid f) = Some (set_step (last (fbits f)) h' n)"
    and "\<And>i. i \<in> set (fsib_ids f) \<Longrightarrow> ns' i = ns i"
  shows "frep F ns' st p h f h'"
proof (cases f)
  case (FBin i b s)
  then have "rep F ns' st q hs s = rep F ns st q hs s" for q hs
    using assms(4) by (intro rep_cong) auto
  then show ?thesis
    using assms(1-3) FBin by (cases b) (auto simp: set_child_def direction_of_bool_def)
qed (use assms in auto)

lemma zipped_frame:
  assumes z: "zipped F db t pt fs (fill [f] c)"
  obtains n hc where "slots t (fid f) = Some n" "frep F (slots t) (stored F db t) (cbits fs) (InMemory (fid f)) f hc"
    "rep F (slots t) (stored F db t) (cbits (fs @ [f])) hc c"
proof -
  obtain h hc where "frep F (slots t) (stored F db t) (cbits fs) h f hc"
    "rep F (slots t) (stored F db t) (cbits (fs @ [f])) hc c"
    using zipped_rep(1) [OF z] unfolding rep_fill by auto
  then show thesis using that by (cases f) auto
qed

text \<open>The slots of a tree opened below a frame: those of the frames, of the sibling and of the child.\<close>

lemma frame_ids:
  assumes inv: "gtree_inv F db t h (fill fs (fill [f] c))" and nl: "\<And>v. c \<noteq> GLeaf v"
    and k': "gid c = Some k' \<or> (gid c = None \<and> slots t k' = None)"
  shows "dom (slots t) = set (fr_ids fs) \<union> insert (fid f) (set (fsib_ids f) \<union> set (ids c))"
    "set (fr_ids fs) \<inter> insert (fid f) (set (fsib_ids f) \<union> set (ids c)) = {}"
    "distinct (fid f # fsib_ids f)" "distinct (ids c)" "set (fid f # fsib_ids f) \<inter> set (ids c) = {}"
    "k' \<notin> set (fr_ids fs)" "k' \<noteq> fid f" "k' \<notin> set (fsib_ids f)" "k' \<notin> set (sub_ids c)"
proof -
  note inv' = inv [unfolded gtree_inv_def]
  have idg: "set (ids (fill [f] x)) = insert (fid f) (set (fsib_ids f) \<union> set (ids x))" for x
    by (simp add: set_ids_fr)
  show dom: "dom (slots t) = set (fr_ids fs) \<union> insert (fid f) (set (fsib_ids f) \<union> set (ids c))"
    using inv' set_ids_fr [of fs "fill [f] c"] unfolding idg by auto
  have "distinct (ids (fill fs (fill [f] c)))" using inv' by blast
  then have dist: "distinct (ids (fill [f] c))"
    and sep: "set (fr_ids fs) \<inter> insert (fid f) (set (fsib_ids f) \<union> set (ids c)) = {}"
    unfolding distinct_ids_fr [of fs] idg by blast+
  show "set (fr_ids fs) \<inter> insert (fid f) (set (fsib_ids f) \<union> set (ids c)) = {}" by (rule sep)
  have "distinct (fid f # fsib_ids f) \<and> distinct (ids c) \<and> set (fid f # fsib_ids f) \<inter> set (ids c) = {}"
    using dist unfolding distinct_ids_fr by (simp add: fr_ids_def)
  then show dist': "distinct (fid f # fsib_ids f)" "distinct (ids c)" "set (fid f # fsib_ids f) \<inter> set (ids c) = {}" by blast+
  have "ids c = id_list (gid c) @ sub_ids c" by (rule ids_split [OF nl])
  then show "k' \<notin> set (fr_ids fs)" "k' \<noteq> fid f" "k' \<notin> set (fsib_ids f)" "k' \<notin> set (sub_ids c)"
    using k' sep dist' dom by auto
qed

text \<open>
  The slots after a child was loaded: the child has its slot and its hash, the node of the frame
  points at it.
\<close>

definition child_loaded ::
  "(nat \<rightharpoonup> 'f node) \<Rightarrow> 'f frame \<Rightarrow> 'f node \<Rightarrow> nat \<Rightarrow> 'f node \<Rightarrow> (nat \<rightharpoonup> 'f node) \<Rightarrow> bool" where
  "child_loaded ns f n k' n' ns' \<longleftrightarrow>
     ns (fid f) = Some n \<and> ns' = ns(k' \<mapsto> n', fid f \<mapsto> set_step (last (fbits f)) (InMemory k') n)"

lemma child_loaded_simps:
  assumes "child_loaded ns f n k' n' ns'"
  shows "i \<noteq> k' \<Longrightarrow> i \<noteq> fid f \<Longrightarrow> ns' i = ns i" "k' \<noteq> fid f \<Longrightarrow> ns' k' = Some n'"
    "i \<noteq> k' \<Longrightarrow> map_option get_hash (ns' i) = map_option get_hash (ns i)"
  using assms by (auto simp: child_loaded_def)

lemma child_loaded_hashed:
  assumes ns: "child_loaded ns f n k' n' ns'" and hash: "get_hash n' = Some (phash F (erase c))"
    and h: "hashed F ns (fill fs (fill [f] c))" and nl: "\<And>v. c \<noteq> GLeaf v"
    and fresh: "k' \<notin> set (fr_ids fs)" "k' \<noteq> fid f" "k' \<notin> set (fsib_ids f)" "k' \<notin> set (sub_ids c)"
  shows "hashed F ns' (fill fs (fill [f] (set_gid k' c)))"
proof -
  note same = child_loaded_simps(3) [OF ns]
  have "hashed F ns c" by (rule hashed_fill_sub [of F _ "fs @ [f]"]) (use h in simp)
  moreover have "cached ns' (Some k') (phash F (erase c))" using child_loaded_simps(2) [OF ns] fresh hash by simp
  moreover have "hashed F ns' x = hashed F ns x" if "set (ids x) \<subseteq> set (sub_ids c)" for x
    using that fresh by (intro hashed_cong same) auto
  ultimately have "hashed F ns' (set_gid k' c)" using nl by (cases c) auto
  then have "hashed F ns' (fill (fs @ [f]) (set_gid k' c))"
  proof (rule hashed_fill_replace [of F ns _ c, rotated 2])
    show "map_option get_hash (ns' i) = map_option get_hash (ns i)" if "i \<in> set (fr_ids (fs @ [f]))" for i
      using that fresh by (intro same) auto
  qed (use h in simp_all)
  then show ?thesis by simp
qed

lemma child_loaded_rep:
  assumes ns: "child_loaded ns f n k' n' ns'" and frep: "frep F ns st p (InMemory (fid f)) f hc"
    and repn: "repn F ns st (p @ fbits f) n' c"
    and ids: "fid f \<notin> set (fsib_ids f)" "fid f \<notin> set (ids c)" "k' \<noteq> fid f" "k' \<notin> set (fsib_ids f)" "k' \<notin> set (sub_ids c)"
  shows "rep F ns' st p (InMemory (fid f)) (fill [f] (set_gid k' c))"
proof -
  have nl: "c \<noteq> GLeaf v" for v using repn by auto
  have "repn F ns' st (p @ fbits f) n' (set_gid k' c)"
    using repn ids ids_split [OF nl] ns by (simp add: child_loaded_def)
  moreover have "gid (set_gid k' c) = Some k'" "set_gid k' c \<noteq> GLeaf v" for v using nl by (cases c; auto)+
  ultimately have "rep F ns' st (p @ fbits f) (InMemory k') (set_gid k' c)"
    using rep_repn [of "set_gid k' c"] child_loaded_simps(2) [OF ns ids(3)] by (auto simp: at_handle_def)
  moreover have "frep F ns' st p (InMemory (fid f)) f (InMemory k')"
    by (rule frep_step [OF frep]) (use ns ids in \<open>auto simp: child_loaded_def\<close>)
  ultimately show ?thesis unfolding rep_fill by auto
qed

lemma zipped_loaded:
  assumes z: "zipped F db t pt fs (fill [f] c)"
    and frep: "frep F (slots t) (stored F db t) (cbits fs) (InMemory (fid f)) f hc"
    and repn: "repn F (slots t) (stored F db t) (cbits (fs @ [f])) n' c"
    and slots: "child_loaded (slots t) f n k' n' (sm_slots ns)"
    and wf: "sm_wf ns" and k': "gid c = Some k' \<or> (gid c = None \<and> slots t k' = None)"
    and hash: "get_hash n' = Some (phash F (erase c))"
  shows "zipped F db (t\<lparr>nodes := ns\<rparr>) pt (fs @ [f]) (set_gid k' c)"
proof -
  let ?t = "t\<lparr>nodes := ns\<rparr>" and ?g = "fill [f] c" and ?g' = "fill [f] (set_gid k' c)"
  from z obtain r where r: "root_node t = Some (Loaded r)" "gtree_inv F db t (InMemory r) (fill fs ?g)"
    and h: "hashed F (slots t) (fill fs ?g)" and e: "erase (fill fs ?g) = pt" by (auto simp: zipped_def)
  have nl: "c \<noteq> GLeaf v" for v using repn by auto
  note ids = frame_ids [OF r(2) nl k']
  have ids_c: "ids c = id_list (gid c) @ sub_ids c" "ids (set_gid k' c) = k' # sub_ids c"
    using nl by (cases c; auto)+
  have idg: "set (ids ?g') = insert (fid f) (set (fsib_ids f) \<union> insert k' (set (sub_ids c)))"
    by (auto simp: set_ids_fr ids_c)
  have eg: "erase ?g' = erase ?g" using erase_fill_cong [of "set_gid k' c" c "[f]"] by simp
  have "gtree_inv F db ?t (InMemory r) (fill fs ?g')"
  proof (rule gtree_inv_replace [OF r(2) fill_Cons_gid])
    show "rep F (slots ?t) (stored F db ?t) (cbits fs) (InMemory (fid f)) ?g'"
      using child_loaded_rep [OF slots frep _ _ _ ids(7,8,9)] repn ids(3,5) by simp
    show "distinct (ids ?g')" using ids(3-9) ids_c by (auto simp: distinct_ids_fr fr_ids_def)
    show "set (ids ?g') \<inter> set (fr_ids fs) = {}" using ids(2,6) ids_c unfolding idg by auto
    show "dom (slots ?t) = set (fr_ids fs) \<union> set (ids ?g')"
      using ids(1) k' ids_c slots unfolding idg by (auto simp: child_loaded_def)
    show "pwf (height_of t - length (cbits fs)) (erase ?g')" using zipped_rep(3) [OF z] eg by simp
    show "\<not> ends_edge fs" if "is_edge (erase ?g')"
      by (rule pwf_not_ends_edge [of "height_of t" fs ?g]) (use r(2) that eg in \<open>auto simp: gtree_inv_def\<close>)
    show "slots ?t i = slots t i" if "i \<in> set (fr_ids fs)" for i
      using that ids(2,6) child_loaded_simps(1) [OF slots, of i] by auto
    show "absent db ?t q" if "q \<in> gpos (cbits fs) ?g - gpos (cbits fs) ?g'" for q
      using that gpos_fill_diff [of "cbits fs" "[f]" c "set_gid k' c"] by auto
  qed auto
  moreover have "hashed F (sm_slots ns) (fill fs ?g')" by (rule child_loaded_hashed [OF slots hash h nl ids(6-9)])
  ultimately show ?thesis
    using z wf e eg r(1) erase_fill_cong [OF eg, of fs] by (simp add: zipped_def height_of_def)
qed

section \<open>One step\<close>

text \<open>At a node, the walk towards a key ends or takes the step of a frame.\<close>

lemma stuck_or_step:
  assumes "pwf (length kk) (erase g)" "gid g = Some k" "kk \<noteq> []"
  obtains "stuck g kk" | f c kk' where "g = fill [f] c" "fid f = k" "kk = fbits f @ kk'" "kk' \<noteq> []" "\<And>v. c \<noteq> GLeaf v"
proof (cases g)
  case (GBin i l r)
  obtain x kk' where kk: "kk = x # kk'" using assms(3) by (cases kk) auto
  let ?c = "if x then r else l"
  have wf: "pwf (length kk') (erase ?c)" using assms(1) GBin kk by auto
  show thesis
  proof (cases "kk' = []")
    case True
    then obtain v where "?c = GLeaf v" using wf by (cases ?c) auto
    then show thesis using that(1) GBin kk True by auto
  next
    case False
    then have "?c \<noteq> GLeaf v" for v using wf by (cases ?c) auto
    then show thesis
      using that(2) [of "FBin k x (if x then l else r)" ?c kk'] GBin kk False assms(2) by simp
  qed
next
  case (GEdge i q c)
  show thesis
  proof (cases "prefix q kk \<and> kk \<noteq> q")
    case True
    then obtain kk' where kk: "kk = q @ kk'" "kk' \<noteq> []" by (auto elim: prefixE)
    then have "c \<noteq> GLeaf v" for v using assms(1) GEdge by auto
    then show thesis using that(2) [of "FEdge k q" c kk'] GEdge kk assms(2) by simp
  next
    case False
    moreover have "\<exists>v. c = GLeaf v" if "kk = q" using assms(1) GEdge that by (cases c) auto
    ultimately show thesis using that(1) GEdge by auto
  qed
qed (use assms in auto)

lemma fbits_nonempty: "pwf n (erase (fill [f] c)) \<Longrightarrow> fbits f \<noteq> []"
  by (cases f) auto

text \<open>The step down: the child is in memory afterwards, and the tree is opened at it.\<close>

lemma pick_frame:
  fixes it :: "'f merkle_iter"
  assumes "frep F ns st p h f hc" "ns (fid f) = Some n" "current_path it = p" "key = p @ fbits f @ kk"
  shows "traverse_pick n (length p) key it =
    (Inr (hc, True) :: ('e, 'f node_handle \<times> bool) outcome, it\<lparr>current_path := p @ fbits f\<rparr>)"
proof (cases f)
  case (FBin i b s)
  then obtain bn where "n = Binary bn" "hc = (if b then b_right bn else b_left bn)" using assms(1,2) by auto
  then show ?thesis using pick_binary [of it key bn "length p"] assms(3,4) FBin by simp
next
  case (FEdge i q)
  then obtain e where "n = Edge e" "hc = e_child e" "e_height e = length p" "e_path e = q" using assms(1,2) by auto
  then show ?thesis using pick_edge [of e "length p" p "q @ kk" it] assms(3,4) FEdge by simp
qed

lemma traverse_one_down:
  fixes it :: "'f merkle_iter"
  assumes z: "zipped F db (it_tree it) pt fs (fill [f] c)" and p: "current_path it = cbits fs"
    and key: "key = cbits fs @ fbits f @ kk" "kk \<noteq> []" and nl: "\<And>v. c \<noteq> GLeaf v"
  obtains k' t' where "traverse_one F db (fid f) (length (cbits fs)) key it =
      (Inr (Some k'), it\<lparr>current_nodes_heights := current_nodes_heights it @ [(fid f, length (cbits fs))],
         current_path := cbits (fs @ [f]), it_tree := t'\<rparr>)"
    "zipped F db t' pt (fs @ [f]) (set_gid k' c)" "gid (set_gid k' c) = Some k'" "rest_of t' = rest_of (it_tree it)"
proof -
  let ?t = "it_tree it" and ?p = "cbits fs @ fbits f"
  obtain n hc where n: "slots ?t (fid f) = Some n"
    and frep: "frep F (slots ?t) (stored F db ?t) (cbits fs) (InMemory (fid f)) f hc"
    and rep: "rep F (slots ?t) (stored F db ?t) (cbits (fs @ [f])) hc c"
    by (rule zipped_frame [OF z])
  have wf: "sm_wf (nodes ?t)" using z by (simp add: zipped_def)
  obtain k' n' ns where load: "load_node_handle F db hc (cbits (fs @ [f])) ?t = (Inr k', ?t\<lparr>nodes := ns\<rparr>)"
    and ns: "sm_slots ns = (slots ?t)(k' \<mapsto> n')" "sm_wf ns"
    and repn: "repn F (slots ?t) (stored F db ?t) (cbits (fs @ [f])) n' c"
    and k': "gid c = Some k' \<and> slots ?t k' = Some n' \<or>
      gid c = None \<and> k' = sm_next (nodes ?t) \<and> get_hash n' = Some (phash F (erase c))"
    by (rule load_child [OF rep nl wf])
  have "hashed F (slots ?t) c" using z hashed_fill_sub [of F _ "fs @ [f]" c] by (simp add: zipped_def)
  then have hash: "get_hash n' = Some (phash F (erase c))" using k' hashed_root [of F "slots ?t" c k'] by auto
  have fresh: "gid c = None \<Longrightarrow> slots ?t k' = None" using k' wf by (auto simp: sm_wf_def)
  have ne: "k' \<noteq> fid f"
  proof -
    have "distinct (ids (fill [f] c))" using z distinct_ids_fill_sub by (auto simp: zipped_def gtree_inv_def)
    moreover have "k' \<in> set (ids c)" if "gid c = Some k'" using that by (cases c) auto
    ultimately show ?thesis using k' fresh n by (auto simp: distinct_ids_fr simp del: fill.simps)
  qed
  have q: "fbits f \<noteq> []" by (rule fbits_nonempty [OF zipped_rep(3) [OF z]])
  let ?n = "set_step (last (fbits f)) (InMemory k') n"
  have "traverse_one F db (fid f) (length (cbits fs)) key it =
    (Inr (Some k'), it\<lparr>current_nodes_heights := current_nodes_heights it @ [(fid f, length (cbits fs))], current_path := ?p,
       it_tree := ?t\<lparr>nodes := sm_set (fid f) (set_step (last ?p) (InMemory k') n) ns\<rparr>\<rparr>)"
    by (rule traverse_one_descend [OF n pick_frame [OF frep n _ key(1)]])
      (use p key q load ns ne in auto)
  moreover have "zipped F db (?t\<lparr>nodes := sm_set (fid f) ?n ns\<rparr>) pt (fs @ [f]) (set_gid k' c)"
  proof (rule zipped_loaded [OF z frep repn])
    show "sm_wf (sm_set (fid f) ?n ns)" using ns n by (auto simp: sm_wf_def)
  qed (use ns n k' fresh hash in \<open>auto simp: child_loaded_def\<close>)
  moreover have "gid (set_gid k' c) = Some k'" using nl by (cases c) auto
  ultimately show thesis using q that by simp
qed

text \<open>The step that ends the walk.\<close>

lemma traverse_one_end:
  fixes it :: "'f merkle_iter" and db :: "'e db_view"
  assumes z: "zipped F db (it_tree it) pt fs g" and k: "gid g = Some k" and p: "current_path it = cbits fs"
    and key: "key = cbits fs @ kk" "length key = height_of (it_tree it)" and stuck: "stuck g kk"
  obtains cp lh where "traverse_one F db k (length (cbits fs)) key it =
      (Inr None, it\<lparr>current_nodes_heights := current_nodes_heights it @ [(k, length (cbits fs))],
         current_path := cp, leaf_hash := lh\<rparr>)"
    "prefix (cbits fs) cp" "length (cbits fs) < length cp"
proof -
  let ?t = "it_tree it"
  obtain n where n: "slots ?t k = Some n" "repn F (slots ?t) (stored F db ?t) (cbits fs) n g"
    by (rule zipped_node [OF z k])
  let ?it = "it\<lparr>current_nodes_heights := current_nodes_heights it @ [(k, length (cbits fs))]\<rparr>"
  have "length kk = height_of ?t - length (cbits fs)" using key by simp
  then have wf: "pwf (length kk) (erase g)" using zipped_rep(3) [OF z] by simp
  obtain hc m q where pick: "traverse_pick n (length (cbits fs)) key ?it =
      (Inr (hc, m) :: ('e, 'f node_handle \<times> bool) outcome, ?it\<lparr>current_path := cbits fs @ q\<rparr>)"
    and stop: "\<not> m \<or> length key \<le> length (cbits fs @ q)" and q: "q \<noteq> []"
  proof (cases g)
    case (GBin i l r)
    then obtain b bn where "kk = [b]" "n = Binary bn" using stuck n(2) by auto
    then show thesis
      using p key(1) by (intro that [of "if b then b_right bn else b_left bn" True "[b]"]) (simp_all add: pick_binary)
  next
    case (GEdge i q c)
    then obtain e where e: "n = Edge e" "e_height e = length (cbits fs)" "e_path e = q" using n(2) by auto
    have "q \<noteq> []" "length q \<le> length kk" using wf GEdge by auto
    moreover from this have "traverse_pick n (length (cbits fs)) key ?it =
        (Inr (e_child e, prefix q kk) :: ('e, 'f node_handle \<times> bool) outcome, ?it\<lparr>current_path := cbits fs @ q\<rparr>)"
      using pick_edge [of e "length (cbits fs)" "cbits fs" kk ?it] e p key(1) by simp
    ultimately show thesis using that [of "e_child e" "prefix q kk" q] stuck GEdge key(1) by auto
  qed (use k in simp)
  show thesis
    using traverse_one_stop [OF n(1) pick stop refl p, of F db] q by (auto intro: that)
qed

end
