(* ===== verification/Proof_Complete.thy ===== *)
theory Proof_Complete
  imports Proof_Walk
begin

text \<open>
  Proofs are complete: from key to key the walk leaves every node on the way to a key in the
  proof, and the verifier, started with the root hash of the trie, accepts every key that the
  proof was asked for with its value, or zero where the trie has none.
\<close>

section \<open>What a proof shows\<close>

text \<open>
  The node of a subtrie is in the proof; the nodes on the way to a key are; a proof has nothing
  but nodes of the trie.
\<close>

definition seen :: "'f ext_ops \<Rightarrow> 'f multi_proof \<Rightarrow> 'f ptree \<Rightarrow> bool" where
  "seen F v s \<longleftrightarrow> hm_get v (phash F s) \<noteq> None"

fun shown :: "'f ext_ops \<Rightarrow> 'f multi_proof \<Rightarrow> 'f ptree \<Rightarrow> bits \<Rightarrow> bool" where
  "shown F v (PLeaf x) k \<longleftrightarrow> True"
| "shown F v (PBin l r) k \<longleftrightarrow> seen F v (PBin l r) \<and> (case k of [] \<Rightarrow> True | b # k' \<Rightarrow> shown F v (if b then r else l) k')"
| "shown F v (PEdge q c) k \<longleftrightarrow> seen F v (PEdge q c) \<and> (prefix q k \<longrightarrow> shown F v c (drop (length q) k))"

definition proof_of :: "'f ext_ops \<Rightarrow> 'f ptree \<Rightarrow> 'f multi_proof \<Rightarrow> bool" where
  "proof_of F pt v \<longleftrightarrow> (\<forall>h n. hm_get v h = Some n \<longrightarrow> (\<exists>s \<in> set (psubs pt). h = phash F s \<and> n = pnode F s))"

definition grows :: "'f multi_proof \<Rightarrow> 'f multi_proof \<Rightarrow> bool" where
  "grows v v' \<longleftrightarrow> (\<forall>h. hm_get v h \<noteq> None \<longrightarrow> hm_get v' h \<noteq> None)"

definition fseen :: "'f ext_ops \<Rightarrow> 'f multi_proof \<Rightarrow> 'f frame list \<Rightarrow> 'f gtree \<Rightarrow> bool" where
  "fseen F v fs g \<longleftrightarrow> (\<forall>n \<le> length fs. seen F v (erase (fill (drop n fs) g)))"

lemma grows_refl [simp]: "grows v v" and grows_trans: "grows v v' \<Longrightarrow> grows v' v'' \<Longrightarrow> grows v v''"
  by (auto simp: grows_def)

lemma grows_insert [simp]: "grows v (hm_insert h n v)"
  by (auto simp: grows_def hm_simps)

lemma seen_insert [simp]: "seen F (hm_insert (phash F s) n v) s"
  by (simp add: seen_def hm_simps)

lemma seen_grows: "seen F v s \<Longrightarrow> grows v v' \<Longrightarrow> seen F v' s"
  by (auto simp: seen_def grows_def)

lemma shown_grows: "shown F v s k \<Longrightarrow> grows v v' \<Longrightarrow> shown F v' s k"
  by (induction s arbitrary: k) (auto simp: seen_grows split: list.splits)

lemma proof_of_insert: "proof_of F pt v \<Longrightarrow> s \<in> set (psubs pt) \<Longrightarrow> proof_of F pt (hm_insert (phash F s) (pnode F s) v)"
  by (auto simp: proof_of_def hm_simps split: if_splits)

lemma fseen_step:
  assumes "fseen F v fs (fill [f] c)" "seen F v (erase c')" "erase c' = erase c"
  shows "fseen F v (fs @ [f]) c'"
proof -
  have "seen F v (erase (fill (drop n (fs @ [f])) c'))" if "n \<le> Suc (length fs)" for n
  proof (cases "n \<le> length fs")
    case True
    have "erase (fill (drop n fs @ [f]) c') = erase (fill (drop n fs) (fill [f] c))"
      using erase_fill_cong [OF assms(3), of "drop n fs @ [f]"] by simp
    then show ?thesis using assms(1) True by (auto simp: fseen_def)
  qed (use that assms(2) in auto)
  then show ?thesis by (simp add: fseen_def)
qed

lemma fseen_grows: "fseen F v fs g \<Longrightarrow> grows v v' \<Longrightarrow> fseen F v' fs g"
  by (auto simp: fseen_def intro: seen_grows)

lemma shown_fill: "fseen F v fs g \<Longrightarrow> shown F v (erase g) k \<Longrightarrow> shown F v (erase (fill fs g)) (cbits fs @ k)"
proof (induction fs)
  case (Cons f fs)
  have "fseen F v fs g" unfolding fseen_def
  proof (intro allI impI)
    fix n assume "n \<le> length fs"
    then show "seen F v (erase (fill (drop n fs) g))" using Cons.prems(1) by (auto simp: fseen_def dest: spec [of _ "Suc n"])
  qed
  moreover have "seen F v (erase (fill (f # fs) g))" using Cons.prems(1) by (auto simp: fseen_def dest: spec [of _ 0])
  ultimately show ?case using Cons.IH Cons.prems(2) by (cases f) (auto split: if_splits)
qed simp

lemma shown_stuck: "stuck g k \<Longrightarrow> seen F v (erase g) \<Longrightarrow> shown F v (erase g) k"
  by (cases g) (auto split: if_splits)

lemma psubs_fill:
  assumes "\<And>v. g \<noteq> GLeaf v"
  shows "erase g \<in> set (psubs (erase (fill fs g)))"
proof (induction fs)
  case Nil
  then show ?case using assms by (cases g) auto
next
  case (Cons f fs)
  then show ?case by (cases f) auto
qed

section \<open>From key to key\<close>

text \<open>The nodes that the iterator lists, with their heights.\<close>

fun hts :: "nat \<Rightarrow> 'f frame list \<Rightarrow> (nat \<times> nat) list" where
  "hts n [] = []"
| "hts n (f # fs) = (fid f, n) # hts (n + length (fbits f)) fs"

lemma hts_snoc: "hts n (fs @ [f]) = hts n fs @ [(fid f, n + length (cbits fs))]"
  by (induction fs arbitrary: n) (auto simp: add.assoc)

lemma length_hts [simp]: "length (hts n fs) = length fs"
  by (induction fs arbitrary: n) auto

text \<open>The iterator between two keys: it lists the nodes down to one, all of them in the proof.\<close>

definition settled :: "'f ext_ops \<Rightarrow> 'e db_view \<Rightarrow> 'f ptree \<Rightarrow> 'f multi_proof \<Rightarrow> 'f merkle_iter \<Rightarrow> bool" where
  "settled F db pt v it \<longleftrightarrow>
     (\<exists>fs g k. zipped F db (it_tree it) pt fs g \<and> gid g = Some k \<and> fseen F v fs g \<and>
        current_nodes_heights it = hts 0 fs @ [(k, length (cbits fs))] \<and>
        prefix (cbits fs) (current_path it) \<and> length (cbits fs) < length (current_path it))"

text \<open>What the rest of a walk gives, from a node that was visited.\<close>

definition walks_to ::
  "'f ext_ops \<Rightarrow> 'e db_view \<Rightarrow> 'f ptree \<Rightarrow> bits \<Rightarrow> 'f multi_proof \<Rightarrow> 'f merkle_iter \<Rightarrow>
     ('e, unit) outcome \<times> 'f multi_proof \<times> 'f merkle_iter \<Rightarrow> bool" where
  "walks_to F db pt key v it res \<longleftrightarrow>
     (\<exists>v' it'. res = (Inr (), v', it') \<and> settled F db pt v' it' \<and> proof_of F pt v' \<and> grows v v' \<and>
        shown F v' pt key \<and> rest_of (it_tree it') = rest_of (it_tree it))"

lemma walk_end:
  fixes it :: "'f merkle_iter" and db :: "'e db_view"
  assumes z: "zipped F db (it_tree it) pt fs g" and k: "gid g = Some k" and p: "current_path it = cbits fs"
    and hs: "current_nodes_heights it = hts 0 fs" and key: "key = cbits fs @ kk" "length key = height_of (it_tree it)"
    and v: "fseen F v fs g" "proof_of F pt v" and stuck: "stuck g kk"
  shows "walks_to F db pt key v it (bindS (on_iter (traverse_one F db k (length (cbits fs)) key))
    (traverse_loop F fuel db w key) (v, it))"
proof -
  obtain cp lh where step: "traverse_one F db k (length (cbits fs)) key it =
      (Inr None, it\<lparr>current_nodes_heights := current_nodes_heights it @ [(k, length (cbits fs))],
         current_path := cp, leaf_hash := lh\<rparr>)"
    and cp: "prefix (cbits fs) cp" "length (cbits fs) < length cp"
    by (rule traverse_one_end [OF z k p key stuck])
  let ?it = "it\<lparr>current_nodes_heights := hts 0 fs @ [(k, length (cbits fs))], current_path := cp, leaf_hash := lh\<rparr>"
  have "settled F db pt v ?it" unfolding settled_def
    by (intro exI [of _ fs] exI [of _ g] exI [of _ k]) (use z k v cp in simp)
  moreover have "seen F v (erase g)" using v(1) by (auto simp: fseen_def dest: spec [of _ "length fs"])
  then have "shown F v (erase (fill fs g)) key"
    unfolding key(1) using shown_fill [OF v(1)] shown_stuck [OF stuck] by blast
  then have "shown F v pt key" using z by (simp add: zipped_def)
  ultimately show ?thesis
    using step hs v by (simp add: walks_to_def bindS_def on_iter_def)
qed

lemma walk_on:
  fixes it :: "'f merkle_iter" and db :: "'e db_view"
  shows "zipped F db (it_tree it) pt fs g \<Longrightarrow> gid g = Some k \<Longrightarrow> current_path it = cbits fs \<Longrightarrow>
    current_nodes_heights it = hts 0 fs \<Longrightarrow> key = cbits fs @ kk \<Longrightarrow> kk \<noteq> [] \<Longrightarrow>
    length key = height_of (it_tree it) \<Longrightarrow> length kk \<le> Suc fuel \<Longrightarrow> fseen F v fs g \<Longrightarrow> proof_of F pt v \<Longrightarrow>
    walks_to F db pt key v it (bindS (on_iter (traverse_one F db k (length (cbits fs)) key))
      (traverse_loop F fuel db (proof_visitor F (Suc m)) key) (v, it))"
proof (induction "length kk" arbitrary: fuel it fs g k kk v rule: less_induct)
  case (less kk fuel it fs g k v)
  note z = less.prems(1)
  have "length kk = height_of (it_tree it) - length (cbits fs)" using less.prems(5,7) by simp
  then have "pwf (length kk) (erase g)" using zipped_rep(3) [OF z] by simp
  then consider "stuck g kk" | f c kk' where "g = fill [f] c" "fid f = k" "kk = fbits f @ kk'" "kk' \<noteq> []" "\<And>v. c \<noteq> GLeaf v"
    using stuck_or_step [OF _ less.prems(2,6)] by blast
  then show ?case
  proof cases
    case 1
    then show ?thesis by (rule walk_end [OF less.prems(1-5,7,9,10)])
  next
    case 2
    have key: "key = cbits fs @ fbits f @ kk'" using less.prems(5) 2 by simp
    obtain k' t' where step: "traverse_one F db (fid f) (length (cbits fs)) key it =
        (Inr (Some k'), it\<lparr>current_nodes_heights := current_nodes_heights it @ [(fid f, length (cbits fs))],
           current_path := cbits (fs @ [f]), it_tree := t'\<rparr>)"
      and z': "zipped F db t' pt (fs @ [f]) (set_gid k' c)" "gid (set_gid k' c) = Some k'"
      and h: "rest_of t' = rest_of (it_tree it)"
      by (rule traverse_one_down [OF z [unfolded 2(1)] less.prems(3) key 2(4,5)])
    let ?it = "it\<lparr>current_nodes_heights := hts 0 (fs @ [f]), current_path := cbits (fs @ [f]), it_tree := t'\<rparr>"
    let ?s = "erase c" and ?v = "hm_insert (phash F (erase c)) (pnode F (erase c)) v"
    have q: "length kk' < length kk"
      using fbits_nonempty [OF zipped_rep(3) [OF z [unfolded 2(1)]]] 2(3) by simp
    then have "length kk' \<le> fuel" using less.prems(8) by simp
    then obtain fuel' where fuel: "fuel = Suc fuel'" "length kk' \<le> Suc fuel'" using 2(4) by (cases fuel) auto
    have "erase c \<in> set (psubs pt)"
      using z psubs_fill [OF 2(5), of "fs @ [f]"] 2(1) by (simp add: zipped_def)
    then have v': "proof_of F pt ?v" by (rule proof_of_insert [OF less.prems(10)])
    have "fseen F ?v (fs @ [f]) (set_gid k' c)"
      by (rule fseen_step [OF fseen_grows [OF less.prems(9) [unfolded 2(1)] grows_insert]]) simp_all
    then have "walks_to F db pt key ?v ?it (bindS (on_iter (traverse_one F db k' (length (cbits (fs @ [f]))) key))
        (traverse_loop F fuel' db (proof_visitor F (Suc m)) key) (?v, ?it))"
      using less.prems(7) 2 key q fuel z' v' rest_ofD [OF h]
      by (intro less.hyps [of kk' ?it "fs @ [f]"]) simp_all
    moreover have visit: "proof_visitor F (Suc m) k' h (v, t') = (Inr () :: ('e, unit) outcome, ?v, t')" for h
      using proof_visitor_adds [OF z'] by simp
    have "bindS (on_iter (traverse_one F db k (length (cbits fs)) key))
        (traverse_loop F fuel db (proof_visitor F (Suc m)) key) (v, it) =
      bindS (on_iter (traverse_one F db k' (length (cbits (fs @ [f]))) key))
        (traverse_loop F fuel' db (proof_visitor F (Suc m)) key) (?v, ?it)"
      using step 2(2) less.prems(4) visit by (simp add: bindS_def on_iter_def visit_def fuel(1) hts_snoc)
    ultimately show ?thesis using h grows_trans [OF grows_insert] by (fastforce simp: walks_to_def)
  qed
qed

text \<open>From the root.\<close>

lemma load_root_zipped:
  assumes inv: "hashed_inv F db t pt"
  obtains k g t' where "load_root_node F db t = (Inr (Some k), t')" "zipped F db t' pt [] g" "gid g = Some k"
    "rest_of t' = rest_of t"
proof -
  from inv obtain h g where e: "erase g = pt" and g: "root_matches t h" "gtree_inv F db t h g" "hashed F (slots t) g"
    and wf: "sm_wf (nodes t)" "0 < height_of t" by (auto simp: hashed_inv_def)
  obtain k ns n where load: "load_root_node F db t = (Inr (Some k), t\<lparr>nodes := ns, root_node := Some (Loaded k)\<rparr>)"
    and repn: "repn F (sm_slots ns) (stored F db t) [] n g" and ns: "sm_slots ns = (slots t)(k \<mapsto> n)" "sm_wf ns"
    and ids: "distinct (sub_ids g)" "k \<notin> set (sub_ids g)" "dom (sm_slots ns) = insert k (set (sub_ids g))"
    and k: "gid g = Some k \<and> slots t k = Some n \<or> gid g = None \<and> get_hash n = Some (phash F (erase g))"
    by (rule load_root_node_ghost [OF g(1,2) wf])
  let ?t = "t\<lparr>nodes := ns, root_node := Some (Loaded k)\<rparr>" and ?g = "set_gid k g"
  have nl: "g \<noteq> GLeaf v" for v using repn by auto
  have gk: "gid ?g = Some k" "ids ?g = k # sub_ids g" "?g \<noteq> GLeaf v" for v using nl by (cases g; auto)+
  have "rep F (slots ?t) (stored F db ?t) [] (InMemory k) ?g"
    using rep_repn [OF gk(3)] repn gk(1) ns by (auto simp: at_handle_def)
  then have "gtree_inv F db ?t (InMemory k) ?g"
    using g(2) ids gk(2) by (simp add: gtree_inv_def)
  moreover have "hashed F (slots ?t) ?g"
  proof -
    have "get_hash n = Some (phash F (erase g))" using k hashed_root [OF g(3), of k] by auto
    then show ?thesis using ns(1) ids(2) g(3) by (cases g) (auto simp: hashed_upd)
  qed
  ultimately have "zipped F db ?t pt [] ?g"
    using inv e ns(2) by (simp add: zipped_def hashed_inv_def height_of_def)
  then show thesis by (rule that [OF load]) (use gk in simp_all)
qed

lemma walk_from_root:
  fixes it :: "'f merkle_iter" and db :: "'e db_view"
  assumes inv: "hashed_inv F db (it_tree it) pt" and it: "current_path it = []" "current_nodes_heights it = []"
    and key: "length key = height_of (it_tree it)" "length key \<le> fuel" and v: "proof_of F pt v"
  shows "walks_to F db pt key v it (bindS (on_iter (on_tree (load_root_node F db))) (\<lambda>node_id (v, it).
      case node_id of
        None \<Rightarrow> (Inr (), v, it\<lparr>leaf_hash := None\<rparr>)
      | Some node_id \<Rightarrow> traverse_loop F fuel db (proof_visitor F (Suc m)) key (Some node_id) (v, it)) (v, it))"
proof -
  obtain k g t' where load: "load_root_node F db (it_tree it) = (Inr (Some k) :: ('e, nat option) outcome, t')"
    and z: "zipped F db t' pt [] g" "gid g = Some k" and h: "rest_of t' = rest_of (it_tree it)"
    by (rule load_root_zipped [OF inv])
  have ne: "key \<noteq> []" using inv key(1) by (auto simp: hashed_inv_def)
  then obtain fuel' where fuel: "fuel = Suc fuel'" using key(2) by (cases fuel) auto
  let ?it = "it\<lparr>it_tree := t'\<rparr>" and ?v = "hm_insert (phash F (erase g)) (pnode F (erase g)) v"
  have "pt = erase g" using z(1) by (simp add: zipped_def)
  then have "erase g \<in> set (psubs pt)" using z(2) by (cases g) auto
  then have v': "proof_of F pt ?v" by (rule proof_of_insert [OF v])
  have "walks_to F db pt key ?v ?it (bindS (on_iter (traverse_one F db k (length (cbits ([] :: 'f frame list))) key))
      (traverse_loop F fuel' db (proof_visitor F (Suc m)) key) (?v, ?it))"
    by (rule walk_on [of F db ?it pt "[]" g k key key]) (use z it key fuel ne rest_ofD [OF h] v' in \<open>auto simp: fseen_def\<close>)
  moreover have visit: "proof_visitor F (Suc m) k h (v, t') = (Inr () :: ('e, unit) outcome, ?v, t')" for h
    by (rule proof_visitor_adds [OF z])
  ultimately show ?thesis
    using load it h grows_trans [OF grows_insert]
    by (fastforce simp: walks_to_def bindS_def on_iter_def on_tree_def visit_def fuel)
qed

text \<open>The nodes kept for the next key are those of the first frames.\<close>

lemma hts_prefix:
  assumes "n \<le> length fs" "gid g = Some k"
  shows "take n (hts m fs @ [(k, m + length (cbits fs))]) = hts m (take n fs)"
    "(hts m fs @ [(k, m + length (cbits fs))]) ! n = (the (gid (fill (drop n fs) g)), m + length (cbits (take n fs)))"
  using assms(1)
proof (induction fs arbitrary: n m)
  case (Cons f fs)
  { case 1 then show ?case using Cons.IH(1) [of "n - 1" "m + length (fbits f)"] by (cases n) (auto simp: add.assoc) }
  { case 2 then show ?case
      using Cons.IH(2) [of "n - 1" "m + length (fbits f)"] fill_Cons_gid [of f fs g] by (cases n) (auto simp: add.assoc simp del: fill_Cons_gid) }
qed (use assms(2) in simp_all)

lemma fseen_prefix:
  assumes "fseen F v fs g" "n \<le> length fs"
  shows "fseen F v (take n fs) (fill (drop n fs) g)"
proof -
  have "fill (drop i (take n fs)) (fill (drop n fs) g) = fill (drop i fs) g" if "i \<le> n" for i
  proof -
    have "drop i (take n fs) @ drop n fs = drop i fs"
      using that assms(2) append_take_drop_id [of "n - i" "drop i fs"] by (simp add: drop_take)
    then show ?thesis by (metis fill_append)
  qed
  then show ?thesis using assms by (auto simp: fseen_def)
qed

lemma zipped_prefix: "zipped F db t pt fs g \<Longrightarrow> zipped F db t pt (take n fs) (fill (drop n fs) g)"
  using zipped_append [of F db t pt "take n fs" "drop n fs" g] by simp

text \<open>The node that the walk to the next key goes on from.\<close>

lemma kept_node:
  assumes it: "settled F db pt v it" and kept: "takeWhile (\<lambda>(_, height). height < common_len (current_path it) key) (current_nodes_heights it) = kept"
      "kept \<noteq> []"
  obtains fs g k where "zipped F db (it_tree it) pt fs g" "gid g = Some k" "fseen F v fs g"
    "last kept = (k, length (cbits fs))" "butlast kept = hts 0 fs" "cbits fs = take (length (cbits fs)) (current_path it)"
    "cbits fs = take (length (cbits fs)) key" "length (cbits fs) < length key"
proof -
  let ?cp = "current_path it" and ?m = "common_len (current_path it) key"
  from it obtain fs g k where z: "zipped F db (it_tree it) pt fs g" "gid g = Some k" "fseen F v fs g"
    and hs: "current_nodes_heights it = hts 0 fs @ [(k, length (cbits fs))]" and cp: "prefix (cbits fs) ?cp"
    by (auto simp: settled_def)
  define n where "n = length kept - 1"
  have kept': "kept = take (Suc n) (current_nodes_heights it)"
    using kept takeWhile_eq_take [of _ "current_nodes_heights it"] by (auto simp: n_def)
  have "length kept \<le> length (current_nodes_heights it)" unfolding kept(1) [symmetric] by (rule length_takeWhile_le)
  then have len: "n \<le> length fs" "length kept = Suc n"
    using kept(2) hs by (auto simp: n_def)
  let ?fs = "take n fs" and ?g = "fill (drop n fs) g"
  have gk: "gid ?g = Some (the (gid ?g))" using z(2) by (cases "drop n fs"; cases "hd (drop n fs)") auto
  have last: "last kept = current_nodes_heights it ! n"
    by (metis last_conv_nth kept(2) len(2) diff_Suc_1 kept' nth_take lessI)
  then have l: "last kept = (the (gid ?g), length (cbits ?fs))"
    using hts_prefix(2) [OF len(1) z(2), of 0] hs by simp
  have "butlast kept = take n (current_nodes_heights it)"
    unfolding kept' by (subst butlast_take) (use len(1) hs in simp_all)
  then have b: "butlast kept = hts 0 ?fs" using hts_prefix(1) [OF len(1) z(2), of 0] hs by simp
  have "last kept \<in> set kept" using kept(2) by simp
  then have lt: "length (cbits ?fs) < ?m" using l kept(1) by (auto dest: set_takeWhileD)
  have "prefix (cbits ?fs) (cbits fs)" using cbits_append [of ?fs "drop n fs"] by (simp add: prefix_def)
  then have p: "cbits ?fs = take (length (cbits ?fs)) ?cp" using cp by (metis prefix_order.trans prefix_take_iff)
  have "take (length (cbits ?fs)) ?cp = take (length (cbits ?fs)) key"
    using common_len_take [of ?cp key] lt by (metis less_imp_le take_take min.absorb1)
  then show thesis
    using that [OF zipped_prefix [OF z(1)] gk fseen_prefix [OF z(3) len(1)] l b p] p lt common_len_le(2) [of ?cp key] by simp
qed

lemma traverse_to_kept:
  assumes "key \<noteq> []"
    and kept: "takeWhile (\<lambda>(_, height). height < common_len (current_path it) key) (current_nodes_heights it) = kept"
  shows "traverse_to F fuel db w key (v, it) =
    (if kept \<noteq> []
     then bindS (on_iter (traverse_one F db (fst (last kept)) (snd (last kept)) key)) (traverse_loop F fuel db w key)
       (v, it\<lparr>current_nodes_heights := butlast kept, current_path := take (snd (last kept)) (take (length key) (current_path it))\<rparr>)
     else bindS (on_iter (on_tree (load_root_node F db))) (\<lambda>node_id (v, it).
       case node_id of
         None \<Rightarrow> (Inr (), v, it\<lparr>leaf_hash := None\<rparr>)
       | Some node_id \<Rightarrow> traverse_loop F fuel db w key (Some node_id) (v, it))
       (v, it\<lparr>current_nodes_heights := [], current_path := []\<rparr>))"
proof -
  have "take (if common_len (current_path it) key = 0 then 0
      else partition_point (current_nodes_heights it) (common_len (current_path it) key)) (current_nodes_heights it) = kept"
    unfolding kept [symmetric]
    by (cases "current_nodes_heights it") (auto simp: partition_point_def takeWhile_eq_take [symmetric])
  then show ?thesis using assms(1) by (simp add: traverse_to_def Let_def case_prod_beta del: take_eq_Nil take_eq_Nil2)
qed

lemma walk_next:
  fixes it :: "'f merkle_iter" and db :: "'e db_view"
  assumes st: "current_nodes_heights it = [] \<and> hashed_inv F db (it_tree it) pt \<or> settled F db pt v it"
    and key: "length key = height_of (it_tree it)" "length key \<le> fuel" and v: "proof_of F pt v"
  shows "walks_to F db pt key v it (traverse_to F fuel db (proof_visitor F (Suc m)) key (v, it))"
proof -
  let ?cp = "current_path it"
  let ?kept = "takeWhile (\<lambda>(_, height). height < common_len ?cp key) (current_nodes_heights it)"
  have inv: "hashed_inv F db (it_tree it) pt" using st by (auto simp: settled_def dest: zipped_inv)
  have ne: "key \<noteq> []" using inv key(1) by (auto simp: hashed_inv_def)
  show ?thesis
  proof (cases "?kept = []")
    case True
    let ?it = "it\<lparr>current_nodes_heights := [], current_path := []\<rparr>"
    have "walks_to F db pt key v ?it (bindS (on_iter (on_tree (load_root_node F db))) (\<lambda>node_id (v, it).
      case node_id of
        None \<Rightarrow> (Inr (), v, it\<lparr>leaf_hash := None\<rparr>)
      | Some node_id \<Rightarrow> traverse_loop F fuel db (proof_visitor F (Suc m)) key (Some node_id) (v, it)) (v, ?it))"
      by (rule walk_from_root) (use inv key v in simp_all)
    then show ?thesis using True by (simp add: traverse_to_kept [OF ne refl] walks_to_def)
  next
    case False
    then have "settled F db pt v it" using st by auto
    then obtain fs g k where z: "zipped F db (it_tree it) pt fs g" "gid g = Some k" "fseen F v fs g"
      and l: "last ?kept = (k, length (cbits fs))" "butlast ?kept = hts 0 fs"
      and p: "cbits fs = take (length (cbits fs)) ?cp" "cbits fs = take (length (cbits fs)) key" "length (cbits fs) < length key"
      by (rule kept_node [OF _ refl False])
    let ?it = "it\<lparr>current_nodes_heights := hts 0 fs, current_path := cbits fs\<rparr>"
    have "walks_to F db pt key v ?it (bindS (on_iter (traverse_one F db k (length (cbits fs)) key))
        (traverse_loop F fuel db (proof_visitor F (Suc m)) key) (v, ?it))"
    proof (rule walk_on)
      show "key = cbits fs @ drop (length (cbits fs)) key" using p(2) by (metis append_take_drop_id)
    qed (use z key v p in auto)
    moreover have "take (length (cbits fs)) (take (length key) ?cp) = cbits fs" using p by simp
    ultimately show ?thesis using False l by (simp add: traverse_to_kept [OF ne refl] walks_to_def)
  qed
qed

section \<open>The keys of a proof\<close>

lemma multi_proof_loop_shows:
  fixes it :: "'f merkle_iter" and db :: "'e db_view"
  assumes "current_nodes_heights it = [] \<and> hashed_inv F db (it_tree it) pt \<or> settled F db pt v it"
    and "proof_of F pt v" "max_height (it_tree it) = height" "\<forall>key \<in> set keys. length key = unat height" "unat height \<le> Suc m"
  shows "\<exists>v' it'. multi_proof_loop F (Suc m) db height keys (v, it) = (Inr () :: ('e, unit) outcome, v', it') \<and>
    hashed_inv F db (it_tree it') pt \<and> rest_of (it_tree it') = rest_of (it_tree it) \<and> proof_of F pt v' \<and> grows v v' \<and>
    (\<forall>key \<in> set keys. shown F v' pt key)"
  using assms
proof (induction keys arbitrary: v it)
  case Nil
  then show ?case by (auto simp: settled_def dest: zipped_inv)
next
  case (Cons key keys)
  have "walks_to F db pt key v it (traverse_to F (Suc m) db (proof_visitor F (Suc m)) key (v, it))"
    by (rule walk_next [OF Cons.prems(1)]) (use Cons.prems in \<open>auto simp: height_of_def\<close>)
  then obtain v1 it1 where step: "traverse_to F (Suc m) db (proof_visitor F (Suc m)) key (v, it) = (Inr (), v1, it1)"
    and v1: "settled F db pt v1 it1" "proof_of F pt v1" "grows v v1" "shown F v1 pt key" "rest_of (it_tree it1) = rest_of (it_tree it)"
    by (auto simp: walks_to_def)
  have h1: "max_height (it_tree it1) = height" using rest_ofD [OF v1(5)] Cons.prems(3) by simp
  obtain v' it' where rest: "multi_proof_loop F (Suc m) db height keys (v1, it1) = (Inr () :: ('e, unit) outcome, v', it')"
    "hashed_inv F db (it_tree it') pt" "rest_of (it_tree it') = rest_of (it_tree it1)" "proof_of F pt v'" "grows v1 v'"
    "\<forall>key \<in> set keys. shown F v' pt key"
    using Cons.IH [OF disjI2 [OF v1(1)] v1(2) h1] Cons.prems(4,5) by auto
  have "grows v v'" by (rule grows_trans [OF v1(3) rest(5)])
  moreover have "shown F v' pt key" by (rule shown_grows [OF v1(4) rest(5)])
  ultimately show ?case using step rest v1(5) Cons.prems(4) by (simp add: bindS_def)
qed

section \<open>The verifier accepts\<close>

text \<open>No two nodes of the trie have one hash.\<close>

definition nodes_apart :: "'f ext_ops \<Rightarrow> 'f ptree \<Rightarrow> bool" where
  "nodes_apart F pt \<longleftrightarrow> (\<forall>s \<in> set (psubs pt). \<forall>s' \<in> set (psubs pt). phash F s = phash F s' \<longrightarrow> pnode F s = pnode F s')"

lemma seen_node: "proof_of F pt v \<Longrightarrow> nodes_apart F pt \<Longrightarrow> s \<in> set (psubs pt) \<Longrightarrow> seen F v s \<Longrightarrow>
    hm_get v (phash F s) = Some (pnode F s)"
  unfolding proof_of_def seen_def nodes_apart_def by (metis not_Some_eq)

lemma pnode_hash:
  "s = PBin l r \<or> s = PEdge q c \<and> length q \<le> 256 \<Longrightarrow> proof_node_hash F (pnode F s) = Inr (phash F s)"
  by (auto simp: hash_edge_node_Inr)

lemma verify_loop_known:
  fixes F :: "'f ext_ops"
  assumes "hm_get v h = Some n" "(proof_node_hash F n :: (unit, 'f) outcome) = Inr h" "length p < length k"
  shows "fst (verify_loop F (Suc fuel) v k height checked p h) =
    (case verify_step F k p n of Inl w \<Rightarrow> w
     | Inr (felt, p') \<Rightarrow> fst (verify_loop F fuel v k height (List.insert h checked) p' felt))"
  using assms by (auto simp: Let_def split: sum.split prod.split)

lemma verify_loop_accepts:
  fixes F :: "'f ext_ops"
  assumes v: "proof_of F pt v" "nodes_apart F pt" and small: "length k \<le> 256"
  shows "set (psubs s) \<subseteq> set (psubs pt) \<Longrightarrow> pwf (length k - length p) s \<Longrightarrow> length p \<le> length k \<Longrightarrow>
    shown F v s (drop (length p) k) \<Longrightarrow> length k - length p < fuel \<Longrightarrow>
    fst (verify_loop F fuel v k height checked p (phash F s)) =
      Value (case plookup s (drop (length p) k) of None \<Rightarrow> ZERO F | Some x \<Rightarrow> x)"
proof (induction s arbitrary: p fuel checked)
  case (PLeaf x)
  then show ?case by (cases fuel) auto
next
  case (PBin l r)
  let ?s = "PBin l r" and ?b = "k ! length p"
  obtain fuel' where fuel: "fuel = Suc fuel'" using PBin.prems(5) by (cases fuel) auto
  have lt: "length p < length k" using PBin.prems(2) by auto
  have dk: "drop (length p) k = ?b # drop (length (p @ [?b])) k" using lt by (simp add: Cons_nth_drop_Suc)
  have node: "hm_get v (phash F ?s) = Some (pnode F ?s)" using PBin.prems(1,4) by (intro seen_node [OF v]) auto
  have "fst (verify_loop F fuel' v k height c (p @ [?b]) (phash F (if ?b then r else l))) =
      Value (case plookup (if ?b then r else l) (drop (length (p @ [?b])) k) of None \<Rightarrow> ZERO F | Some x \<Rightarrow> x)" for c
    using PBin.IH(1) [of "p @ [?b]"] PBin.IH(2) [of "p @ [?b]"] PBin.prems lt dk fuel by (cases ?b) simp_all
  moreover have "verify_step F k p (pnode F ?s) = Inr (phash F (if ?b then r else l), p @ [?b])"
    by (simp add: verify_step_def Let_def direction_of_bool_def bool_of_direction_def)
  ultimately show ?case using verify_loop_known [OF node pnode_hash lt] fuel dk by simp
next
  case (PEdge q c)
  let ?s = "PEdge q c" and ?k = "drop (length p) k"
  obtain fuel' where fuel: "fuel = Suc fuel'" using PEdge.prems(5) by (cases fuel) auto
  have q: "q \<noteq> []" "length q \<le> length k - length p" using PEdge.prems(2) by auto
  then have "0 < length q" by simp
  then have lt: "length p < length k" "length k - length (p @ q) < fuel'" 
    using q(2) PEdge.prems(5) unfolding fuel length_append by linarith+
  have node: "hm_get v (phash F ?s) = Some (pnode F ?s)" using PEdge.prems(1,4) by (intro seen_node [OF v]) auto
  have hash: "(proof_node_hash F (pnode F ?s) :: (unit, 'f) outcome) = Inr (phash F ?s)"
    using q small by (intro pnode_hash) auto
  have run: "fst (verify_loop F fuel v k height checked p (phash F ?s)) =
      (case verify_step F k p (pnode F ?s) of Inl w \<Rightarrow> w
       | Inr (felt', p') \<Rightarrow> fst (verify_loop F fuel' v k height (List.insert (phash F ?s) checked) p' felt'))"
    unfolding fuel by (rule verify_loop_known [OF node hash lt(1)])
  have pre: "take (length q) ?k = q \<longleftrightarrow> prefix q ?k" by (rule prefix_take_iff)
  show ?case
  proof (cases "prefix q ?k")
    case True
    then have "verify_step F k p (pnode F ?s) = Inr (phash F c, p @ q)" using pre q lt by (simp add: verify_step_def)
    moreover have "fst (verify_loop F fuel' v k height c' (p @ q) (phash F c)) =
        Value (case plookup c (drop (length (p @ q)) k) of None \<Rightarrow> ZERO F | Some x \<Rightarrow> x)" for c'
      by (rule PEdge.IH [OF _ _ _ _ lt(2)]) (use PEdge.prems True q lt in \<open>auto simp: add.commute\<close>)
    ultimately show ?thesis using run True by (simp add: add.commute)
  next
    case False
    then have "verify_step F k p (pnode F ?s) = Inl (Value (ZERO F))" using pre by (simp add: verify_step_def)
    then show ?thesis using run False by simp
  qed
qed

lemma verify_keys_accept:
  fixes F :: "'f ext_ops"
  assumes v: "proof_of F pt v" "nodes_apart F pt" and wf: "pwf (unat height) pt" and fuel: "unat height < fuel"
  shows "\<forall>k \<in> set keys. length k = unat height \<and> shown F v pt k \<Longrightarrow>
    verify_keys F fuel v (phash F pt) height checked keys =
      map (\<lambda>k. Value (case plookup pt k of None \<Rightarrow> ZERO F | Some x \<Rightarrow> x)) keys"
proof (induction keys arbitrary: checked)
  case (Cons k keys)
  obtain w c where run: "verify_key F fuel v (phash F pt) height checked k = (w, c)" by fastforce
  have "unat height < 2 ^ LENGTH(8)" by (rule unsigned_less)
  then have "length k \<le> 256" using Cons.prems by simp
  then have "w = Value (case plookup pt k of None \<Rightarrow> ZERO F | Some x \<Rightarrow> x)"
    using verify_loop_accepts [OF v, of k pt "[]" fuel height checked] Cons.prems wf fuel run by (simp add: verify_key_def)
  then show ?case using run Cons by simp
qed simp

section \<open>A tree gives proofs\<close>

text \<open>
  A tree whose nodes in memory have their hashes cached. This holds when nothing is in memory, as
  after a commit, and a proof keeps it.
\<close>

definition proof_ready :: "'f ext_ops \<Rightarrow> 'e db_view \<Rightarrow> 'f merkle_tree \<Rightarrow> 'f trie \<Rightarrow> bool" where
  "proof_ready F db t pt \<longleftrightarrow> tree_inv F db t pt \<and> (\<forall>p. pt = Some p \<longrightarrow> hashed_inv F db t p)"

definition accepts :: "'f ext_ops \<Rightarrow> 'f ptree \<Rightarrow> byte \<Rightarrow> 'f multi_proof \<Rightarrow> bits list \<Rightarrow> bool" where
  "accepts F pt height v keys \<longleftrightarrow>
     (\<forall>fuel > unat height. verify_proof F fuel v (phash F pt) keys height =
        map (\<lambda>k. Value (case plookup pt k of None \<Rightarrow> ZERO F | Some x \<Rightarrow> x)) keys)"

lemma unloaded_ready:
  assumes inv: "tree_inv F db t pt" and "slots t = Map.empty"
  shows "proof_ready F db t pt"
proof -
  have "hashed_inv F db t p" if "pt = Some p" for p
  proof -
    from inv that obtain h g where g: "erase g = p" "root_matches t h" "gtree_inv F db t h g" by (auto simp: tree_inv_def)
    then have "ids g = []" using assms(2) by (simp add: gtree_inv_def)
    then show ?thesis using g inv that hashed_no_ids [of g F "slots t"] by (auto simp: hashed_inv_def tree_inv_def)
  qed
  then show ?thesis using inv by (simp add: proof_ready_def)
qed

lemma multi_proof_Some:
  fixes F :: "'f ext_ops" and db :: "'e db_view"
  assumes inv: "hashed_inv F db t pt" and keys: "\<forall>key \<in> set keys. length key = height_of t" and fuel: "height_of t < fuel"
  obtains v t' where "get_multi_proof F fuel db keys t = (Inr v :: ('e, 'f multi_proof) outcome, t')"
    "hashed_inv F db t' pt" "rest_of t' = rest_of t" "nodes_apart F pt \<longrightarrow> accepts F pt (max_height t) v keys"
proof -
  obtain m where m: "fuel = Suc m" using fuel by (cases fuel) auto
  have "hashed_inv F db (it_tree (iter_new t)) pt" "proof_of F pt []"
    using inv by (simp_all add: iter_new_def proof_of_def)
  then obtain v it' where loop: "multi_proof_loop F fuel db (max_height t) keys ([], iter_new t) = (Inr () :: ('e, unit) outcome, v, it')"
    "hashed_inv F db (it_tree it') pt" "rest_of (it_tree it') = rest_of t" "proof_of F pt v"
    "\<forall>key \<in> set keys. shown F v pt key"
    using multi_proof_loop_shows [of "iter_new t" F db pt "[]" "max_height t" keys m] keys fuel m
    by (auto simp: iter_new_def height_of_def)
  have wf: "pwf (unat (max_height t)) pt" using inv by (auto simp: hashed_inv_def gtree_inv_def height_of_def)
  have "accepts F pt (max_height t) v keys" if "nodes_apart F pt"
    using verify_keys_accept [OF loop(4) that wf, where keys = keys and checked = "[]"] keys loop(5)
    by (simp add: accepts_def verify_proof_def height_of_def)
  then show thesis using loop by (intro that [of v "it_tree it'"]) (auto simp: get_multi_proof_def)
qed

text \<open>On the empty trie, the root is not found for any key and the proof is empty.\<close>

lemma multi_proof_loop_None:
  fixes it :: "'f merkle_iter" and db :: "'e db_view"
  assumes "tree_inv F db (it_tree it) None" "current_nodes_heights it = []" "max_height (it_tree it) = height"
    "\<forall>key \<in> set keys. length key = unat height"
  shows "\<exists>it'. multi_proof_loop F fuel db height keys (v, it) = (Inr () :: ('e, unit) outcome, v, it') \<and>
    tree_inv F db (it_tree it') None \<and> rest_of (it_tree it') = rest_of (it_tree it)"
  using assms
proof (induction keys arbitrary: it)
  case (Cons key keys)
  have ne: "key \<noteq> []" using Cons.prems by (auto simp: tree_inv_def height_of_def)
  have load: "load_root_node F db (it_tree it) = (Inr None :: ('e, nat option) outcome, (it_tree it)\<lparr>root_node := Some Empty\<rparr>)"
    by (rule load_root_node_None [OF Cons.prems(1)])
  let ?it = "it\<lparr>current_nodes_heights := [], current_path := [], it_tree := (it_tree it)\<lparr>root_node := Some Empty\<rparr>, leaf_hash := None\<rparr>"
  have "traverse_to F fuel db (proof_visitor F fuel) key (v, it) = (Inr () :: ('e, unit) outcome, v, ?it)"
    using load Cons.prems(2) by (simp add: traverse_to_kept [OF ne refl] bindS_def on_iter_def on_tree_def)
  moreover have "tree_inv F db (it_tree ?it) None"
    using Cons.prems(1) by (simp add: tree_inv_def empty_inv_def)
  ultimately show ?case
    using Cons.IH [of ?it] Cons.prems(3,4) by (simp add: bindS_def)
qed simp

text \<open>All together.\<close>

lemma multi_proof_ready:
  fixes F :: "'f ext_ops" and db :: "'e db_view"
  assumes ready: "proof_ready F db t pt" and keys: "\<forall>key \<in> set keys. length key = height_of t" and fuel: "height_of t < fuel"
  shows "\<exists>v t'. get_multi_proof F fuel db keys t = (Inr v :: ('e, 'f multi_proof) outcome, t') \<and>
    proof_ready F db t' pt \<and> rest_of t' = rest_of t \<and>
    (\<forall>p. pt = Some p \<longrightarrow> nodes_apart F p \<longrightarrow> accepts F p (max_height t) v keys)"
proof (cases pt)
  case None
  have "\<exists>it'. multi_proof_loop F fuel db (max_height t) keys ([], iter_new t) = (Inr () :: ('e, unit) outcome, [], it') \<and>
      tree_inv F db (it_tree it') None \<and> rest_of (it_tree it') = rest_of (it_tree (iter_new t))"
    by (rule multi_proof_loop_None) (use ready keys None in \<open>auto simp: proof_ready_def iter_new_def height_of_def\<close>)
  then show ?thesis using None by (auto simp: get_multi_proof_def proof_ready_def iter_new_def)
next
  case (Some p)
  have "hashed_inv F db t p" using ready Some by (simp add: proof_ready_def)
  then obtain v t' where "get_multi_proof F fuel db keys t = (Inr v :: ('e, 'f multi_proof) outcome, t')"
    "hashed_inv F db t' p" "rest_of t' = rest_of t" "nodes_apart F p \<longrightarrow> accepts F p (max_height t) v keys"
    by (rule multi_proof_Some [OF _ keys fuel])
  then show ?thesis using Some by (auto simp: proof_ready_def intro: hashed_inv_tree)
qed

text \<open>
  A key of another length ends the request. The nodes loaded for the keys before it stay in memory,
  with their hashes, and nothing else changes.
\<close>

lemma multi_proof_loop_append:
  "multi_proof_loop F fuel db height (xs @ ys) = bindS (multi_proof_loop F fuel db height xs) (\<lambda>_. multi_proof_loop F fuel db height ys)"
  by (induction xs) (auto simp: bindS_def fun_eq_iff split: prod.split sum.split)

lemma multi_proof_loop_ready:
  fixes F :: "'f ext_ops" and db :: "'e db_view"
  assumes ready: "proof_ready F db t pt" and keys: "\<forall>key \<in> set keys. length key = height_of t" and fuel: "height_of t < fuel"
  obtains v it where "multi_proof_loop F fuel db (max_height t) keys ([], iter_new t) = (Inr () :: ('e, unit) outcome, v, it)"
    "proof_ready F db (it_tree it) pt" "rest_of (it_tree it) = rest_of t"
proof -
  obtain v t' where "get_multi_proof F fuel db keys t = (Inr v :: ('e, 'f multi_proof) outcome, t')"
    "proof_ready F db t' pt" "rest_of t' = rest_of t"
    using multi_proof_ready [OF assms] by blast
  then show thesis
    by (auto simp: get_multi_proof_def split: prod.splits sum.splits intro: that)
qed

lemma multi_proof_key_length:
  fixes F :: "'f ext_ops" and db :: "'e db_view"
  assumes ready: "proof_ready F db t pt" and keys: "\<forall>key \<in> set keys. length key = height_of t" and fuel: "height_of t < fuel"
    and key: "length key \<noteq> height_of t"
  shows "\<exists>t'. get_multi_proof F fuel db (keys @ key # rest) t =
      (Inl (Err (KeyLength (height_of t) (length key))) :: ('e, 'f multi_proof) outcome, t') \<and>
    proof_ready F db t' pt \<and> rest_of t' = rest_of t"
proof -
  obtain v it where "multi_proof_loop F fuel db (max_height t) keys ([], iter_new t) = (Inr () :: ('e, unit) outcome, v, it)"
    "proof_ready F db (it_tree it) pt" "rest_of (it_tree it) = rest_of t"
    by (rule multi_proof_loop_ready [OF ready keys fuel])
  then show ?thesis
    using key by (simp add: get_multi_proof_def multi_proof_loop_append bindS_def height_of_def)
qed

lemma multi_proof_any:
  fixes F :: "'f ext_ops" and db :: "'e db_view"
  assumes "proof_ready F db t pt" "height_of t < fuel"
  shows "\<exists>r t'. get_multi_proof F fuel db keys t = (r :: ('e, 'f multi_proof) outcome, t') \<and> proof_ready F db t' pt \<and> rest_of t' = rest_of t"
proof (cases "\<forall>key \<in> set keys. length key = height_of t")
  case True
  then show ?thesis using multi_proof_ready [OF assms(1) True assms(2)] by blast
next
  case False
  then obtain ks key rest where "keys = ks @ key # rest" "\<forall>key \<in> set ks. length key = height_of t" "length key \<noteq> height_of t"
    using split_list_first_prop [of keys "\<lambda>key. length key \<noteq> height_of t"] by blast
  then show ?thesis using multi_proof_key_length [OF assms(1) _ assms(2)] by blast
qed

end
