(* ===== verification/Storage_Correct.thy ===== *)
theory Storage_Correct
  imports Bonsai_Storage Trees_Correct Proof_Complete
begin

text \<open>
  The storage as a refinement of plain maps. The relation \<open>storage_run\<close> pairs the states that
  calls of \<open>insert\<close>, \<open>remove\<close> and \<open>commit\<close>, and of \<open>get_multi_proof\<close> between a commit and the next
  change, reach with the maps they stand for, the maps of the last commit and the keys touched
  since; at any time the storage may be dropped and opened again over its store. All keys have one
  alignment, and two insertions that \<open>set\<close> does not carry into the tree are left out: of another
  value for a key inserted since the last commit, and of the committed value for a key removed
  since (\<open>insert_taken\<close>). Reads return what the maps hold, no call fails, the root hashes after a
  commit are those of the one compressed trie with the contents of the map, and a storage that is
  opened again has the maps of the last commit.
\<close>

section \<open>Stores with snapshots\<close>

lemma trees_committed_db:
  assumes "trees_committed off F B Ids ts m" "kv_get B kv = kv_get B (ts_db ts)"
  shows "trees_committed off F B Ids (ts\<lparr>ts_db := kv\<rparr>) m"
proof -
  have "tree_entry (ts\<lparr>ts_db := kv\<rparr>) = tree_entry ts" by (simp add: tree_entry_def fun_eq_iff split: option.split)
  then show ?thesis using assms by (simp add: trees_committed_def trees_inv_def dirty_in_def trees_root_hash_def)
qed

locale persistent_store = kv_store B ok view pending I width
  for B :: "('db, 'batch, 'e) db_ops" and ok :: "'db \<Rightarrow> bool"
    and view :: "'db \<Rightarrow> database_key \<Rightarrow> bytes option"
    and pending :: "'db \<Rightarrow> 'batch \<Rightarrow> database_key \<Rightarrow> bytes option"
    and I :: "'id id_ops" and width :: nat +
  fixes P :: "('db, 'id, 'txn, 'e) persistent_ops"
  assumes snapshot_ok: "ok db \<Longrightarrow> ok (db_snapshot P db i)"
    and snapshot_view: "ok db \<Longrightarrow> view (db_snapshot P db i) = view db"
begin

text \<open>The second half of a commit leaves the tries alone.\<close>

lemma create_snapshot_view:
  assumes "ok (kv_db kv)" "snapshot_interval (config kv) \<noteq> 0"
  shows "\<exists>kv'. create_snapshot P I i kv = (Inr () :: ('e, unit) outcome, kv') \<and> ok (kv_db kv') \<and>
    view (kv_db kv') = view (kv_db kv) \<and> config kv' = config kv"
  using assms snapshot_ok snapshot_view by (auto simp: create_snapshot_def)

lemma kv_get_cong:
  assumes "ok (kv_db kv)" "ok (kv_db kv')" "\<forall>k. (\<forall>l. k \<noteq> DbTrieLog l) \<longrightarrow> view (kv_db kv') k = view (kv_db kv) k"
  shows "kv_get B kv' = kv_get B kv"
  using assms by (auto simp: kv_get_view fun_eq_iff)

lemma transactional_commit_ok:
  fixes F :: "'f ext_ops" and s :: "('f, 'db, 'id) bonsai_storage"
  assumes ok: "ok (kv_db (ts_db (tries s)))" and inv: "trees_inv off F (kv_get B (ts_db (tries s))) Ids (tries s) m"
    and ids: "prefix_free Ids" and codec: "node_codec F" "felt_codec F"
  shows "\<exists>s'. transactional_commit F B I i s = (Inr () :: ('e, unit) outcome, s') \<and> ok (kv_db (ts_db (tries s'))) \<and>
    ts_max_height (tries s') = ts_max_height (tries s) \<and> config (ts_db (tries s')) = config (ts_db (tries s)) \<and>
    trees_committed off F B Ids (tries s') m \<and> flat_from (kv_get B (ts_db (tries s))) (kv_get B (ts_db (tries s'))) (tries s)"
proof -
  obtain ts1 where c1: "trees_commit F B (tries s) = (Inr () :: ('e, unit) outcome, ts1)" "ok (kv_db (ts_db ts1))"
    "ts_max_height ts1 = ts_max_height (tries s)" "config (ts_db ts1) = config (ts_db (tries s))" "trees_committed off F B Ids ts1 m"
    "flat_from (kv_get B (ts_db (tries s))) (kv_get B (ts_db ts1)) (tries s)"
    using trees_commit_ok [OF ok inv ids codec] by blast
  obtain kv2 where c2: "kv_commit B I i (ts_db ts1) = (Inr () :: ('e, unit) outcome, kv2)" "ok (kv_db kv2)"
    "config kv2 = config (ts_db ts1)" "\<forall>k. (\<forall>l. k \<noteq> DbTrieLog l) \<longrightarrow> view (kv_db kv2) k = view (kv_db (ts_db ts1)) k"
    using kv_commit_view [OF c1(2)] by blast
  note same = kv_get_cong [OF c1(2) c2(2,4)]
  have "trees_committed off F B Ids (ts1\<lparr>ts_db := kv2\<rparr>) m" by (rule trees_committed_db [OF c1(5) same])
  moreover have "transactional_commit F B I i s = (Inr () :: ('e, unit) outcome, s\<lparr>tries := ts1\<lparr>ts_db := kv2\<rparr>\<rparr>)"
    using c1(1) c2(1) by (simp add: transactional_commit_def on_tries_def on_db_def bindS_def)
  ultimately show ?thesis using c1(3,4,6) c2(2,3) same by auto
qed

lemma storage_commit_transactional:
  "storage_commit F B P I i = bindS (transactional_commit F B I i) (\<lambda>_. bindS (on_db (create_snapshot P I i)) (\<lambda>_. retS ()))"
  by (auto simp: storage_commit_def transactional_commit_def bindS_def fun_eq_iff split: prod.split sum.split)

lemma storage_commit_ok:
  fixes F :: "'f ext_ops" and s :: "('f, 'db, 'id) bonsai_storage"
  assumes ok: "ok (kv_db (ts_db (tries s)))" and inv: "trees_inv off F (kv_get B (ts_db (tries s))) Ids (tries s) m"
    and ids: "prefix_free Ids" and codec: "node_codec F" "felt_codec F"
    and interval: "snapshot_interval (config (ts_db (tries s))) \<noteq> 0"
  shows "\<exists>s'. storage_commit F B P I i s = (Inr () :: ('e, unit) outcome, s') \<and> ok (kv_db (ts_db (tries s'))) \<and>
    ts_max_height (tries s') = ts_max_height (tries s) \<and> config (ts_db (tries s')) = config (ts_db (tries s)) \<and>
    trees_committed off F B Ids (tries s') m \<and> flat_from (kv_get B (ts_db (tries s))) (kv_get B (ts_db (tries s'))) (tries s)"
proof -
  obtain s1 where c1: "transactional_commit F B I i s = (Inr () :: ('e, unit) outcome, s1)" "ok (kv_db (ts_db (tries s1)))"
    "ts_max_height (tries s1) = ts_max_height (tries s)" "config (ts_db (tries s1)) = config (ts_db (tries s))"
    "trees_committed off F B Ids (tries s1) m" "flat_from (kv_get B (ts_db (tries s))) (kv_get B (ts_db (tries s1))) (tries s)"
    using transactional_commit_ok [OF ok inv ids codec] by blast
  obtain kv2 where c2: "create_snapshot P I i (ts_db (tries s1)) = (Inr () :: ('e, unit) outcome, kv2)" "ok (kv_db kv2)"
    "view (kv_db kv2) = view (kv_db (ts_db (tries s1)))" "config kv2 = config (ts_db (tries s1))"
    using create_snapshot_view [OF c1(2)] interval c1(4) by auto
  have same: "kv_get B kv2 = kv_get B (ts_db (tries s1))" by (rule kv_get_cong [OF c1(2) c2(2)]) (simp add: c2(3))
  have "trees_committed off F B Ids ((tries s1)\<lparr>ts_db := kv2\<rparr>) m" by (rule trees_committed_db [OF c1(5) same])
  moreover have "storage_commit F B P I i s = (Inr () :: ('e, unit) outcome, s1\<lparr>tries := (tries s1)\<lparr>ts_db := kv2\<rparr>\<rparr>)"
    using c1(1) c2(1) by (simp add: storage_commit_transactional on_db_def bindS_def)
  ultimately show ?thesis using c1(3,4,6) c2(2,4) same by auto
qed

end

section \<open>Runs\<close>

type_synonym 'f content = "bytes \<Rightarrow> bits \<Rightarrow> 'f option"

definition set_content :: "bytes \<Rightarrow> bits \<Rightarrow> 'f option \<Rightarrow> 'f content \<Rightarrow> 'f content" where
  "set_content i key v c = c(i := (c i)(key := v))"

text \<open>
  When an insertion reaches the trie: always if the key was not touched since the last commit.
  Otherwise \<open>set\<close> has two early returns: a value inserted since then may only be inserted once more,
  not replaced by another one, and a key that was removed since then may get any value but the one
  it had at the last commit.
\<close>

definition insert_taken :: "'f content \<Rightarrow> 'f content \<Rightarrow> (bytes \<times> bits) set \<Rightarrow> bytes \<Rightarrow> bits \<Rightarrow> 'f \<Rightarrow> bool" where
  "insert_taken c c0 d i key v \<longleftrightarrow>
     ((i, key) \<in> d \<longrightarrow> (case c i key of Some w \<Rightarrow> w = v | None \<Rightarrow> c0 i key \<noteq> Some v))"

lemma insert_taken_fresh [simp]: "(i, key) \<notin> d \<Longrightarrow> insert_taken c c0 d i key v"
  by (simp add: insert_taken_def)

text \<open>
  The states that a storage of height \<open>h\<close> over a store with nothing in it (\<open>start\<close>) reaches,
  whatever each call answers; \<open>Ids\<close> are the identifiers in use and \<open>off\<close> is the offset of the keys
  in their first byte. The maps are \<open>c\<close>, those of the last commit \<open>c0\<close>, and the keys changed since
  then \<open>d\<close>. Inserting zero is the call that \<open>remove\<close> makes.
\<close>

inductive storage_run ::
  "nat \<Rightarrow> 'f ext_ops \<Rightarrow> ('db, 'batch, 'e) db_ops \<Rightarrow> ('db, 'id, 'txn, 'e) persistent_ops \<Rightarrow> 'id id_ops \<Rightarrow> ('db \<Rightarrow> bool) \<Rightarrow>
     bytes set \<Rightarrow> byte \<Rightarrow> ('f, 'db, 'id) bonsai_storage \<Rightarrow> 'f content \<Rightarrow> 'f content \<Rightarrow> (bytes \<times> bits) set \<Rightarrow> bool"
  for off F B P I start Ids h where
  run_new: "start db \<Longrightarrow> storage_snapshot_interval cfg \<noteq> 0 \<Longrightarrow>
    storage_run off F B P I start Ids h (storage_new db cfg h) (\<lambda>_ _. None) (\<lambda>_ _. None) {}"
| run_insert: "storage_run off F B P I start Ids h s c c0 d \<Longrightarrow> i \<in> Ids \<Longrightarrow> length key = unat h \<Longrightarrow> key_safe off Ids key \<Longrightarrow>
    v \<noteq> ZERO F \<Longrightarrow> insert_taken c c0 d i key v \<Longrightarrow> storage_insert off F B i key v s = (r, s') \<Longrightarrow>
    storage_run off F B P I start Ids h s' (set_content i key (Some v) c) c0 (insert (i, key) d)"
| run_remove: "storage_run off F B P I start Ids h s c c0 d \<Longrightarrow> i \<in> Ids \<Longrightarrow> length key = unat h \<Longrightarrow> key_safe off Ids key \<Longrightarrow>
    storage_remove off F B i key s = (r, s') \<Longrightarrow>
    storage_run off F B P I start Ids h s' (set_content i key None c) c0 (insert (i, key) d)"
| run_commit: "storage_run off F B P I start Ids h s c c0 d \<Longrightarrow> storage_commit F B P I i s = (r, s') \<Longrightarrow>
    storage_run off F B P I start Ids h s' c c {}"
| run_transactional_commit: "storage_run off F B P I start Ids h s c c0 d \<Longrightarrow> transactional_commit F B I i s = (r, s') \<Longrightarrow>
    storage_run off F B P I start Ids h s' c c {}"
| run_reopen: "storage_run off F B P I start Ids h s c c0 d \<Longrightarrow> storage_snapshot_interval cfg \<noteq> 0 \<Longrightarrow>
    storage_run off F B P I start Ids h (storage_new (kv_db (ts_db (tries s))) cfg h) c0 c0 {}"
| run_proof: "storage_run off F B P I start Ids h s c c0 {} \<Longrightarrow> i \<in> Ids \<Longrightarrow>
    storage_get_multi_proof F B i keys s = (r, s') \<Longrightarrow> storage_run off F B P I start Ids h s' c c0 {}"

text \<open>The trie of a map: the tries are determined by their contents.\<close>

definition trie_of :: "nat \<Rightarrow> (bits \<Rightarrow> 'f option) \<Rightarrow> 'f trie \<Rightarrow> bool" where
  "trie_of n f pt \<longleftrightarrow> trie_wf n pt \<and> (\<forall>k. length k = n \<longrightarrow> trie_lookup pt k = f k)"

lemma trie_of_unique: "trie_of n f pt \<Longrightarrow> trie_of n f pt' \<Longrightarrow> pt = pt'"
  by (rule trie_unique) (auto simp: trie_of_def)

lemma trie_of_insert: "trie_of n f pt \<Longrightarrow> length k = n \<Longrightarrow> trie_of n (f(k \<mapsto> v)) (trie_insert k v pt)"
  by (auto simp: trie_of_def trie_wf_insert trie_lookup_insert [of n])

lemma trie_of_delete:
  "trie_of n f pt \<Longrightarrow> length k = n \<Longrightarrow>
    trie_of n (f(k := None)) (if trie_lookup pt k = None then pt else trie_delete k pt)"
  by (auto simp: trie_of_def trie_wf_delete trie_lookup_delete [of n])

text \<open>The store has no leaves but those of keys of the right length.\<close>

definition flat_only :: "nat \<Rightarrow> 'e db_view \<Rightarrow> bytes set \<Rightarrow> nat \<Rightarrow> bool" where
  "flat_only off db Ids n \<longleftrightarrow> (\<forall>b. db (Flat b) \<noteq> Inr None \<longrightarrow> (\<exists>i \<in> Ids. \<exists>k. length k = n \<and> b = i @ bitslice_to_bytes off k))"

text \<open>
  The trees hold the tries \<open>m\<close> of the maps, and trees opened over the store as it is would hold
  the tries \<open>m0\<close> of the last commit. As long as nothing has changed since then, the hashes of the
  nodes in memory are right.
\<close>

definition storage_inv ::
  "nat \<Rightarrow> 'f ext_ops \<Rightarrow> ('db, 'batch, 'e) db_ops \<Rightarrow> ('db \<Rightarrow> bool) \<Rightarrow> bytes set \<Rightarrow> byte \<Rightarrow> ('f, 'db, 'id) bonsai_storage \<Rightarrow>
     'f content \<Rightarrow> 'f content \<Rightarrow> (bytes \<times> bits) set \<Rightarrow> (bytes \<Rightarrow> 'f trie) \<Rightarrow> (bytes \<Rightarrow> 'f trie) \<Rightarrow> bool" where
  "storage_inv off F B ok Ids h s c c0 d m m0 \<longleftrightarrow>
     ok (kv_db (ts_db (tries s))) \<and> snapshot_interval (config (ts_db (tries s))) \<noteq> 0 \<and>
     ts_max_height (tries s) = h \<and> trees_inv off F (kv_get B (ts_db (tries s))) Ids (tries s) m \<and>
     dirty_in off (tries s) d \<and> (\<forall>(i, k) \<in> d. length k = unat h) \<and> (\<forall>i \<in> Ids. trie_of (unat h) (c i) (m i)) \<and>
     (\<forall>i \<in> Ids. tree_ok off F (kv_get B (ts_db (tries s))) h Ids i (tree_new i h) (m0 i) \<and> trie_of (unat h) (c0 i) (m0 i)) \<and>
     flat_only off (kv_get B (ts_db (tries s))) Ids (unat h) \<and>
     (d = {} \<longrightarrow> (\<forall>i \<in> Ids. proof_ready F (kv_get B (ts_db (tries s))) (tree_entry (tries s) i) (m i)))"

lemma flat_only_commit:
  assumes "flat_from db db' ts" "flat_only off db Ids n" "dirty_in off ts d" "\<forall>(i, k) \<in> d. length k = n" "fst ` set (trees ts) \<subseteq> Ids"
  shows "flat_only off db' Ids n"
  unfolding flat_only_def
proof (intro allI impI)
  fix b assume "db' (Flat b) \<noteq> Inr None"
  then consider "db (Flat b) \<noteq> Inr None"
    | i k where "i \<in> Ids" "k \<in> fst ` set (cache_leaf_modified (tree_entry ts i))" "b = i @ k"
    using assms(1,5) unfolding flat_from_def by blast
  then show "\<exists>i \<in> Ids. \<exists>k. length k = n \<and> b = i @ bitslice_to_bytes off k"
  proof cases
    case 1
    then show ?thesis using assms(2) by (auto simp: flat_only_def)
  next
    case 2
    then have "k \<in> bitslice_to_bytes off ` {k. (i, k) \<in> d}" using assms(3) unfolding dirty_in_def by blast
    then show ?thesis using 2 assms(4) by blast
  qed
qed

text \<open>A new tree over a store that holds none of its keys is the empty trie.\<close>

lemma new_tree_inv:
  assumes "\<And>k. db k = Inr None" "h \<noteq> 0"
  shows "tree_inv F db (tree_new i h) None" "leaf_inv off F db (tree_new i h) None"
  using assms
  by (auto simp: tree_inv_def leaf_inv_def empty_inv_def tree_new_def sm_empty_def sm_wf_def db_total_def absent_def
      height_of_def read_flat_def decode_flat_def tree_get_def trie_lookup_def Let_def unat_gt_0)

context persistent_store
begin

lemma storage_new_inv:
  fixes F :: "'f ext_ops" and db :: 'db and cfg :: bonsai_storage_config
  defines "kv \<equiv> kv_new db (kv_config_of cfg) None :: ('db, 'id) key_value_db"
  assumes "ok db" "storage_snapshot_interval cfg \<noteq> 0"
    and tree: "\<forall>i \<in> Ids. tree_ok off F (kv_get B kv) h Ids i (tree_new i h) (m i) \<and> trie_of (unat h) (c i) (m i)"
    and "flat_only off (kv_get B kv) Ids (unat h)"
  shows "storage_inv off F B ok Ids h (storage_new db cfg h :: ('f, 'db, 'id) bonsai_storage) c c {} m m"
proof -
  have "proof_ready F (kv_get B kv) (tree_new i h) (m i)" if "i \<in> Ids" for i
    using tree that clean_new [of i h] by (intro unloaded_ready) (auto simp: tree_ok_def clean_def)
  moreover have "cache_leaf_modified (tree_new i h :: 'f merkle_tree) = []" for i by (simp add: tree_new_def)
  ultimately show ?thesis
    using assms by (simp add: storage_inv_def storage_new_def trees_new_def trees_inv_def dirty_in_def tree_entry_def
        kv_new_def kv_config_of_def)
qed

lemma storage_new_empty:
  fixes F :: "'f ext_ops"
  assumes "\<forall>k. view db k = None" "ok db" "storage_snapshot_interval cfg \<noteq> 0" "h \<noteq> 0"
  shows "storage_inv off F B ok Ids h (storage_new db cfg h :: ('f, 'db, 'id) bonsai_storage) (\<lambda>_ _. None) (\<lambda>_ _. None) {}
    (\<lambda>_. None) (\<lambda>_. None)"
proof -
  let ?kv = "kv_new db (kv_config_of cfg) None :: ('db, 'id) key_value_db"
  have none: "kv_get B ?kv k = Inr None" for k
    using assms(1) kv_get_view [of ?kv k] assms(2) by (simp add: kv_new_def)
  then have "tree_inv F (kv_get B ?kv) (tree_new i h) None" "leaf_inv off F (kv_get B ?kv) (tree_new i h) None" for i
    using assms(4) by (auto intro: new_tree_inv)
  then have "tree_ok off F (kv_get B ?kv) h Ids i (tree_new i h) None" for i
    by (simp add: tree_ok_def tree_new_def)
  moreover have "trie_of (unat h) (\<lambda>_. None) (None :: 'f trie)" using assms(4) by (simp add: trie_of_def trie_wf_def trie_lookup_def unat_gt_0)
  moreover have "flat_only off (kv_get B ?kv) Ids (unat h)" using none by (simp add: flat_only_def)
  ultimately show ?thesis by (intro storage_new_inv assms(2,3)) simp_all
qed

lemma storage_reopen_inv:
  fixes s :: "('f, 'db, 'id) bonsai_storage"
  assumes inv: "storage_inv off F B ok Ids h s c c0 d m m0" and cfg: "storage_snapshot_interval cfg \<noteq> 0"
  shows "storage_inv off F B ok Ids h (storage_new (kv_db (ts_db (tries s))) cfg h :: ('f, 'db, 'id) bonsai_storage) c0 c0 {} m0 m0"
proof -
  have "kv_get B (kv_new (kv_db (ts_db (tries s))) (kv_config_of cfg) None :: ('db, 'id) key_value_db) = kv_get B (ts_db (tries s))"
    by (simp add: kv_get_def kv_new_def fun_eq_iff)
  moreover have "ok (kv_db (ts_db (tries s)))" using inv by (simp add: storage_inv_def)
  ultimately show ?thesis using inv by (intro storage_new_inv cfg) (simp_all add: storage_inv_def)
qed

text \<open>The early returns of \<open>set\<close> leave the insertions of a run alone.\<close>

lemma insert_taken_pre:
  fixes F :: "'f ext_ops"
  assumes inv: "storage_inv off F B ok Ids h s c c0 d m m0" and i: "i \<in> Ids" and key: "length key = unat h"
    and taken: "insert_taken c c0 d i key v"
  shows "set_pre off F (kv_get B (ts_db (tries s))) (tree_entry (tries s) i) key v"
proof -
  let ?db = "kv_get B (ts_db (tries s))" and ?t = "tree_entry (tries s) i"
  note inv' = inv [unfolded storage_inv_def]
  have ok: "tree_ok off F ?db h Ids i ?t (m i)" "tree_ok off F ?db h Ids i (tree_new i h) (m0 i)"
    using inv' i by (auto simp: trees_inv_def)
  have height: "height_of ?t = unat h" "height_of (tree_new i h :: 'f merkle_tree) = unat h"
    using ok(1) by (simp_all add: tree_ok_def height_of_def tree_new_def)
  have get: "tree_get off F ?db ?t key = Inr (c i key)"
    using ok(1) inv' i key height by (simp add: tree_ok_def leaf_inv_def trie_of_def)
  have "tree_get off F ?db (tree_new i h) key = Inr (c0 i key)"
    using ok(2) inv' i key height by (simp add: tree_ok_def leaf_inv_def trie_of_def)
  then have flat: "read_flat off F ?db ?t key = Inr (c0 i key)"
    using ok by (simp add: tree_get_def read_flat_def tree_new_def tree_ok_def hm_get_def Let_def)
  have "(i, key) \<in> d" if "hm_get (cache_leaf_modified ?t) (bitslice_to_bytes off key) \<noteq> None"
  proof -
    have "bitslice_to_bytes off key \<in> bitslice_to_bytes off ` {k. (i, k) \<in> d}"
      using that inv' by (auto simp: dirty_in_def hm_get_def map_of_eq_None_iff)
    then obtain k where k: "(i, k) \<in> d" "bitslice_to_bytes off k = bitslice_to_bytes off key" by auto
    then have "length k = length key" using inv' key by auto
    then show ?thesis using bitslice_to_bytes_inj [of k key off] k key height(1) height_le [of ?t] by auto
  qed
  then show ?thesis
    using get flat taken
    by (auto simp: set_pre_def insert_taken_def tree_get_def Let_def split: option.splits insert_or_remove.splits)
qed

lemma storage_insert_inv:
  assumes inv: "storage_inv off F B ok Ids h s c c0 d m m0" and ids: "prefix_free Ids" "i \<in> Ids" and safe: "key_safe off Ids key"
    and key: "length key = unat h" and v: "v \<noteq> ZERO F" and taken: "insert_taken c c0 d i key v"
  shows "\<exists>s'. storage_insert off F B i key v s = (Inr () :: ('e, unit) outcome, s') \<and>
    storage_inv off F B ok Ids h s' (set_content i key (Some v) c) c0 (insert (i, key) d) (m(i := trie_insert key v (m i))) m0"
proof -
  note inv' = inv [unfolded storage_inv_def]
  note pre = insert_taken_pre [OF inv ids(2) key taken]
  obtain ts' where ts': "trees_set off F B i key v (tries s) = (Inr () :: ('e, unit) outcome, ts')"
    "ts_db ts' = ts_db (tries s)" "ts_max_height ts' = ts_max_height (tries s)" "dirty_in off ts' (insert (i, key) d)"
    "trees_inv off F (kv_get B (ts_db (tries s))) Ids ts' (m(i := trie_insert key v (m i)))"
    using trees_set_insert [where m = m and d = d and Ids = Ids and key = key, OF _ _ ids safe _ v pre] inv' key by blast
  moreover have "trie_of (unat h) ((c i)(key \<mapsto> v)) (trie_insert key v (m i))"
    using trie_of_insert [OF _ key, of "c i" "m i" v] inv' ids(2) by simp
  ultimately show ?thesis
    using inv' key ids(2)
    by (intro exI [of _ "s\<lparr>tries := ts'\<rparr>"]) (auto simp: storage_insert_def on_tries_def storage_inv_def set_content_def)
qed

lemma storage_remove_inv:
  assumes inv: "storage_inv off F B ok Ids h s c c0 d m m0" and ids: "prefix_free Ids" "i \<in> Ids" and safe: "key_safe off Ids key"
    and key: "length key = unat h"
  shows "\<exists>s'. storage_remove off F B i key s = (Inr () :: ('e, unit) outcome, s') \<and>
    storage_inv off F B ok Ids h s' (set_content i key None c) c0 (insert (i, key) d)
      (m(i := if trie_lookup (m i) key = None then m i else trie_delete key (m i))) m0"
proof -
  note inv' = inv [unfolded storage_inv_def]
  let ?pt = "if trie_lookup (m i) key = None then m i else trie_delete key (m i)"
  obtain ts' where ts': "trees_set off F B i key (ZERO F) (tries s) = (Inr () :: ('e, unit) outcome, ts')"
    "ts_db ts' = ts_db (tries s)" "ts_max_height ts' = ts_max_height (tries s)" "dirty_in off ts' (insert (i, key) d)"
    "trees_inv off F (kv_get B (ts_db (tries s))) Ids ts' (m(i := ?pt))"
    using trees_set_remove [where m = m and d = d and Ids = Ids and key = key, OF _ _ ids safe] inv' key by blast
  have "trie_of (unat h) ((c i)(key := None)) ?pt" using trie_of_delete [OF _ key, of "c i" "m i"] inv' ids(2) by simp
  then show ?thesis
    using ts' inv' key ids(2)
    by (intro exI [of _ "s\<lparr>tries := ts'\<rparr>"]) (auto simp: storage_remove_def on_tries_def storage_inv_def set_content_def)
qed

text \<open>After a commit the tries of the last commit are the current ones.\<close>

lemma committed_inv:
  assumes inv: "storage_inv off F B ok Ids h s c c0 d m m0" and "ok (kv_db (ts_db (tries s')))"
    and "ts_max_height (tries s') = ts_max_height (tries s)" "config (ts_db (tries s')) = config (ts_db (tries s))"
    and com: "trees_committed off F B Ids (tries s') m"
    and flat: "flat_from (kv_get B (ts_db (tries s))) (kv_get B (ts_db (tries s'))) (tries s)"
  shows "storage_inv off F B ok Ids h s' c c {} m m \<and> (\<forall>j \<in> Ids. storage_root_hash F B s' j = Inr (trie_hash F (m j)))"
proof -
  note inv' = inv [unfolded storage_inv_def]
  have "tree_ok off F (kv_get B (ts_db (tries s'))) h Ids i (tree_new i h) (m i)" if "i \<in> Ids" for i
  proof (rule clean_reopen [of off F _ h Ids i "tree_entry (tries s') i"])
    show "tree_ok off F (kv_get B (ts_db (tries s'))) h Ids i (tree_entry (tries s') i) (m i)"
      using com that inv' assms(3) by (auto simp: trees_committed_def trees_inv_def)
  qed (use com in \<open>simp add: trees_committed_def\<close>)
  moreover have "flat_only off (kv_get B (ts_db (tries s'))) Ids (unat h)"
    by (rule flat_only_commit [OF flat]) (use inv' in \<open>auto simp: trees_inv_def\<close>)
  moreover have "proof_ready F (kv_get B (ts_db (tries s'))) (tree_entry (tries s') i) (m i)" if "i \<in> Ids" for i
    using com that by (intro unloaded_ready) (auto simp: trees_committed_def trees_inv_def tree_ok_def clean_def)
  ultimately show ?thesis using assms inv' by (simp add: storage_inv_def trees_committed_def storage_root_hash_def)
qed

lemma storage_commit_inv:
  assumes inv: "storage_inv off F B ok Ids h s c c0 d m m0" and ids: "prefix_free Ids" and codec: "node_codec F" "felt_codec F"
  shows "\<exists>s'. storage_commit F B P I i s = (Inr () :: ('e, unit) outcome, s') \<and> storage_inv off F B ok Ids h s' c c {} m m \<and>
    (\<forall>j \<in> Ids. storage_root_hash F B s' j = Inr (trie_hash F (m j)))"
  using storage_commit_ok [OF _ _ ids codec, of s off m i] inv committed_inv [OF inv] by (fastforce simp: storage_inv_def)

text \<open>The root hashes that a commit leaves are those of the maps.\<close>

lemma storage_commit_hash:
  fixes F :: "'f ext_ops"
  assumes inv: "storage_inv off F B ok Ids h s c c0 d m m0" and ids: "prefix_free Ids" and codec: "node_codec F" "felt_codec F"
  shows "\<exists>s'. storage_commit F B P I i s = (Inr () :: ('e, unit) outcome, s') \<and>
    (\<forall>j \<in> Ids. \<exists>pt. trie_of (unat h) (c j) pt \<and> storage_root_hash F B s' j = Inr (trie_hash F pt))"
proof -
  have "\<forall>j \<in> Ids. trie_of (unat h) (c j) (m j)" using inv by (simp add: storage_inv_def)
  then show ?thesis using storage_commit_inv [OF assms] by blast
qed

lemma transactional_commit_inv:
  assumes inv: "storage_inv off F B ok Ids h s c c0 d m m0" and ids: "prefix_free Ids" and codec: "node_codec F" "felt_codec F"
  shows "\<exists>s'. transactional_commit F B I i s = (Inr () :: ('e, unit) outcome, s') \<and> storage_inv off F B ok Ids h s' c c {} m m \<and>
    (\<forall>j \<in> Ids. storage_root_hash F B s' j = Inr (trie_hash F (m j)))"
  using transactional_commit_ok [OF _ _ ids codec, of s off m i] inv committed_inv [OF inv] by (fastforce simp: storage_inv_def)

text \<open>A proof between a commit and the next change only loads nodes.\<close>

lemma leaf_inv_rest: "rest_of t' = rest_of t \<Longrightarrow> leaf_inv off F db t' pt = leaf_inv off F db t pt"
proof -
  assume same: "rest_of t' = rest_of t"
  then have "tree_get off F db t' k = tree_get off F db t k" for k
    by (auto simp: rest_of_def tree_get_def Let_def split: option.split insert_or_remove.split)
  then show ?thesis using same by (simp add: rest_of_def leaf_inv_def read_flat_def height_of_def)
qed

lemma ready_entry_inv:
  assumes inv: "storage_inv off F B ok Ids h s c c0 {} m m0" and i: "i \<in> Ids"
    and t': "proof_ready F (kv_get B (ts_db (tries s))) t' (m i)" "rest_of t' = rest_of (tree_entry (tries s) i)"
  shows "storage_inv off F B ok Ids h (s\<lparr>tries := (tries s)\<lparr>trees := hm_insert i t' (trees (tries s))\<rparr>\<rparr>) c c0 {} m m0"
proof -
  let ?ts = "tries s" and ?db = "kv_get B (ts_db (tries s))" and ?t = "tree_entry (tries s) i"
  note inv' = inv [unfolded storage_inv_def]
  have "tree_ok off F ?db h Ids i ?t (m i)" using inv' i by (auto simp: trees_inv_def)
  then have "tree_ok off F ?db h Ids i t' (m i)"
    using t' leaf_inv_rest [OF t'(2), of off F ?db "m i"] by (simp add: tree_ok_def proof_ready_def rest_of_def)
  then have "trees_inv off F ?db Ids (?ts\<lparr>trees := hm_insert i t' (trees ?ts)\<rparr>) m"
    using inv' i by (auto simp: trees_inv_def hm_insert_keys)
  moreover have "dirty_in off (?ts\<lparr>trees := hm_insert i t' (trees ?ts)\<rparr>) {}" using inv' t'(2) by (simp add: dirty_in_def rest_of_def)
  ultimately show ?thesis using inv' t'(1) by (simp add: storage_inv_def)
qed

lemma storage_ready:
  assumes inv: "storage_inv off F B ok Ids h s c c0 {} m m0" and i: "i \<in> Ids"
  shows "proof_ready F (kv_get B (ts_db (tries s))) (tree_entry (tries s) i) (m i)" "max_height (tree_entry (tries s) i) = h"
    "height_of (tree_entry (tries s) i) = unat h" "height_of (tree_entry (tries s) i) < LOOP_BOUND"
proof -
  show h: "max_height (tree_entry (tries s) i) = h" using inv i by (auto simp: storage_inv_def trees_inv_def tree_ok_def)
  then show "height_of (tree_entry (tries s) i) = unat h" by (simp add: height_of_def)
qed (use inv i height_le [of "tree_entry (tries s) i"] in \<open>simp_all add: storage_inv_def LOOP_BOUND_def\<close>)

lemma storage_proof_run:
  assumes "get_multi_proof F LOOP_BOUND (kv_get B (ts_db (tries s))) keys (tree_entry (tries s) i) = (r, t')"
  shows "storage_get_multi_proof F B i keys s = (r, s\<lparr>tries := (tries s)\<lparr>trees := hm_insert i t' (trees (tries s))\<rparr>\<rparr>)"
  using assms by (simp add: storage_get_multi_proof_def on_tries_def trees_get_multi_proof_def on_entry_def)

lemma storage_proof_inv:
  fixes F :: "'f ext_ops" and s :: "('f, 'db, 'id) bonsai_storage"
  assumes inv: "storage_inv off F B ok Ids h s c c0 {} m m0" and i: "i \<in> Ids" and keys: "\<forall>key \<in> set keys. length key = unat h"
  shows "\<exists>v s'. storage_get_multi_proof F B i keys s = (Inr v :: ('e, 'f multi_proof) outcome, s') \<and>
    storage_inv off F B ok Ids h s' c c0 {} m m0 \<and>
    (\<forall>p. m i = Some p \<longrightarrow> nodes_apart F p \<longrightarrow> accepts F p h v keys)"
proof -
  let ?db = "kv_get B (ts_db (tries s))" and ?t = "tree_entry (tries s) i"
  note ready = storage_ready [OF inv i]
  obtain v t' where run: "get_multi_proof F LOOP_BOUND ?db keys ?t = (Inr v :: ('e, 'f multi_proof) outcome, t')"
    and t': "proof_ready F ?db t' (m i)" "rest_of t' = rest_of ?t"
    and acc: "\<forall>p. m i = Some p \<longrightarrow> nodes_apart F p \<longrightarrow> accepts F p h v keys"
    using multi_proof_ready [OF ready(1) _ ready(4), of keys] keys ready(2,3) by auto
  show ?thesis using storage_proof_run [OF run] ready_entry_inv [OF inv i t'] acc by blast
qed

lemma storage_proof_any:
  fixes F :: "'f ext_ops" and s :: "('f, 'db, 'id) bonsai_storage"
  assumes inv: "storage_inv off F B ok Ids h s c c0 {} m m0" and i: "i \<in> Ids"
    and run: "storage_get_multi_proof F B i keys s = (r :: ('e, 'f multi_proof) outcome, s')"
  shows "storage_inv off F B ok Ids h s' c c0 {} m m0"
proof -
  note ready = storage_ready [OF inv i]
  obtain r' t' where r': "get_multi_proof F LOOP_BOUND (kv_get B (ts_db (tries s))) keys (tree_entry (tries s) i) =
      (r' :: ('e, 'f multi_proof) outcome, t')"
    "proof_ready F (kv_get B (ts_db (tries s))) t' (m i)" "rest_of t' = rest_of (tree_entry (tries s) i)"
    using multi_proof_any [OF ready(1,4), of keys] by blast
  show ?thesis using storage_proof_run [OF r'(1)] ready_entry_inv [OF inv i r'(2,3)] run by simp
qed

text \<open>The invariant of every run, with the new store well-formed.\<close>

lemma storage_run_inv:
  assumes run: "storage_run off F B P I start Ids h s c c0 d" and ids: "prefix_free Ids" and codec: "node_codec F" "felt_codec F"
    and h: "h \<noteq> 0" and new: "\<And>db. start db \<Longrightarrow> ok db \<and> (\<forall>k. view db k = None)"
  shows "\<exists>m m0. storage_inv off F B ok Ids h s c c0 d m m0"
  using run
proof induction
  case (run_new db cfg)
  then show ?case using storage_new_empty [OF _ _ _ h] new by blast
next
  case (run_insert s c c0 d i key v r s')
  then obtain m m0 where inv: "storage_inv off F B ok Ids h s c c0 d m m0" by blast
  from storage_insert_inv [OF inv ids run_insert(2,4,3,5,6)] run_insert(7) show ?case by auto
next
  case (run_remove s c c0 d i key r s')
  then obtain m m0 where inv: "storage_inv off F B ok Ids h s c c0 d m m0" by blast
  from storage_remove_inv [OF inv ids run_remove(2,4,3)] run_remove(5) show ?case by auto
next
  case (run_commit s c c0 d i r s')
  then obtain m m0 where inv: "storage_inv off F B ok Ids h s c c0 d m m0" by blast
  from storage_commit_inv [OF inv ids codec, of i] run_commit(2) show ?case by auto
next
  case (run_transactional_commit s c c0 d i r s')
  then obtain m m0 where inv: "storage_inv off F B ok Ids h s c c0 d m m0" by blast
  from transactional_commit_inv [OF inv ids codec, of i] run_transactional_commit(2) show ?case by auto
next
  case (run_reopen s c c0 d cfg)
  then show ?case using storage_reopen_inv by blast
next
  case (run_proof s c c0 i keys r s')
  then obtain m m0 where inv: "storage_inv off F B ok Ids h s c c0 {} m m0" by blast
  from storage_proof_any [OF inv run_proof(2,3)] show ?case by blast
qed

text \<open>Reads see the map.\<close>

lemma storage_get_inv:
  assumes "storage_inv off F B ok Ids h s c c0 d m m0" "i \<in> Ids" "length k = unat h"
  shows "storage_get off F B s i k = Inr (c i k)"
  using assms by (auto simp: storage_inv_def trees_inv_def tree_ok_def leaf_inv_def height_of_def storage_get_def trees_get_def
      trie_of_def)

lemma storage_contains_inv:
  assumes "storage_inv off F B ok Ids h s c c0 d m m0" "i \<in> Ids" "length k = unat h"
  shows "storage_contains off B s i k = Inr (c i k \<noteq> None)"
proof -
  let ?kv = "ts_db (tries s)" and ?t = "tree_entry (tries s) i"
  have ok: "ok (kv_db ?kv)" using assms(1) by (simp add: storage_inv_def)
  have "tree_get off F (kv_get B ?kv) ?t k = Inr (c i k)"
    using storage_get_inv [OF assms] by (simp add: storage_get_def trees_get_def)
  then have "tree_contains off (kv_contains B ?kv) ?t k = Inr (c i k \<noteq> None)"
    by (cases "c i k") (auto simp: tree_get_def tree_contains_def Let_def kv_get_view [OF ok] kv_contains_view [OF ok] decode_flat_def
        split: option.splits insert_or_remove.splits)
  then show ?thesis by (simp add: storage_contains_def trees_contains_def)
qed

end

section \<open>The hash map store\<close>

interpretation hashmap_storage: persistent_store hashmap_ops hashmap_ok hashmap_view hashmap_pending basic_ops 8 hashmap_persistent
proof
  fix db :: "basic_id hashmap_db" and i
  assume "hashmap_ok db"
  then show "hashmap_ok (db_snapshot hashmap_persistent db i)"
    by (cases db) (simp add: hashmap_persistent_def hashmap_ok_def)
  have "get_map (db_snapshot hashmap_persistent db i) k = get_map db k" for k
    by (cases db; cases k) (simp_all add: hashmap_persistent_def)
  then show "hashmap_view (db_snapshot hashmap_persistent db i) = hashmap_view db"
    by (simp add: hashmap_view_def fun_eq_iff)
qed

text \<open>Runs over the hash map store, which starts with no keys.\<close>

definition hashmap_empty :: "'id hashmap_db \<Rightarrow> bool" where
  "hashmap_empty db \<longleftrightarrow> trie_db db = [] \<and> flat_db db = [] \<and> trie_log_db db = []"

abbreviation hashmap_run ::
  "nat \<Rightarrow> 'f ext_ops \<Rightarrow> bytes set \<Rightarrow> byte \<Rightarrow> ('f, basic_id hashmap_db, basic_id) bonsai_storage \<Rightarrow> 'f content \<Rightarrow> 'f content \<Rightarrow>
     (bytes \<times> bits) set \<Rightarrow> bool" where
  "hashmap_run off F \<equiv> storage_run off F hashmap_ops hashmap_persistent basic_ops hashmap_empty"

lemma hashmap_empty_ok: "hashmap_empty db \<Longrightarrow> hashmap_ok db \<and> (\<forall>k. hashmap_view db k = None)"
proof -
  assume "hashmap_empty db"
  then have "get_map db k = []" for k by (cases k) (simp_all add: hashmap_empty_def)
  then show ?thesis using \<open>hashmap_empty db\<close> by (simp add: hashmap_empty_def hashmap_ok_def hashmap_view_def hm_get_def hm_wf_def)
qed

lemmas hashmap_run_inv = hashmap_storage.storage_run_inv [OF _ _ _ _ _ hashmap_empty_ok]

end
