(* ===== verification/Sample_Ops.thy ===== *)
theory Sample_Ops
  imports Storage_Correct
begin

text \<open>
  A small instance of the functions that come from other crates, with one-byte field elements
  and a codec of the same shape as the derived one. It shows that the hypotheses on those
  functions can hold, and concrete examples are stated over it.
\<close>

section \<open>Definitions\<close>

fun handle_bytes :: "byte node_handle \<Rightarrow> bytes" where
  "handle_bytes (Hash f) = [0, f]"
| "handle_bytes (InMemory _) = [1]"

fun option_bytes :: "byte option \<Rightarrow> bytes" where
  "option_bytes None = [0]"
| "option_bytes (Some f) = [1, f]"

fun sample_node_encode :: "byte node \<Rightarrow> bytes" where
  "sample_node_encode (Binary b) =
     0 # option_bytes (b_hash b) @ word_of_nat (b_height b) # handle_bytes (b_left b) @ handle_bytes (b_right b)"
| "sample_node_encode (Edge e) =
     1 # option_bytes (e_hash e) @ word_of_nat (e_height e) # path_encode (e_path e) @ handle_bytes (e_child e)"

fun option_of_bytes :: "bytes \<Rightarrow> (byte option \<times> bytes) option" where
  "option_of_bytes (b # bs) =
     (if b = 0 then Some (None, bs)
      else if b = 1 then (case bs of f # bs \<Rightarrow> Some (Some f, bs) | [] \<Rightarrow> None)
      else None)"
| "option_of_bytes [] = None"

fun handle_of_bytes :: "bytes \<Rightarrow> (byte node_handle \<times> bytes) option" where
  "handle_of_bytes (b # f # bs) = (if b = 0 then Some (Hash f, bs) else None)"
| "handle_of_bytes _ = None"

definition sample_node_decode :: "bytes \<Rightarrow> byte node option" where
  "sample_node_decode bs =
     (case bs of
        [] \<Rightarrow> None
      | tag # bs \<Rightarrow>
          (case option_of_bytes bs of
             Some (h, height # bs) \<Rightarrow>
               (if tag = 0
                then (case handle_of_bytes bs of
                        Some (l, bs) \<Rightarrow>
                          (case handle_of_bytes bs of
                             Some (r, _) \<Rightarrow>
                               Some (Binary \<lparr>b_hash = h, b_height = unat height, b_left = l, b_right = r\<rparr>)
                           | None \<Rightarrow> None)
                      | None \<Rightarrow> None)
                else if tag = 1
                then (case path_decode bs of
                        Some (p, bs) \<Rightarrow>
                          (case handle_of_bytes bs of
                             Some (c, _) \<Rightarrow>
                               Some (Edge \<lparr>e_hash = h, e_height = unat height, e_path = p, e_child = c\<rparr>)
                           | None \<Rightarrow> None)
                      | None \<Rightarrow> None)
                else None)
           | _ \<Rightarrow> None))"

definition sample_ops :: "byte ext_ops" where
  "sample_ops =
     \<lparr>ZERO = 0, felt_add = (+), from_bytes_be = (\<lambda>bs. sum_list bs), stark_hash = (\<lambda>a b. 3 * a + 5 * b + 7),
      felt_encode = (\<lambda>v. [v]), felt_decode = (\<lambda>bs. case bs of [] \<Rightarrow> None | v # _ \<Rightarrow> Some v),
      node_encode = sample_node_encode, node_decode = sample_node_decode\<rparr>"

definition empty_db :: "unit db_view" where
  "empty_db k = Inr None"

section \<open>Lemmas\<close>

lemma option_of_bytes_append [simp]: "option_of_bytes (option_bytes h @ bs) = Some (h, bs)"
  by (cases h) auto

lemma handle_of_bytes_append [simp]: "as_hash h \<noteq> None \<Longrightarrow> handle_of_bytes (handle_bytes h @ bs) = Some (h, bs)"
  by (cases h) auto

lemma handle_of_bytes_append_Nil [simp]: "as_hash h \<noteq> None \<Longrightarrow> handle_of_bytes (handle_bytes h) = Some (h, [])"
  by (cases h) auto

lemma handle_of_bytes_hash: "handle_of_bytes bs = Some (h, bs') \<Longrightarrow> as_hash h \<noteq> None"
  by (cases bs rule: handle_of_bytes.cases) (auto split: if_splits)

lemma unat_height [simp]: "n \<le> 255 \<Longrightarrow> unat (word_of_nat n :: byte) = n"
  by (simp add: unat_of_nat)

lemma sample_round_trip:
  "hash_only n \<Longrightarrow> node_small n \<Longrightarrow> sample_node_decode (sample_node_encode n) = Some n"
  by (cases n) (auto simp: sample_node_decode_def path_decode_encode)

lemma sample_decode_hash_only: "sample_node_decode bs = Some n \<Longrightarrow> hash_only n"
  by (auto simp: sample_node_decode_def dest!: handle_of_bytes_hash
      split: list.splits option.splits prod.splits if_splits)

lemma sample_node_codec [simp]: "node_codec sample_ops"
  using sample_round_trip sample_decode_hash_only by (auto simp: node_codec_def sample_ops_def)

lemma sample_felt_codec [simp]: "felt_codec sample_ops"
  by (simp add: felt_codec_def sample_ops_def)

lemma sample_ZERO [simp]: "ZERO sample_ops = 0"
  by (simp add: sample_ops_def)

section \<open>A tree and a storage with one leaf\<close>

definition sample_key :: bits where
  "sample_key = [False, True, False, False, True, True, False, True]"

definition sample_tree :: "byte merkle_tree" where
  "sample_tree = snd (tree_set 0 sample_ops 8 empty_db sample_key 5 (tree_new [] 8))"

definition sample_storage :: "(byte, basic_id hashmap_db, basic_id) bonsai_storage" where
  "sample_storage =
     snd (storage_insert 5 sample_ops hashmap_ops [200] sample_key 5
       (storage_new hashmap_default storage_config_default 8))"

definition sample_ids :: "bytes set" where
  "sample_ids = {[200], [201]}"

lemma length_sample_key [simp]: "length sample_key = 8"
  by (simp add: sample_key_def)

lemma sample_key_ne [simp]: "sample_key \<noteq> []"
  by (simp add: sample_key_def)

lemma empty_tree_inv: "tree_inv F empty_db (tree_new i 8) None" "leaf_inv off F empty_db (tree_new i 8) None"
  by (rule new_tree_inv; simp add: empty_db_def)+

lemma tree_new_simps [simp]:
  "height_of (tree_new i h) = unat h" "tree_ident (tree_new i h) = i" "cache_leaf_modified (tree_new i h) = []"
  by (simp_all add: tree_new_def height_of_def)

lemma sample_tree_set:
  "tree_set 0 sample_ops 8 empty_db sample_key 5 (tree_new [] 8) = (Inr () :: (unit, unit) outcome, sample_tree)"
  "tree_inv sample_ops empty_db sample_tree (trie_insert sample_key 5 None)"
  "leaf_inv 0 sample_ops empty_db sample_tree (trie_insert sample_key 5 None)"
  "height_of sample_tree = 8" "tree_ident sample_tree = []"
proof -
  have "key_clear 0 (tree_new [] 8 :: byte merkle_tree) sample_key" 
    by (rule key_safe_clear [OF key_safe_aligned]) simp_all
  moreover have "set_pre 0 sample_ops empty_db (tree_new [] 8) sample_key 5" by (simp add: set_pre_def)
  ultimately obtain t' where "tree_set 0 sample_ops 8 empty_db sample_key 5 (tree_new [] 8) = (Inr () :: (unit, unit) outcome, t')"
    "tree_inv sample_ops empty_db t' (trie_insert sample_key 5 None)"
    "leaf_inv 0 sample_ops empty_db t' (trie_insert sample_key 5 None)" "height_of t' = 8" "tree_ident t' = []"
    using tree_set_insert [OF empty_tree_inv [where F = sample_ops and i = "[]"], where key = sample_key and fuel = 8 and v = 5] by auto
  then show "tree_set 0 sample_ops 8 empty_db sample_key 5 (tree_new [] 8) = (Inr () :: (unit, unit) outcome, sample_tree)"
    "tree_inv sample_ops empty_db sample_tree (trie_insert sample_key 5 None)"
    "leaf_inv 0 sample_ops empty_db sample_tree (trie_insert sample_key 5 None)"
    "height_of sample_tree = 8" "tree_ident sample_tree = []"
    by (simp_all add: sample_tree_def)
qed

lemma sample_ids_simps [simp]: "[200] \<in> sample_ids" "[201] \<in> sample_ids" "prefix_free sample_ids"
  by (auto simp: sample_ids_def prefix_free_def)

lemma sample_key_safe [simp]:
  assumes "length k = 8"
  shows "key_safe off sample_ids k"
proof -
  have "\<not> prefix [b] (bitslice_to_bytes off (take n k))" if n: "n < 8" and b: "8 \<le> unat b" for n and b :: byte
  proof
    assume "prefix [b] (bitslice_to_bytes off (take n k))"
    then obtain xs where xs: "bitslice_to_bytes off (take n k) = b # xs" by (auto simp: prefix_def)
    then have "take n k \<noteq> []" by (metis bitslice_to_bytes_Nil(1) list.distinct(1))
    then have "word_of_nat n = b" using xs hd_bitslice_to_bytes [of "take n k" off] n assms by simp
    then have "unat b = n" using unat_height [of n] n by auto
    then show False using n b by simp
  qed
  then show ?thesis unfolding key_safe_def sample_ids_def assms by simp
qed

lemma sample_run:
  "hashmap_run 5 sample_ops sample_ids 8 sample_storage (set_content [200] sample_key (Some 5) (\<lambda>_ _. None)) (\<lambda>_ _. None)
     {([200], sample_key)}"
proof -
  have "hashmap_run 5 sample_ops sample_ids 8 (storage_new hashmap_default storage_config_default 8) (\<lambda>_ _. None) (\<lambda>_ _. None) {}"
    by (rule run_new) (simp_all add: hashmap_empty_def hashmap_default_def storage_config_default_def)
  then show ?thesis
    unfolding sample_storage_def
    by (rule run_insert [OF _ _ _ _ _ _ prod.collapse [symmetric], where key = sample_key and v = 5]) simp_all
qed

end
