(* ===== verification/Trie_Logs.thy ===== *)
theory Trie_Logs
  imports Changes
begin

text \<open>
  The trie logs are read back in the order of the store: that of a hash map, which is arbitrary,
  or of the bytes of the keys, which separates the old and the new value of a key. Whatever the
  order, \<open>deserialize\<close> finds the old value of every key that a commit changed, which is what the
  transactions use.
\<close>

section \<open>Entries of the log\<close>

text \<open>An entry: a key, whether the value is the old one, and the value.\<close>

type_synonym log_entry = "trie_key \<times> bool \<times> bytes"

definition enc_entry :: "'id id_ops \<Rightarrow> 'id \<Rightarrow> log_entry \<Rightarrow> bytes \<times> bytes" where
  "enc_entry I i = (\<lambda>(k, old, v). (if old then key_old_value I i k else key_new_value I i k, v))"

definition entries :: "trie_key \<times> change \<Rightarrow> log_entry list" where
  "entries x = (if effective x
     then (case old_value (snd x) of None \<Rightarrow> [] | Some v \<Rightarrow> [(fst x, True, v)]) @
          (case new_value (snd x) of None \<Rightarrow> [] | Some v \<Rightarrow> [(fst x, False, v)])
     else [])"

lemma serialize_entries: "serialize I i batch = map (enc_entry I i) (concat (map entries batch))"
proof -
  have "serialize_one I i x = map (enc_entry I i) (entries x)" for x
    by (cases x) (auto simp: serialize_one_def entries_def effective_def enc_entry_def split: option.split)
  then have "serialize_one I i = (\<lambda>x. map (enc_entry I i) (entries x))" by auto
  then show ?thesis by (simp add: serialize_def map_concat comp_def)
qed

text \<open>What reading the entries of a log gives, whatever their order: old values, and no empty change.\<close>

definition log_state :: "log_entry set \<Rightarrow> (trie_key \<Rightarrow> change option) \<Rightarrow> bool" where
  "log_state E f \<longleftrightarrow> (\<forall>k. case f k of
      None \<Rightarrow> k \<notin> fst ` E
    | Some c \<Rightarrow> k \<in> fst ` E \<and> (\<forall>v. old_value c = Some v \<longleftrightarrow> (k, True, v) \<in> E) \<and>
        (old_value c = None \<longrightarrow> new_value c \<noteq> None))"

lemma log_stateD:
  assumes "log_state E f"
  shows "f k = None \<longleftrightarrow> k \<notin> fst ` E"
    and "f k = Some c \<Longrightarrow> (\<forall>v. old_value c = Some v \<longleftrightarrow> (k, True, v) \<in> E) \<and> (old_value c \<noteq> None \<or> new_value c \<noteq> None)"
proof -
  have at: "case f k of None \<Rightarrow> k \<notin> fst ` E
    | Some c \<Rightarrow> k \<in> fst ` E \<and> (\<forall>v. old_value c = Some v \<longleftrightarrow> (k, True, v) \<in> E) \<and> (old_value c = None \<longrightarrow> new_value c \<noteq> None)"
    using assms by (simp add: log_state_def)
  show "f k = None \<longleftrightarrow> k \<notin> fst ` E" using at by (cases "f k") simp_all
  show "(\<forall>v. old_value c = Some v \<longleftrightarrow> (k, True, v) \<in> E) \<and> (old_value c \<noteq> None \<or> new_value c \<noteq> None)" if "f k = Some c"
    using at that by auto
qed

text \<open>The changes collected so far, with the one that is still open.\<close>

definition flush :: "change_batch \<Rightarrow> change \<Rightarrow> trie_key option \<Rightarrow> change_batch" where
  "flush batch current last_key = (case last_key of None \<Rightarrow> batch | Some k \<Rightarrow> insert_in_place k current batch)"

definition entry_change :: "bool \<Rightarrow> bytes \<Rightarrow> change \<Rightarrow> change" where
  "entry_change old v c = (if old then c\<lparr>old_value := Some v\<rparr> else c\<lparr>new_value := Some v\<rparr>)"

lemma deserialize_loop_entry:
  "deserialize_loop I i (enc_entry I i (k, old, v) # xs) batch current last_key =
     (if last_key = Some k \<or> last_key = None
      then deserialize_loop I i xs batch (entry_change old v current) (Some k)
      else deserialize_loop I i xs (flush batch current last_key) (entry_change old v change_default) (Some k))"
proof -
  have "OLD_VALUE \<noteq> NEW_VALUE" by (simp add: OLD_VALUE_def NEW_VALUE_def)
  then show ?thesis
    by (auto simp: enc_entry_def entry_change_def flush_def split: option.split)
qed

lemma insert_in_place_fun:
  "hm_get (insert_in_place key c batch) = (hm_get batch)(key \<mapsto> (case hm_get batch key of
     None \<Rightarrow> c
   | Some e \<Rightarrow> \<lparr>old_value = (if old_value e = None then old_value c else old_value e), new_value = new_value c\<rparr>))"
  by (auto simp: insert_in_place_get fun_eq_iff)

text \<open>One entry more: the change of its key has the old value if the entry has one.\<close>

lemma flush_entry:
  fixes v :: bytes
  assumes start: "last_key = None \<Longrightarrow> current = change_default \<and> batch = []"
    and fresh: "old \<Longrightarrow> (\<forall>c. hm_get (flush batch current last_key) k = Some c \<longrightarrow> old_value c = None)"
  defines "batch' \<equiv> if last_key = Some k \<or> last_key = None then batch else flush batch current last_key"
    and "current' \<equiv> entry_change old v (if last_key = Some k \<or> last_key = None then current else change_default)"
  shows "\<exists>c'. hm_get (flush batch' current' (Some k)) = (hm_get (flush batch current last_key))(k \<mapsto> c') \<and>
    old_value c' = (if old then Some v else Option.bind (hm_get (flush batch current last_key) k) old_value) \<and>
    (\<not> old \<longrightarrow> new_value c' = Some v)"
proof (cases "last_key = Some k")
  case True
  then show ?thesis
    using fresh unfolding batch'_def current'_def flush_def entry_change_def
    by (auto simp: insert_in_place_get fun_eq_iff split: option.splits if_splits)
next
  case False
  let ?B = "flush batch current last_key"
  have "flush batch' current' (Some k) = insert_in_place k (entry_change old v change_default) ?B"
    using False start unfolding batch'_def current'_def by (cases last_key) (auto simp: flush_def)
  then show ?thesis
    using fresh by (auto simp: insert_in_place_fun entry_change_def change_default_def split: option.split)
qed

lemma log_state_insert:
  assumes "log_state E f" "old_value c' = (if old then Some v else Option.bind (f k) old_value)"
    "\<not> old \<longrightarrow> new_value c' = Some v" "\<forall>w. (k, old, w) \<notin> E"
  shows "log_state (insert (k, old, v) E) (f(k \<mapsto> c'))"
  unfolding log_state_def
proof
  fix k'
  have "log_state E f \<Longrightarrow> case f k' of None \<Rightarrow> k' \<notin> fst ` E
    | Some c \<Rightarrow> k' \<in> fst ` E \<and> (\<forall>v. old_value c = Some v \<longleftrightarrow> (k', True, v) \<in> E) \<and> (old_value c = None \<longrightarrow> new_value c \<noteq> None)"
    for k' by (simp add: log_state_def)
  note at = this [OF assms(1)]
  show "case (f(k \<mapsto> c')) k' of None \<Rightarrow> k' \<notin> fst ` insert (k, old, v) E
    | Some c \<Rightarrow> k' \<in> fst ` insert (k, old, v) E \<and> (\<forall>w. old_value c = Some w \<longleftrightarrow> (k', True, w) \<in> insert (k, old, v) E) \<and>
        (old_value c = None \<longrightarrow> new_value c \<noteq> None)"
  proof (cases "k' = k")
    case True
    have "k \<notin> fst ` E \<Longrightarrow> (k, True, w) \<notin> E" for w by force
    then show ?thesis using True assms(2-4) at [of k] by (cases "f k") auto
  next
    case False
    then show ?thesis using at [of k'] by (cases "f k'") auto
  qed
qed

lemma deserialize_loop_entries:
  assumes "distinct (map (\<lambda>(k, old, v). (k, old)) (es0 @ es))" "log_state (set es0) (hm_get (flush batch current last_key))"
    "hm_wf batch" "last_key = None \<longrightarrow> current = change_default \<and> batch = []"
    "last_key \<noteq> None \<longrightarrow> new_value current \<noteq> None \<or> old_value current \<noteq> None"
  shows "\<exists>batch' current' last'. deserialize_loop I i (map (enc_entry I i) es) batch current last_key =
      (Inr (batch', current', last') :: ('e, change_batch \<times> change \<times> trie_key option) outcome) \<and>
    log_state (set (es0 @ es)) (hm_get (flush batch' current' last')) \<and> hm_wf batch' \<and>
    (last' = None \<longrightarrow> batch' = []) \<and> (last' \<noteq> None \<longrightarrow> new_value current' \<noteq> None \<or> old_value current' \<noteq> None)"
  using assms
proof (induction es arbitrary: es0 batch current last_key)
  case Nil
  then show ?case by auto
next
  case (Cons e es)
  obtain k old v where e: "e = (k, old, v)" by (cases e)
  let ?f = "hm_get (flush batch current last_key)"
  let ?b = "if last_key = Some k \<or> last_key = None then batch else flush batch current last_key"
  let ?c = "entry_change old v (if last_key = Some k \<or> last_key = None then current else change_default)"
  have new: "\<forall>w. (k, old, w) \<notin> set es0" using Cons.prems(1) e by force
  have "old_value c = None" if "old" "?f k = Some c" for c
  proof (rule ccontr)
    assume "old_value c \<noteq> None"
    then obtain w where "old_value c = Some w" by auto
    then have "(k, True, w) \<in> set es0" using Cons.prems(2) that(2) by (auto simp: log_state_def split: option.splits)
    then show False using new that(1) by auto
  qed
  then obtain c' where c': "hm_get (flush ?b ?c (Some k)) = ?f(k \<mapsto> c')"
    "old_value c' = (if old then Some v else Option.bind (?f k) old_value)" "\<not> old \<longrightarrow> new_value c' = Some v"
    using flush_entry [of last_key current batch old k v] Cons.prems(4) by blast
  have st: "log_state (set (es0 @ [e])) (hm_get (flush ?b ?c (Some k)))"
    using log_state_insert [OF Cons.prems(2) c'(2,3) new] c'(1) e by simp
  have loop: "(deserialize_loop I i (map (enc_entry I i) (e # es)) batch current last_key :: ('e, _) outcome) =
      deserialize_loop I i (map (enc_entry I i) es) ?b ?c (Some k)"
    by (simp add: e deserialize_loop_entry)
  have "hm_wf ?b" using Cons.prems(3) by (simp add: flush_def split: option.split)
  moreover have "new_value ?c \<noteq> None \<or> old_value ?c \<noteq> None" by (simp add: entry_change_def)
  ultimately show ?case
    using Cons.IH [of "es0 @ [e]" ?b ?c "Some k"] st Cons.prems(1) unfolding loop by simp
qed

section \<open>Reading in any order\<close>

lemma deserialize_entries:
  assumes "distinct (map (\<lambda>(k, old, v). (k, old)) es)"
  shows "\<exists>out. deserialize I i (map (enc_entry I i) es) = (Inr out :: ('e, change_batch) outcome) \<and> hm_wf out \<and>
    log_state (set es) (hm_get out)"
proof -
  have "log_state (set []) (hm_get (flush [] change_default None))" by (simp add: log_state_def flush_def hm_get_def)
  from deserialize_loop_entries [OF _ this, of es I i] assms
  obtain batch current last_key where
    "deserialize_loop I i (map (enc_entry I i) es) [] change_default None =
      (Inr (batch, current, last_key) :: ('e, change_batch \<times> change \<times> trie_key option) outcome)"
    "log_state (set es) (hm_get (flush batch current last_key))" "hm_wf batch" "last_key = None \<longrightarrow> batch = []"
    "last_key \<noteq> None \<longrightarrow> new_value current \<noteq> None \<or> old_value current \<noteq> None"
    by (auto simp: hm_wf_def)
  then show ?thesis by (cases last_key) (auto simp: deserialize_def flush_def)
qed

lemma map_of_set: "distinct (map fst xs) \<Longrightarrow> set xs = {(a, b). map_of xs a = Some b}"
  by auto

lemma enc_entry_inj: "enc_entry I i e = enc_entry I i e' \<longleftrightarrow> e = e'"
proof
  obtain k old v k' old' v' where e: "e = (k, old, v)" "e' = (k', old', v')" by (metis prod_cases3)
  assume eq: "enc_entry I i e = enc_entry I i e'"
  then have v: "v = v'" by (simp add: enc_entry_def e)
  have parse: "(parse_log_key I i (fst (enc_entry I i (k, old, v))) :: (unit, byte \<times> trie_key) outcome) =
      Inr (if old then OLD_VALUE else NEW_VALUE, k)" for k old v
    by (simp add: enc_entry_def)
  have "(if old then OLD_VALUE else NEW_VALUE, k) = (if old' then OLD_VALUE else NEW_VALUE, k')"
    using parse [of k old v] parse [of k' old' v'] eq unfolding e by (metis Inr_inject)
  then show "e = e'" using v e by (auto simp: OLD_VALUE_def NEW_VALUE_def split: if_splits)
qed simp

lemma entries_iff:
  "(k, old, v) \<in> set (concat (map entries batch)) \<longleftrightarrow>
     (\<exists>c. (k, c) \<in> set (filter effective batch) \<and> (if old then old_value c else new_value c) = Some v)"
  by (force simp: entries_def split: option.splits if_splits)

lemma distinct_entries: "hm_wf batch \<Longrightarrow> distinct (map (\<lambda>(k, old, v). (k, old)) (concat (map entries batch)))"
proof (induction batch)
  case (Cons x batch)
  have "k \<noteq> fst x" if "(k, old, v) \<in> set (concat (map entries batch))" for k old v
  proof -
    have "\<exists>c. (k, c) \<in> set (filter effective batch)" using that entries_iff [of k old v batch] by blast
    then have "k \<in> set (map fst batch)" by force
    moreover have "fst x \<notin> set (map fst batch)" using Cons.prems by (simp add: hm_wf_def)
    ultimately show ?thesis by metis
  qed
  moreover have "distinct (map (\<lambda>(k, old, v). (k, old)) (entries x))" by (simp add: entries_def split: option.split)
  moreover have "k = fst x" if "(k, old, v) \<in> set (entries x)" for k old v
    using that by (auto simp: entries_def split: option.splits if_splits)
  ultimately show ?case using Cons by (force simp: hm_wf_def)
qed simp

text \<open>The old values of the changes that a commit made.\<close>

definition undo_of :: "change_batch \<Rightarrow> trie_key \<Rightarrow> bytes option option" where
  "undo_of batch k = map_option old_value (hm_get (filter effective batch) k)"

lemma log_state_undo:
  assumes "hm_wf batch" "log_state (set (concat (map entries batch))) f"
  shows "map_option old_value (f k) = undo_of batch k"
proof -
  let ?E = "set (concat (map entries batch))"
  have wf: "distinct (map fst (filter effective batch))" using assms(1) by (simp add: hm_wf_def distinct_map_filter)
  have mem: "(k, c) \<in> set (filter effective batch) \<longleftrightarrow> hm_get (filter effective batch) k = Some c" for c
    using wf by (simp add: hm_get_def)
  show ?thesis
  proof (cases "hm_get (filter effective batch) k")
    case None
    then have "k \<notin> fst ` ?E" using entries_iff [of k _ _ batch] mem by (auto simp del: set_concat)
    then have "f k = None" using log_stateD(1) [OF assms(2)] by blast
    then show ?thesis using None by (simp add: undo_of_def)
  next
    case (Some c)
    then have "effective (k, c)" using mem [of c] by simp
    then obtain old v where "(if old then old_value c else new_value c) = Some v"
      by (cases "old_value c"; cases "new_value c") (auto simp: effective_def, (metis (full_types))+)
    then have "(k, old, v) \<in> ?E" unfolding entries_iff mem Some by blast
    then have "k \<in> fst ` ?E" by force
    then obtain c' where c': "f k = Some c'" "\<forall>v. old_value c' = Some v \<longleftrightarrow> (k, True, v) \<in> ?E"
      using log_stateD [OF assms(2), of k] by (cases "f k") blast+
    have "old_value c' = Some v \<longleftrightarrow> old_value c = Some v" for v
      using c'(2) unfolding entries_iff mem Some by auto
    then have "old_value c' = old_value c" by (metis not_None_eq)
    then show ?thesis using c'(1) Some by (simp add: undo_of_def)
  qed
qed

lemma deserialize_any_order:
  assumes wf: "hm_wf batch" and xs: "distinct (map fst xs)" "map_of xs = map_of (serialize I i batch)"
  shows "\<exists>out. deserialize I i xs = (Inr out :: ('e, change_batch) outcome) \<and> hm_wf out \<and>
    (\<forall>k. map_option old_value (hm_get out k) = undo_of batch k) \<and>
    (\<forall>(k, c) \<in> set out. old_value c \<noteq> None \<or> new_value c \<noteq> None)"
proof -
  let ?es = "concat (map entries batch)"
  let ?key = "\<lambda>(k, old, v). (k, old)"
  have enc_fst: "fst (enc_entry I i e) = fst (enc_entry I i e') \<longleftrightarrow> ?key e = ?key e'" for e e'
    using enc_entry_inj [of I i "(fst e, fst (snd e), [])" "(fst e', fst (snd e'), [])"]
    by (cases e; cases e') (simp add: enc_entry_def)
  have inj: "inj_on (\<lambda>e. fst (enc_entry I i e)) (set ?es)"
    using distinct_entries [OF wf] enc_fst unfolding inj_on_def distinct_map by metis
  have "distinct (map fst (serialize I i batch))"
    using inj distinct_entries [OF wf] by (simp add: serialize_entries distinct_map comp_def)
  then have set_xs: "set xs = enc_entry I i ` set ?es"
    using xs map_of_set [of xs] map_of_set [of "serialize I i batch"] by (simp add: serialize_entries)
  then obtain es where es: "xs = map (enc_entry I i) es" by (metis ex_map_conv imageE)
  then have "enc_entry I i ` set es = enc_entry I i ` set ?es" using set_xs by simp
  then have set_es: "set es = set ?es" by (rule inj_image_eq_iff [THEN iffD1, rotated]) (simp add: inj_def enc_entry_inj)
  have "distinct (map ?key es)"
    using xs(1) enc_fst unfolding es by (simp add: distinct_map inj_on_def comp_def)
  then obtain out where out: "deserialize I i xs = (Inr out :: ('e, change_batch) outcome)" "hm_wf out" "log_state (set ?es) (hm_get out)"
    using deserialize_entries [of es I i] es set_es by auto
  have "old_value c \<noteq> None \<or> new_value c \<noteq> None" if "(k, c) \<in> set out" for k c
  proof -
    have "hm_get out k = Some c" using out(2) that by (simp add: hm_wf_def hm_get_def)
    then show ?thesis using log_stateD(2) [OF out(3)] by blast
  qed
  then show ?thesis using out log_state_undo [OF wf out(3)] by blast
qed

end
