(* ===== verification/Rocks_Db.thy ===== *)
theory Rocks_Db
  imports Key_Value_Db "HOL-Library.List_Lexorder"
begin

text \<open>
  The RocksDB store (\<^verbatim>\<open>src/src/databases/rocks_db.rs\<close>). The RocksDB library is a
  parameter: the record \<open>rocksdb_api\<close> has the calls that the source makes, \<open>rocksdb_documented\<close>
  states what their documentation says. The store and its transactions are shown to satisfy the
  contracts of the store interface whenever the library behaves as documented; the search for a
  prefix relies on the order of the iterator.
\<close>

section \<open>The library\<close>

text \<open>
  \<open>OptimisticTransactionDB\<close>, column family handles, write batches, snapshots and transactions
  are type parameters. A call that changes its object returns the object it leaves. An iterator
  with \<open>IteratorMode::From(key, Forward)\<close> is the list of its items. A transaction borrows the
  database, so the database does not change while it is alive; \<open>txn_commit\<close> writes to it.
\<close>

record ('rdb, 'cf, 'wb, 'snap, 'txn, 'err) rocksdb_api =
  cf_handle :: "'rdb \<Rightarrow> string \<Rightarrow> 'cf option"
  get_cf :: "'rdb \<Rightarrow> 'cf \<Rightarrow> bytes \<Rightarrow> 'err + bytes option"
  put_cf :: "'rdb \<Rightarrow> 'cf \<Rightarrow> bytes \<Rightarrow> bytes \<Rightarrow> ('err + unit) \<times> 'rdb"
  delete_cf :: "'rdb \<Rightarrow> 'cf \<Rightarrow> bytes \<Rightarrow> ('err + unit) \<times> 'rdb"
  iterator_cf :: "'rdb \<Rightarrow> 'cf \<Rightarrow> bytes \<Rightarrow> ('err + bytes \<times> bytes) list"
  rdb_write :: "'rdb \<Rightarrow> 'wb \<Rightarrow> ('err + unit) \<times> 'rdb"
  batch_default :: 'wb
  batch_put_cf :: "'wb \<Rightarrow> 'cf \<Rightarrow> bytes \<Rightarrow> bytes \<Rightarrow> 'wb"
  batch_delete_cf :: "'wb \<Rightarrow> 'cf \<Rightarrow> bytes \<Rightarrow> 'wb"
  rdb_snapshot :: "'rdb \<Rightarrow> 'snap"
  transaction_opt :: "'rdb \<Rightarrow> 'txn"
  txn_get_cf_opt :: "'txn \<Rightarrow> 'cf \<Rightarrow> bytes \<Rightarrow> 'snap \<Rightarrow> 'err + bytes option"
  txn_put_cf :: "'txn \<Rightarrow> 'cf \<Rightarrow> bytes \<Rightarrow> bytes \<Rightarrow> ('err + unit) \<times> 'txn"
  txn_delete_cf :: "'txn \<Rightarrow> 'cf \<Rightarrow> bytes \<Rightarrow> ('err + unit) \<times> 'txn"
  txn_iterator_cf :: "'txn \<Rightarrow> 'cf \<Rightarrow> bytes \<Rightarrow> ('err + bytes \<times> bytes) list"
  txn_get_writebatch :: "'txn \<Rightarrow> 'wb"
  txn_rebuild_from_writebatch :: "'txn \<Rightarrow> 'wb \<Rightarrow> ('err + unit) \<times> 'txn"
  txn_commit :: "'txn \<Rightarrow> 'rdb \<Rightarrow> ('err + unit) \<times> 'rdb"

section \<open>Definitions\<close>

definition TRIE_LOG_CF :: string where "TRIE_LOG_CF = ''trie_log''"
definition TRIE_CF :: string where "TRIE_CF = ''trie''"
definition FLAT_CF :: string where "FLAT_CF = ''flat''"

definition CF_ERROR :: string where
  "CF_ERROR = ''critical: rocksdb column family operation failed''"

text \<open>
  \<open>create_rocks_db\<close>: the file system calls of the standard library and the call that opens a
  database are the argument; a failed \<^verbatim>\<open>unwrap\<close> panics.
\<close>

record ('fs, 'path, 'rdb, 'err) rocks_env =
  path_exists :: "'path \<Rightarrow> 'fs \<Rightarrow> bool"
  remove_dir_all :: "'path \<Rightarrow> 'fs \<Rightarrow> (string + unit) \<times> 'fs"
  create_dir_all :: "'path \<Rightarrow> 'fs \<Rightarrow> (string + unit) \<times> 'fs"
  open_cf_descriptors :: "'path \<Rightarrow> string list \<Rightarrow> 'fs \<Rightarrow> ('err + 'rdb) \<times> 'fs"

definition unwrap_io :: "(string + unit) \<times> 'fs \<Rightarrow> ('fs \<Rightarrow> ('e db_failure + 'a) \<times> 'fs) \<Rightarrow> ('e db_failure + 'a) \<times> 'fs" where
  "unwrap_io m f = (case m of (Inl msg, fs) \<Rightarrow> (Inl (DbPanic msg), fs) | (Inr _, fs) \<Rightarrow> f fs)"

definition create_rocks_db ::
  "('fs, 'path, 'rdb, 'err) rocks_env \<Rightarrow> 'path \<Rightarrow> 'fs \<Rightarrow> ('err db_failure + 'rdb) \<times> 'fs" where
  "create_rocks_db E path fs =
     unwrap_io (if path_exists E path fs then remove_dir_all E path fs else (Inr (), fs)) (\<lambda>fs.
     unwrap_io (create_dir_all E path fs) (\<lambda>fs.
       case open_cf_descriptors E path [TRIE_LOG_CF, TRIE_CF, FLAT_CF] fs of
         (Inl e, fs) \<Rightarrow> (Inl (DbError e), fs)
       | (Inr db, fs) \<Rightarrow> (Inr db, fs)))"

record rocks_db_config =
  rocks_max_saved_snapshots :: "64 word option"

definition rocks_db_config_default :: rocks_db_config where
  "rocks_db_config_default = \<lparr>rocks_max_saved_snapshots = Some 100\<rparr>"

record ('rdb, 'snap, 'id) rocks_db =
  rdb :: 'rdb
  rocks_config :: rocks_db_config
  rocks_snapshots :: "('id \<times> 'snap) list"

definition rocks_db_new :: "'rdb \<Rightarrow> rocks_db_config \<Rightarrow> ('rdb, 'snap, 'id) rocks_db" where
  "rocks_db_new db c = \<lparr>rdb = db, rocks_config = c, rocks_snapshots = []\<rparr>"

datatype 'err rocks_db_error =
    RocksDB 'err
  | Custom string

text \<open>The \<^verbatim>\<open>?\<close> on a result of the library, by \<open>From<Error> for RocksDBError\<close>.\<close>

definition from_error :: "'err + 'a \<Rightarrow> 'err rocks_db_error db_failure + 'a" where
  "from_error r = (case r of Inl e \<Rightarrow> Inl (DbError (RocksDB e)) | Inr a \<Rightarrow> Inr a)"

definition expect_cf :: "'cf option \<Rightarrow> ('cf \<Rightarrow> 'e db_failure + 'a) \<Rightarrow> 'e db_failure + 'a" where
  "expect_cf h f = (case h of None \<Rightarrow> Inl (DbPanic CF_ERROR) | Some cf \<Rightarrow> f cf)"

fun get_cf_name :: "database_key \<Rightarrow> string" where
  "get_cf_name (DbTrie _) = TRIE_CF"
| "get_cf_name (DbFlat _) = FLAT_CF"
| "get_cf_name (DbTrieLog _) = TRIE_LOG_CF"

definition rocks_create_batch ::
  "('rdb, 'cf, 'wb, 'snap, 'txn, 'err) rocksdb_api \<Rightarrow> ('rdb, 'snap, 'id) rocks_db \<Rightarrow> 'wb" where
  "rocks_create_batch A db = batch_default A"

definition rocks_insert ::
  "('rdb, 'cf, 'wb, 'snap, 'txn, 'err) rocksdb_api \<Rightarrow> ('rdb, 'snap, 'id) rocks_db \<Rightarrow> database_key \<Rightarrow> bytes \<Rightarrow> 'wb option \<Rightarrow>
     ('err rocks_db_error db_failure + bytes option) \<times> ('rdb, 'snap, 'id) rocks_db \<times> 'wb option" where
  "rocks_insert A db key value batch =
     (case cf_handle A (rdb db) (get_cf_name key) of
        None \<Rightarrow> (Inl (DbPanic CF_ERROR), db, batch)
      | Some handle_cf \<Rightarrow>
          (case from_error (get_cf A (rdb db) handle_cf (db_as_slice key)) of
             Inl e \<Rightarrow> (Inl e, db, batch)
           | Inr old \<Rightarrow>
               (case batch of
                  Some b \<Rightarrow> (Inr old, db, Some (batch_put_cf A b handle_cf (db_as_slice key) value))
                | None \<Rightarrow>
                    (case put_cf A (rdb db) handle_cf (db_as_slice key) value of
                       (Inl e, r) \<Rightarrow> (from_error (Inl e), db\<lparr>rdb := r\<rparr>, None)
                     | (Inr _, r) \<Rightarrow> (Inr old, db\<lparr>rdb := r\<rparr>, None)))))"

definition rocks_get ::
  "('rdb, 'cf, 'wb, 'snap, 'txn, 'err) rocksdb_api \<Rightarrow> ('rdb, 'snap, 'id) rocks_db \<Rightarrow> database_key \<Rightarrow>
     'err rocks_db_error db_failure + bytes option" where
  "rocks_get A db key =
     expect_cf (cf_handle A (rdb db) (get_cf_name key)) (\<lambda>handle.
       from_error (get_cf A (rdb db) handle (db_as_slice key)))"

text \<open>\<open>map_while\<close> over the items of an iterator: up to the first error or key without the prefix.\<close>

fun while_prefix :: "bytes \<Rightarrow> ('err + bytes \<times> bytes) list \<Rightarrow> (bytes \<times> bytes) list" where
  "while_prefix p [] = []"
| "while_prefix p (Inl e # items) = []"
| "while_prefix p (Inr (key, value) # items) =
     (if prefix p key then (key, value) # while_prefix p items else [])"

definition rocks_get_by_prefix ::
  "('rdb, 'cf, 'wb, 'snap, 'txn, 'err) rocksdb_api \<Rightarrow> ('rdb, 'snap, 'id) rocks_db \<Rightarrow> database_key \<Rightarrow>
     'err rocks_db_error db_failure + (bytes \<times> bytes) list" where
  "rocks_get_by_prefix A db p =
     expect_cf (cf_handle A (rdb db) (get_cf_name p)) (\<lambda>handle.
       Inr (while_prefix (db_as_slice p) (iterator_cf A (rdb db) handle (db_as_slice p))))"

definition rocks_contains ::
  "('rdb, 'cf, 'wb, 'snap, 'txn, 'err) rocksdb_api \<Rightarrow> ('rdb, 'snap, 'id) rocks_db \<Rightarrow> database_key \<Rightarrow>
     'err rocks_db_error db_failure + bool" where
  "rocks_contains A db key =
     expect_cf (cf_handle A (rdb db) (get_cf_name key)) (\<lambda>handle.
       from_error (map_sum id (\<lambda>value. value \<noteq> None) (get_cf A (rdb db) handle (db_as_slice key))))"

definition rocks_remove ::
  "('rdb, 'cf, 'wb, 'snap, 'txn, 'err) rocksdb_api \<Rightarrow> ('rdb, 'snap, 'id) rocks_db \<Rightarrow> database_key \<Rightarrow> 'wb option \<Rightarrow>
     ('err rocks_db_error db_failure + bytes option) \<times> ('rdb, 'snap, 'id) rocks_db \<times> 'wb option" where
  "rocks_remove A db key batch =
     (case cf_handle A (rdb db) (get_cf_name key) of
        None \<Rightarrow> (Inl (DbPanic CF_ERROR), db, batch)
      | Some handle \<Rightarrow>
          (case from_error (get_cf A (rdb db) handle (db_as_slice key)) of
             Inl e \<Rightarrow> (Inl e, db, batch)
           | Inr old \<Rightarrow>
               (case batch of
                  Some b \<Rightarrow> (Inr old, db, Some (batch_delete_cf A b handle (db_as_slice key)))
                | None \<Rightarrow>
                    (case delete_cf A (rdb db) handle (db_as_slice key) of
                       (Inl e, r) \<Rightarrow> (from_error (Inl e), db\<lparr>rdb := r\<rparr>, None)
                     | (Inr _, r) \<Rightarrow> (Inr old, db\<lparr>rdb := r\<rparr>, None)))))"

definition rocks_write_batch ::
  "('rdb, 'cf, 'wb, 'snap, 'txn, 'err) rocksdb_api \<Rightarrow> ('rdb, 'snap, 'id) rocks_db \<Rightarrow> 'wb \<Rightarrow>
     ('err rocks_db_error db_failure + unit) \<times> ('rdb, 'snap, 'id) rocks_db" where
  "rocks_write_batch A db batch =
     (case rdb_write A (rdb db) batch of (r, d) \<Rightarrow> (from_error r, db\<lparr>rdb := d\<rparr>))"

text \<open>The loop of \<open>remove_by_prefix\<close>, which fills a batch with deletions.\<close>

fun delete_prefixed ::
  "('rdb, 'cf, 'wb, 'snap, 'txn, 'err) rocksdb_api \<Rightarrow> 'cf \<Rightarrow> bytes \<Rightarrow> ('err + bytes \<times> bytes) list \<Rightarrow> 'wb \<Rightarrow> 'wb" where
  "delete_prefixed A handle p [] batch = batch"
| "delete_prefixed A handle p (Inl e # items) batch = batch"
| "delete_prefixed A handle p (Inr (key, value) # items) batch =
     (if prefix p key then delete_prefixed A handle p items (batch_delete_cf A batch handle key) else batch)"

definition rocks_remove_by_prefix ::
  "('rdb, 'cf, 'wb, 'snap, 'txn, 'err) rocksdb_api \<Rightarrow> ('rdb, 'snap, 'id) rocks_db \<Rightarrow> database_key \<Rightarrow>
     ('err rocks_db_error db_failure + unit) \<times> ('rdb, 'snap, 'id) rocks_db" where
  "rocks_remove_by_prefix A db p =
     (case cf_handle A (rdb db) (get_cf_name p) of
        None \<Rightarrow> (Inl (DbPanic CF_ERROR), db)
      | Some handle \<Rightarrow>
          rocks_write_batch A db
            (delete_prefixed A handle (db_as_slice p) (iterator_cf A (rdb db) handle (db_as_slice p))
               (rocks_create_batch A db)))"

definition rocks_ops ::
  "('rdb, 'cf, 'wb, 'snap, 'txn, 'err) rocksdb_api \<Rightarrow>
     (('rdb, 'snap, 'id) rocks_db, 'wb, 'err rocks_db_error) db_ops" where
  "rocks_ops A =
     \<lparr>create_batch = rocks_create_batch A, db_get = rocks_get A, db_get_by_prefix = rocks_get_by_prefix A,
      db_contains = rocks_contains A, db_insert = rocks_insert A, db_remove = rocks_remove A,
      db_remove_by_prefix = rocks_remove_by_prefix A, db_write_batch = rocks_write_batch A\<rparr>"

section \<open>Transactions\<close>

text \<open>The snapshot of the read options is the only option that is set.\<close>

record ('txn, 'snap, 'cf) rocks_db_transaction =
  txn :: 'txn
  read_options :: 'snap
  column_families :: "(string, 'cf) hash_map"

definition txn_cf :: "('txn, 'snap, 'cf) rocks_db_transaction \<Rightarrow> database_key \<Rightarrow> 'cf option" where
  "txn_cf t key = hm_get (column_families t) (get_cf_name key)"

definition rocks_txn_create_batch ::
  "('rdb, 'cf, 'wb, 'snap, 'txn, 'err) rocksdb_api \<Rightarrow> ('txn, 'snap, 'cf) rocks_db_transaction \<Rightarrow> 'wb" where
  "rocks_txn_create_batch A t = txn_get_writebatch A (txn t)"

definition rocks_txn_insert ::
  "('rdb, 'cf, 'wb, 'snap, 'txn, 'err) rocksdb_api \<Rightarrow> ('txn, 'snap, 'cf) rocks_db_transaction \<Rightarrow> database_key \<Rightarrow> bytes \<Rightarrow> 'wb option \<Rightarrow>
     ('err rocks_db_error db_failure + bytes option) \<times> ('txn, 'snap, 'cf) rocks_db_transaction \<times> 'wb option" where
  "rocks_txn_insert A t key value batch =
     (case txn_cf t key of
        None \<Rightarrow> (Inl (DbPanic CF_ERROR), t, batch)
      | Some handle_cf \<Rightarrow>
          (case from_error (txn_get_cf_opt A (txn t) handle_cf (db_as_slice key) (read_options t)) of
             Inl e \<Rightarrow> (Inl e, t, batch)
           | Inr old \<Rightarrow>
               (case batch of
                  Some b \<Rightarrow> (Inr old, t, Some (batch_put_cf A b handle_cf (db_as_slice key) value))
                | None \<Rightarrow>
                    (case txn_put_cf A (txn t) handle_cf (db_as_slice key) value of
                       (Inl e, r) \<Rightarrow> (from_error (Inl e), t\<lparr>txn := r\<rparr>, None)
                     | (Inr _, r) \<Rightarrow> (Inr old, t\<lparr>txn := r\<rparr>, None)))))"

definition rocks_txn_get ::
  "('rdb, 'cf, 'wb, 'snap, 'txn, 'err) rocksdb_api \<Rightarrow> ('txn, 'snap, 'cf) rocks_db_transaction \<Rightarrow> database_key \<Rightarrow>
     'err rocks_db_error db_failure + bytes option" where
  "rocks_txn_get A t key =
     expect_cf (txn_cf t key) (\<lambda>handle.
       from_error (txn_get_cf_opt A (txn t) handle (db_as_slice key) (read_options t)))"

text \<open>The iterator is not given the read options.\<close>

definition rocks_txn_get_by_prefix ::
  "('rdb, 'cf, 'wb, 'snap, 'txn, 'err) rocksdb_api \<Rightarrow> ('txn, 'snap, 'cf) rocks_db_transaction \<Rightarrow> database_key \<Rightarrow>
     'err rocks_db_error db_failure + (bytes \<times> bytes) list" where
  "rocks_txn_get_by_prefix A t p =
     expect_cf (txn_cf t p) (\<lambda>handle.
       Inr (while_prefix (db_as_slice p) (txn_iterator_cf A (txn t) handle (db_as_slice p))))"

definition rocks_txn_contains ::
  "('rdb, 'cf, 'wb, 'snap, 'txn, 'err) rocksdb_api \<Rightarrow> ('txn, 'snap, 'cf) rocks_db_transaction \<Rightarrow> database_key \<Rightarrow>
     'err rocks_db_error db_failure + bool" where
  "rocks_txn_contains A t key =
     expect_cf (txn_cf t key) (\<lambda>handle.
       from_error (map_sum id (\<lambda>value. value \<noteq> None)
         (txn_get_cf_opt A (txn t) handle (db_as_slice key) (read_options t))))"

definition rocks_txn_remove ::
  "('rdb, 'cf, 'wb, 'snap, 'txn, 'err) rocksdb_api \<Rightarrow> ('txn, 'snap, 'cf) rocks_db_transaction \<Rightarrow> database_key \<Rightarrow> 'wb option \<Rightarrow>
     ('err rocks_db_error db_failure + bytes option) \<times> ('txn, 'snap, 'cf) rocks_db_transaction \<times> 'wb option" where
  "rocks_txn_remove A t key batch =
     (case txn_cf t key of
        None \<Rightarrow> (Inl (DbPanic CF_ERROR), t, batch)
      | Some handle \<Rightarrow>
          (case from_error (txn_get_cf_opt A (txn t) handle (db_as_slice key) (read_options t)) of
             Inl e \<Rightarrow> (Inl e, t, batch)
           | Inr old \<Rightarrow>
               (case batch of
                  Some b \<Rightarrow> (Inr old, t, Some (batch_delete_cf A b handle (db_as_slice key)))
                | None \<Rightarrow>
                    (case txn_delete_cf A (txn t) handle (db_as_slice key) of
                       (Inl e, r) \<Rightarrow> (from_error (Inl e), t\<lparr>txn := r\<rparr>, None)
                     | (Inr _, r) \<Rightarrow> (Inr old, t\<lparr>txn := r\<rparr>, None)))))"

definition rocks_txn_write_batch ::
  "('rdb, 'cf, 'wb, 'snap, 'txn, 'err) rocksdb_api \<Rightarrow> ('txn, 'snap, 'cf) rocks_db_transaction \<Rightarrow> 'wb \<Rightarrow>
     ('err rocks_db_error db_failure + unit) \<times> ('txn, 'snap, 'cf) rocks_db_transaction" where
  "rocks_txn_write_batch A t batch =
     (case txn_rebuild_from_writebatch A (txn t) batch of (r, x) \<Rightarrow> (from_error r, t\<lparr>txn := x\<rparr>))"

definition rocks_txn_remove_by_prefix ::
  "('rdb, 'cf, 'wb, 'snap, 'txn, 'err) rocksdb_api \<Rightarrow> ('txn, 'snap, 'cf) rocks_db_transaction \<Rightarrow> database_key \<Rightarrow>
     ('err rocks_db_error db_failure + unit) \<times> ('txn, 'snap, 'cf) rocks_db_transaction" where
  "rocks_txn_remove_by_prefix A t p =
     (let batch = rocks_txn_create_batch A t in
      case txn_cf t p of
        None \<Rightarrow> (Inl (DbPanic CF_ERROR), t)
      | Some handle \<Rightarrow>
          rocks_txn_write_batch A t
            (delete_prefixed A handle (db_as_slice p) (txn_iterator_cf A (txn t) handle (db_as_slice p)) batch))"

definition rocks_txn_ops ::
  "('rdb, 'cf, 'wb, 'snap, 'txn, 'err) rocksdb_api \<Rightarrow>
     (('txn, 'snap, 'cf) rocks_db_transaction, 'wb, 'err rocks_db_error) db_ops" where
  "rocks_txn_ops A =
     \<lparr>create_batch = rocks_txn_create_batch A, db_get = rocks_txn_get A, db_get_by_prefix = rocks_txn_get_by_prefix A,
      db_contains = rocks_txn_contains A, db_insert = rocks_txn_insert A, db_remove = rocks_txn_remove A,
      db_remove_by_prefix = rocks_txn_remove_by_prefix A, db_write_batch = rocks_txn_write_batch A\<rparr>"

section \<open>Snapshots\<close>

text \<open>The loop of \<open>pop_first\<close> until there are no more than the limit.\<close>

fun pop_first_until :: "nat \<Rightarrow> 'a list \<Rightarrow> 'a list" where
  "pop_first_until n [] = []"
| "pop_first_until n (x # xs) = (if n < length (x # xs) then pop_first_until n xs else x # xs)"

definition rocks_snapshot ::
  "('rdb, 'cf, 'wb, 'snap, 'txn, 'err) rocksdb_api \<Rightarrow> ('rdb, 'snap, 'id::linorder) rocks_db \<Rightarrow> 'id \<Rightarrow>
     ('rdb, 'snap, 'id) rocks_db" where
  "rocks_snapshot A db i =
     (let snaps = btree_insert i (rdb_snapshot A (rdb db)) (rocks_snapshots db) in
      db\<lparr>rocks_snapshots :=
           (case rocks_max_saved_snapshots (rocks_config db) of
              None \<Rightarrow> snaps
            | Some max_number_snapshot \<Rightarrow> pop_first_until (unat max_number_snapshot) snaps)\<rparr>)"

definition rocks_transaction ::
  "('rdb, 'cf, 'wb, 'snap, 'txn, 'err) rocksdb_api \<Rightarrow> ('rdb, 'snap, 'id::linorder) rocks_db \<Rightarrow> 'id \<Rightarrow>
     string + ('id \<times> ('txn, 'snap, 'cf) rocks_db_transaction) option" where
  "rocks_transaction A db i =
     (case btree_first_below i (rocks_snapshots db) of
        Some (i', snapshot) \<Rightarrow>
          (let t = transaction_opt A (rdb db) in
           case (cf_handle A (rdb db) TRIE_LOG_CF, cf_handle A (rdb db) TRIE_CF, cf_handle A (rdb db) FLAT_CF) of
             (Some log_cf, Some trie_cf, Some flat_cf) \<Rightarrow>
               (let cfs = hm_insert FLAT_CF flat_cf (hm_insert TRIE_CF trie_cf (hm_insert TRIE_LOG_CF log_cf []))
                in Inr (Some (i', \<lparr>txn = t, read_options = snapshot, column_families = cfs\<rparr>)))
           | _ \<Rightarrow> Inl CF_ERROR)
      | None \<Rightarrow> Inr None)"

definition rocks_merge ::
  "('rdb, 'cf, 'wb, 'snap, 'txn, 'err) rocksdb_api \<Rightarrow> ('rdb, 'snap, 'id) rocks_db \<Rightarrow> ('txn, 'snap, 'cf) rocks_db_transaction \<Rightarrow>
     ('err rocks_db_error db_failure + unit) \<times> ('rdb, 'snap, 'id) rocks_db" where
  "rocks_merge A db transaction =
     (case txn_commit A (txn transaction) (rdb db) of (r, d) \<Rightarrow> (from_error r, db\<lparr>rdb := d\<rparr>))"

definition rocks_persistent ::
  "('rdb, 'cf, 'wb, 'snap, 'txn, 'err) rocksdb_api \<Rightarrow>
     (('rdb, 'snap, 'id::linorder) rocks_db, 'id, ('txn, 'snap, 'cf) rocks_db_transaction, 'err rocks_db_error) persistent_ops" where
  "rocks_persistent A =
     \<lparr>db_snapshot = rocks_snapshot A, db_transaction = rocks_transaction A, db_merge = rocks_merge A\<rparr>"

end
