(* ===== verification/Root_Cache.thy ===== *)
theory Root_Cache
  imports Tree_Frame
begin

text \<open>
  The hash that a root node was loaded with. Setting a leaf resets the hash of the node where the
  walk ends, not those of the nodes above; while the root is above, its hash stays what it was,
  and so does the root hash that the tree reports.
\<close>

section \<open>The cached hash of the root\<close>

definition root_cached :: "nat \<Rightarrow> 'f \<Rightarrow> 'f merkle_tree \<Rightarrow> bool" where
  "root_cached r x t \<longleftrightarrow>
     root_node t = Some (Loaded r) \<and> map_option get_hash (slots t r) = Some (Some x) \<and> sm_wf (nodes t)"

lemma root_cached_hash: "root_cached r x t \<Longrightarrow> tree_root_hash F db t = Inr x"
  by (auto simp: root_cached_def tree_root_hash_def sm_get_def)

lemma root_cached_simps [simp]:
  "root_cached r x (cache_insert k v t) = root_cached r x t" "root_cached r x (death_row_insert key t) = root_cached r x t"
  by (simp_all add: root_cached_def)

lemma root_cached_insert: "nodes_insert n t = (k, t') \<Longrightarrow> root_cached r x t \<Longrightarrow> root_cached r x t'"
  using sm_wf_insert [of "nodes t" n] sm_insert_fresh [of "nodes t" n]
  by (auto simp: root_cached_def nodes_insert_def sm_insert_def sm_get_def Let_def)

lemma root_cached_assign: "k = r \<longrightarrow> get_hash n = Some x \<Longrightarrow> keeps (root_cached r x) (nodes_assign k n)"
  by (auto simp: keeps_def root_cached_def nodes_assign_def intro: sm_wf_set)

lemma root_cached_assign_other [simp]: "k \<noteq> r \<Longrightarrow> root_cached r x t \<Longrightarrow> root_cached r x (snd (nodes_assign k n t))"
  by (rule keepsD [OF root_cached_assign]) simp_all

section \<open>Setting a leaf\<close>

lemma root_cached_seek: "keeps (root_cached r x) (seek_path F fuel db key)"
proof (rule keeps_seek_path)
  have load: "keeps (root_cached r x) (load_db_node F db key)" for key
    by (auto simp: keeps_def load_db_node_def root_cached_insert split: option.split sum.split prod.split)
  have "keeps (root_cached r x) (load_node_handle F db h p)" for h p
    using keepsE [OF load]
    by (fastforce simp: keeps_def load_node_handle_def bindS_def split: node_handle.split option.split sum.split prod.split)
  moreover have "root_cached r x (t\<lparr>nodes := sm_set k n' (nodes t)\<rparr>)"
    if "root_cached r x t" "slots t k = Some n" "get_hash n' = get_hash n" for k t n n'
    using that sm_wf_set [of "nodes t" k n'] by (auto simp: root_cached_def sm_get_def)
  ultimately show "walk_keeps (root_cached r x) F db" by (simp add: walk_keeps_def)
qed (simp add: keeps_def load_root_node_def root_cached_def)

lemma root_cached_set_edge:
  assumes "k \<noteq> r"
  shows "keeps (root_cached r x) (set_edge off key value k edge)"
proof (rule keepsI)
  fix t :: "'a merkle_tree"
  assume t: "root_cached r x t"
  let ?bh = "e_height edge + length (common_path edge key)"
  show "root_cached r x (snd (set_edge off key value k edge t))"
  proof (cases "?bh \<noteq> length key \<and> ?bh + 1 \<le> length key \<and> length (common_path edge key) + 1 \<le> length (e_path edge)")
    case True
    then show ?thesis
      using assms t
      by (auto simp: set_edge_def Let_def bindS_def split del: if_split split: prod.split)
         (auto dest!: root_cached_insert [where r = r and x = x] split: if_splits)
  next
    case False
    then show ?thesis
      using assms t by (auto simp: set_edge_def Let_def bindS_def slice_from_def)
  qed
qed

lemma root_cached_set_binary: "k \<noteq> r \<Longrightarrow> keeps (root_cached r x) (set_binary off key value k binary)"
  by (auto simp: keeps_def set_binary_def Let_def bindS_def split: sum.split intro!: keepsD [OF root_cached_assign])

lemma load_root_cached:
  assumes "load_root_node F db t = (Inr (Some k), t')" "tree_root_hash F db t = Inr x" "sm_wf (nodes t)"
  shows "root_cached k x t'"
proof -
  have "root_cached k x (t'\<lparr>root_node := Some (Loaded k)\<rparr>)" if "nodes_insert n t = (k, t')" "get_hash n = Some x" for n t'
    using that assms(3) sm_wf_insert [of "nodes t" n] by (auto simp: root_cached_def nodes_insert_def sm_insert_def Let_def)
  then show ?thesis
    using assms
    by (auto simp: load_root_node_def tree_root_hash_def load_db_node_def get_trie_branch_in_db_from_path_def bindS_def
        path_encode_Nil root_cached_def sm_get_def Let_def and_then_def
        split: option.splits root_handle.splits if_splits sum.splits prod.splits)
qed

lemma seek_path_loaded:
  assumes "key \<noteq> []" "load_root_node F db t = (Inr (Some k), t')" "root_node t' = Some (Loaded k)"
  shows "seek_path F fuel db key t = seek_path F fuel db key t'"
proof -
  have "load_root_node F db t' = (Inr (Some k), t')" using assms(3) by (simp add: load_root_node_def)
  then show ?thesis using assms(1,2) by (simp add: seek_path_start)
qed

text \<open>Below a binary root, the walk ends at another node.\<close>

lemma opened_below_root:
  assumes "opened F db t (PBin l r) key hs fs g kr" "root_node t = Some (Loaded k)" "1 < length key"
  shows "fst (last hs) \<noteq> k \<and> hs \<noteq> []"
proof -
  note op = assms(1) [unfolded opened_def]
  obtain f fs' where fs: "fs = f # fs'"
  proof (cases fs)
    case Nil
    then have "stuck g key" "erase g = PBin l r" using op by (auto simp: cbits_def)
    then show thesis using assms(3) by (cases g) auto
  qed (use that in blast)
  have inv: "gtree_inv F db t (InMemory k) (fill fs g)" using op assms(2) by auto
  then have "gid (fill fs g) = Some k" using rep_InMemory_gid by (fastforce simp: gtree_inv_def)
  then have "fid f = k" unfolding fs by (cases f) (auto split: if_splits)
  moreover have "the (gid g) \<in> set (ids g)" using op by (cases g) auto
  moreover have "set (fr_ids fs) \<inter> set (ids g) = {}" using inv by (simp add: gtree_inv_def distinct_ids_fr)
  ultimately have "the (gid g) \<noteq> k" unfolding fs by auto
  moreover have "map fst hs = map fid fs @ [the (gid g)]" using op by blast
  ultimately show ?thesis by (metis append_is_Nil_conv last_map last_snoc list.simps(8) not_Cons_self2)
qed

lemma set_walk_keeps_root_hash:
  fixes db :: "'e db_view"
  assumes inv: "tree_inv F db t (Some (PBin l r))" and key: "length key = height_of t" "height_of t \<le> fuel" "1 < height_of t"
    and root: "tree_root_hash F db t = Inr x"
  shows "tree_root_hash F db (snd (set_walk off F fuel db key v t)) = Inr x"
proof -
  obtain k ns where load: "load_root_node F db t = (Inr (Some k), t\<lparr>nodes := ns, root_node := Some (Loaded k)\<rparr>)"
    by (rule load_root_node_Some [OF inv]) blast
  let ?t1 = "t\<lparr>nodes := ns, root_node := Some (Loaded k)\<rparr>"
  have c1: "root_cached k x ?t1" using load_root_cached [OF load root] inv by (simp add: tree_inv_def)
  obtain hs ns' k' fs g kr where seek: "seek_path F fuel db key t = (Inr hs, t\<lparr>nodes := ns', root_node := Some (Loaded k')\<rparr>)"
    "opened F db (t\<lparr>nodes := ns', root_node := Some (Loaded k')\<rparr>) (PBin l r) key hs fs g kr"
    by (rule seek_path_Some [OF inv key(1,2)])
  let ?t2 = "t\<lparr>nodes := ns', root_node := Some (Loaded k')\<rparr>"
  have "key \<noteq> []" using key by auto
  then have "seek_path F fuel db key ?t1 = (Inr hs, ?t2)" using seek_path_loaded [OF _ load] seek(1) by simp
  from keepsE [OF root_cached_seek this c1] have c2: "root_cached k x ?t2" .
  then have "k' = k" by (simp add: root_cached_def)
  then have last: "fst (last hs) \<noteq> k" "hs \<noteq> []" using opened_below_root [OF seek(2), of k] key by simp_all
  have "keeps (root_cached k x) (bindS (get_node_mut (fst (last hs))) (\<lambda>node. case node of
      Edge edge \<Rightarrow> set_edge off key v (fst (last hs)) edge | Binary binary \<Rightarrow> set_binary off key v (fst (last hs)) binary))"
    using last by (intro keeps_bindS keeps_get_node_mut) (auto split: node.split intro: root_cached_set_edge root_cached_set_binary)
  from keepsD [OF this c2] have "root_cached k x (snd (set_walk off F fuel db key v t))"
    using seek(1) last(2) by (simp add: set_walk_def bindS_def [of "seek_path F fuel db key"] case_prod_unfold)
  then show ?thesis by (rule root_cached_hash)
qed

text \<open>While the root is a binary node above the leaves, setting a leaf does not change what the tree reports.\<close>

lemma tree_set_keeps_root_hash:
  fixes db :: "'e db_view"
  assumes inv: "tree_inv F db t (Some (PBin l r))" and key: "length key = height_of t" "height_of t \<le> fuel" "1 < height_of t"
    and v: "v \<noteq> ZERO F" and root: "tree_root_hash F db t = Inr x"
  shows "tree_root_hash F db (snd (tree_set off F fuel db key v t)) = Inr x"
proof -
  have "tree_root_hash F db (cache_insert kb y t) = Inr x" for kb y
    using root unfolding tree_root_hash_def cache_insert_simps .
  then show ?thesis
    using set_walk_keeps_root_hash [OF inv key root, of off v] v root
    unfolding tree_set_def Let_def set_walk_def [symmetric]
    by (simp add: bindS_def [of "liftS _"] split: option.split insert_or_remove.split sum.split)
qed

end
