(* ===== verification/Storage_Queries.thy ===== *)
theory Storage_Queries
  imports Storage_Correct Root_Cache
begin

text \<open>
  What the storage answers besides single reads: the lists of keys and of key-value pairs, which
  come from the store alone and so show the maps of the last commit, and the shape of its trees
  in memory.
\<close>

section \<open>Keys and pairs\<close>

text \<open>How the lists show a key: without the identifier and the byte with its length.\<close>

definition shown_key :: "nat \<Rightarrow> bits \<Rightarrow> bytes" where
  "shown_key off k = tl (bitslice_to_bytes off k)"

lemma leaf_key_parts: "k \<noteq> [] \<Longrightarrow> bitslice_to_bytes off k = word_of_nat (length k) # shown_key off k"
  by (simp add: shown_key_def bitslice_to_bytes_def)

lemma shown_key_inj:
  assumes "shown_key off k = shown_key off k'" "length k = length k'" "length k \<le> 255"
  shows "k = k'"
proof (cases "k = []")
  case False
  then have "k' \<noteq> []" using assms(2) by auto
  then show ?thesis using False assms by (intro bitslice_to_bytes_inj) (simp_all add: leaf_key_parts)
qed (use assms in simp)

lemma height_byte: "unat (h :: byte) \<le> 255"
proof -
  have "unat h < 2 ^ LENGTH(8)" by (rule unsigned_less)
  then show ?thesis by simp
qed

text \<open>The keys of an association list under other names.\<close>

lemma map_of_rename:
  "inj_on f (insert x (fst ` set xs)) \<Longrightarrow> map_of (map (\<lambda>(k, v). (f k, v)) xs) (f x) = map_of xs x"
  by (induction xs) (auto simp: inj_on_def)

lemma leaf_keys_inj:
  "inj_on (drop (length i + 1)) {i @ bitslice_to_bytes off k | k. length k = unat (h :: byte) \<and> k \<noteq> []}"
proof (rule inj_onI)
  let ?K = "{i @ bitslice_to_bytes off k | k. length k = unat h \<and> k \<noteq> []}"
  fix b b' assume b: "b \<in> ?K" "b' \<in> ?K" "drop (length i + 1) b = drop (length i + 1) b'"
  obtain k where k: "b = i @ bitslice_to_bytes off k" "length k = unat h" "k \<noteq> []" using b(1) by blast
  obtain k' where k': "b' = i @ bitslice_to_bytes off k'" "length k' = unat h" "k' \<noteq> []" using b(2) by blast
  have "shown_key off k = shown_key off k'" using b(3) k k' by (simp add: leaf_key_parts)
  then have "k = k'" using shown_key_inj k(2) k'(2) height_byte [of h] by simp
  then show "b = b'" using k(1) k'(1) by simp
qed

context persistent_store
begin

text \<open>The leaves that the store lists under an identifier.\<close>

lemma listed_leaf:
  assumes inv: "storage_inv off F B ok Ids h s c c0 d m m0" and ids: "prefix_free Ids" "i \<in> Ids"
    and v: "view (kv_db (ts_db (tries s))) (DbFlat b) = Some v" "prefix i b"
  obtains k where "b = i @ bitslice_to_bytes off k" "length k = unat h" "k \<noteq> []"
proof -
  let ?db = "kv_get B (ts_db (tries s))"
  note inv' = inv [unfolded storage_inv_def]
  have "?db (Flat b) = Inr (Some v)" using kv_get_view [of "ts_db (tries s)" "Flat b"] inv' v(1) by simp
  then obtain j k where j: "j \<in> Ids" "length k = unat h" "b = j @ bitslice_to_bytes off k"
    using inv' unfolding flat_only_def by (metis option.discI sum.inject(2))
  have "j = i" using prefix_freeD [OF ids(1) j(1) ids(2), of b] j(3) v(2) by simp
  moreover have "0 < unat h" using inv' ids(2) by (auto simp: tree_ok_def tree_inv_def height_of_def tree_new_sel)
  ultimately show thesis using j that by force
qed

lemma stored_leaf:
  assumes inv: "storage_inv off F B ok Ids h s c c0 d m m0" and i: "i \<in> Ids" and k: "length k = unat h"
  shows "Option.bind (view (kv_db (ts_db (tries s))) (DbFlat (i @ bitslice_to_bytes off k))) (felt_decode F) = c0 i k"
    "view (kv_db (ts_db (tries s))) (DbFlat (i @ bitslice_to_bytes off k)) = None \<longleftrightarrow> c0 i k = None"
proof -
  let ?db = "kv_get B (ts_db (tries s))"
  note inv' = inv [unfolded storage_inv_def]
  have "tree_get off F ?db (tree_new i h) k = Inr (c0 i k)"
    using inv' i k by (auto simp: tree_ok_def leaf_inv_def height_of_def tree_new_sel trie_of_def)
  moreover have "?db (leaf_key off i k) = Inr (view (kv_db (ts_db (tries s))) (DbFlat (i @ bitslice_to_bytes off k)))"
    using kv_get_view [of "ts_db (tries s)"] inv' by simp
  ultimately show "Option.bind (view (kv_db (ts_db (tries s))) (DbFlat (i @ bitslice_to_bytes off k))) (felt_decode F) = c0 i k"
    "view (kv_db (ts_db (tries s))) (DbFlat (i @ bitslice_to_bytes off k)) = None \<longleftrightarrow> c0 i k = None"
    by (auto simp: tree_get_def tree_new_def Let_def decode_flat_def dest!: sym [of "Some _"] split: option.splits)
qed

lemma storage_lists_inv:
  fixes s :: "('f, 'db, 'id) bonsai_storage"
  assumes inv: "storage_inv off F B ok Ids h s c c0 d m m0" and ids: "prefix_free Ids" "i \<in> Ids"
  shows "\<exists>ps. storage_get_key_value_pairs B s i = (Inr ps :: ('e, (bytes \<times> bytes) list) outcome) \<and>
    storage_get_keys B s i = (Inr (map fst ps) :: ('e, bytes list) outcome) \<and> distinct (map fst ps) \<and>
    fst ` set ps = {shown_key off k | k. length k = unat h \<and> c0 i k \<noteq> None} \<and>
    (\<forall>k. length k = unat h \<longrightarrow> Option.bind (map_of ps (shown_key off k)) (felt_decode F) = c0 i k)"
proof -
  let ?db = "kv_db (ts_db (tries s))" and ?sh = "\<lambda>b. drop (length i + 1) b"
  have ok: "ok ?db" using inv by (simp add: storage_inv_def)
  obtain xs where xs: "db_get_by_prefix B ?db (DbFlat i) = Inr xs" "distinct (map fst xs)"
    "\<And>b. map_of xs b = (if prefix i b then view ?db (DbFlat b) else None)"
    using prefix_view [OF ok, of "DbFlat i"] by auto
  have key: "\<exists>k. b = i @ bitslice_to_bytes off k \<and> length k = unat h \<and> k \<noteq> []" if "(b, v) \<in> set xs" for b v
  proof -
    have "map_of xs b = Some v" using that xs(2) by simp
    then show ?thesis using xs(3) [of b] listed_leaf [OF inv ids, of b v] by (auto split: if_splits)
  qed
  let ?K = "{i @ bitslice_to_bytes off k | k. length k = unat h \<and> k \<noteq> []}" and ?ps = "map (\<lambda>(key, value). (?sh key, value)) xs"
  have sub: "fst ` set xs \<subseteq> ?K" using key by force
  have sh: "?sh (i @ bitslice_to_bytes off k) = shown_key off k" if "k \<noteq> []" for k using that by (simp add: leaf_key_parts)
  note inj = leaf_keys_inj [of i off h]
  have pos: "k \<noteq> []" if "length k = unat h" for k
    using that inv ids(2) by (auto simp: storage_inv_def tree_ok_def tree_inv_def height_of_def tree_new_sel)
  have "distinct (map ?sh (map fst xs))"
    unfolding distinct_map [of ?sh] using xs(2) inj_on_subset [OF inj sub] by simp
  then have dist: "distinct (map fst ?ps)" by (simp add: comp_def case_prod_unfold)
  have look: "map_of ?ps (shown_key off k) = view ?db (DbFlat (i @ bitslice_to_bytes off k))" if k: "length k = unat h" for k
  proof -
    have "i @ bitslice_to_bytes off k \<in> ?K" using k pos by blast
    then have "insert (i @ bitslice_to_bytes off k) (fst ` set xs) \<subseteq> ?K" using sub by blast
    from map_of_rename [OF inj_on_subset [OF inj this]] show ?thesis using sh pos [OF k] xs(3) by simp
  qed
  have "x \<in> fst ` set ?ps \<longleftrightarrow> x \<in> {shown_key off k | k. length k = unat h \<and> c0 i k \<noteq> None}" for x
  proof -
    have "\<exists>k. x = shown_key off k \<and> length k = unat h" if "x \<in> fst ` set ?ps"
      using that key sh by fastforce
    moreover have "x \<in> fst ` set ?ps \<longleftrightarrow> map_of ?ps x \<noteq> None" by (metis map_of_eq_None_iff)
    moreover have "map_of ?ps (shown_key off k) \<noteq> None \<longleftrightarrow> c0 i k \<noteq> None" if "length k = unat h" for k
      using look [OF that] stored_leaf(2) [OF inv ids(2) that] by simp
    ultimately show ?thesis unfolding mem_Collect_eq by metis
  qed
  then have "fst ` set ?ps = {shown_key off k | k. length k = unat h \<and> c0 i k \<noteq> None}" by blast
  moreover have "length i < length b" if "(b, v) \<in> set xs" for b v
    using key [OF that] by (auto simp: leaf_key_parts)
  then have all: "filter (\<lambda>(key, _). length i < length key) xs = xs" by (auto simp: filter_id_conv)
  have "storage_get_key_value_pairs B s i = (Inr ?ps :: ('e, (bytes \<times> bytes) list) outcome)"
    "storage_get_keys B s i = (Inr (map fst ?ps) :: ('e, bytes list) outcome)"
    using xs(1) all
    by (simp_all add: storage_get_key_value_pairs_def storage_get_keys_def trees_get_key_value_pairs_def trees_get_keys_def
        db_result_def case_prod_unfold)
  ultimately show ?thesis using dist look stored_leaf(1) [OF inv ids(2)] by (intro exI [of _ ?ps]) simp
qed

end

section \<open>The nodes in memory\<close>

text \<open>The slots that a node refers to.\<close>

definition handle_slot :: "'f node_handle \<Rightarrow> nat list" where
  "handle_slot h = (case h of InMemory k \<Rightarrow> [k] | Hash _ \<Rightarrow> [])"

fun slot_refs :: "'f node \<Rightarrow> nat list" where
  "slot_refs (Binary b) = handle_slot (b_left b) @ handle_slot (b_right b)"
| "slot_refs (Edge e) = handle_slot (e_child e)"

fun node_fits :: "nat \<Rightarrow> 'f node \<Rightarrow> bool" where
  "node_fits n (Binary b) \<longleftrightarrow> b_height b < n"
| "node_fits n (Edge e) \<longleftrightarrow> e_path e \<noteq> [] \<and> e_height e + length (e_path e) \<le> n"

text \<open>All references in a tree: that of the root, and those of the nodes in slot order.\<close>

definition all_refs :: "'f merkle_tree \<Rightarrow> nat list" where
  "all_refs t = (case root_node t of Some (Loaded r) \<Rightarrow> [r] | _ \<Rightarrow> []) @
     concat (map (\<lambda>k. slot_refs (the (slots t k))) (sorted_list_of_set (dom (slots t))))"

text \<open>
  The slot map of a tree holds one tree: every reference is to a slot in use, no slot is referred
  to twice, and every node lies between the root and the leaves.
\<close>

definition slots_typed :: "'f merkle_tree \<Rightarrow> bool" where
  "slots_typed t \<longleftrightarrow> distinct (all_refs t) \<and> set (all_refs t) \<subseteq> dom (slots t) \<and> (\<forall>n \<in> ran (slots t). node_fits (height_of t) n)"

lemma rep_handle: "rep F ns st p h g \<Longrightarrow> handle_slot h = id_list (gid g)"
  by (cases g; cases "gid g") (auto simp: handle_slot_def at_handle_def)

lemma rep_refs:
  "rep F ns st p h g \<Longrightarrow> mset (concat (map (\<lambda>k. slot_refs (the (ns k))) (ids g))) + mset (id_list (gid g)) \<subseteq># mset (ids g)"
proof (induction g arbitrary: p h)
  case (GBin i l r)
  let ?refs = "\<lambda>g. mset (concat (map (\<lambda>k. slot_refs (the (ns k))) (ids g)))"
  obtain b where b: "at_handle ns st p h i (phash F (erase (GBin i l r))) (Binary b)"
    "rep F ns st (p @ [False]) (b_left b) l" "rep F ns st (p @ [True]) (b_right b) r" using GBin.prems by auto
  have "(?refs l + mset (id_list (gid l))) + (?refs r + mset (id_list (gid r))) \<subseteq># mset (ids l) + mset (ids r)"
    using GBin.IH b(2,3) by (intro subset_mset.add_mono) blast+
  moreover from this have "?refs l + ?refs r \<subseteq># mset (ids l) + mset (ids r)"
    by (rule subset_mset.order_trans [rotated]) (simp add: subset_mset.add_mono)
  ultimately show ?case
    using b rep_handle [OF b(2)] rep_handle [OF b(3)] by (cases i) (auto simp: at_handle_def ac_simps)
next
  case (GEdge i q c)
  obtain e where e: "at_handle ns st p h i (phash F (erase (GEdge i q c))) (Edge e)" "rep F ns st (p @ q) (e_child e) c"
    using GEdge.prems by auto
  have "mset (concat (map (\<lambda>k. slot_refs (the (ns k))) (ids c))) + mset (id_list (gid c)) \<subseteq># mset (ids c)"
    by (rule GEdge.IH [OF e(2)])
  moreover from this have "mset (concat (map (\<lambda>k. slot_refs (the (ns k))) (ids c))) \<subseteq># mset (ids c)"
    by (rule subset_mset.order_trans [rotated]) simp
  ultimately show ?case
    using e rep_handle [OF e(2)] by (cases i) (auto simp: at_handle_def ac_simps)
qed simp

lemma rep_fits:
  "rep F ns st p h g \<Longrightarrow> pwf (m - length p) (erase g) \<Longrightarrow> length p \<le> m \<Longrightarrow> k \<in> set (ids g) \<Longrightarrow> \<exists>n. ns k = Some n \<and> node_fits m n"
proof (induction g arbitrary: p h)
  case (GBin i l r)
  then consider "i = Some k" | "k \<in> set (ids l)" | "k \<in> set (ids r)" by (cases i) auto
  then show ?case
    using GBin.IH(1) [of "p @ [False]"] GBin.IH(2) [of "p @ [True]"] GBin.prems by cases (auto simp: at_handle_def)
next
  case (GEdge i q c)
  then consider "i = Some k" | "k \<in> set (ids c)" by (cases i) auto
  then show ?case
    using GEdge.IH [of "p @ q"] GEdge.prems by cases (auto simp: at_handle_def)
qed simp

lemma mset_concat_map:
  assumes "mset xs = mset ys"
  shows "mset (concat (map f xs)) = mset (concat (map f ys))"
proof -
  have "mset (concat (map f zs)) = sum_mset (image_mset (\<lambda>x. mset (f x)) (mset zs))" for zs by (induction zs) auto
  then show ?thesis using assms by simp
qed

lemma tree_inv_typed:
  assumes "tree_inv F db t pt"
  shows "slots_typed t"
proof (cases pt)
  case None
  then show ?thesis using assms by (auto simp: tree_inv_def empty_inv_def slots_typed_def all_refs_def)
next
  case (Some p)
  then obtain h g where g: "root_matches t h" "gtree_inv F db t h g" using assms by (auto simp: tree_inv_def)
  note inv = g(2) [unfolded gtree_inv_def]
  have rep: "rep F (slots t) (stored F db t) [] h g" using inv by blast
  have "(case root_node t of Some (Loaded r) \<Rightarrow> [r] | _ \<Rightarrow> []) = id_list (gid g)"
    using g(1) rep_handle [OF rep] by (auto simp: root_matches_def handle_slot_def split: option.splits root_handle.splits)
  moreover have "mset (sorted_list_of_set (dom (slots t))) = mset (ids g)"
    using inv by (metis distinct_sorted_list_of_set finite_set set_eq_iff_mset_eq_distinct set_sorted_list_of_set)
  then have "mset (concat (map (\<lambda>k. slot_refs (the (slots t k))) (sorted_list_of_set (dom (slots t))))) =
      mset (concat (map (\<lambda>k. slot_refs (the (slots t k))) (ids g)))"
    by (rule mset_concat_map)
  ultimately have sub: "mset (all_refs t) \<subseteq># mset (ids g)" using rep_refs [OF rep] by (simp add: all_refs_def add.commute)
  then obtain zs where zs: "mset (ids g) = mset (all_refs t @ zs)"
    by (metis ex_mset mset_append subset_mset.le_iff_add)
  then have "distinct (all_refs t)" "set (all_refs t) \<subseteq> dom (slots t)"
    using inv mset_eq_imp_distinct_iff [OF zs] mset_eq_setD [OF zs] by auto
  moreover have "node_fits (height_of t) n" if n: "n \<in> ran (slots t)" for n
  proof -
    obtain k where "slots t k = Some n" using n by (auto simp: ran_def)
    moreover from this have "k \<in> set (ids g)" using inv by (metis domI)
    ultimately show ?thesis using rep_fits [OF rep, of "height_of t" k] inv by auto
  qed
  ultimately show ?thesis by (simp add: slots_typed_def)
qed

section \<open>Roots and proofs between changes\<close>

text \<open>Two leaves on different sides of the root make it a binary node.\<close>

lemma root_binary:
  assumes "trie_of n f pt" "f k \<noteq> None" "f k' \<noteq> None" "length k = n" "length k' = n" "k = b # q" "k' = (\<not> b) # q'"
  obtains l r where "pt = Some (PBin l r)"
proof -
  obtain p where p: "pt = Some p" "plookup p k \<noteq> None" "plookup p k' \<noteq> None" "pwf n p"
    using assms(1-5) by (cases pt) (auto simp: trie_of_def trie_lookup_def trie_wf_def)
  show thesis
  proof (cases p)
    case (PEdge e c)
    then have "prefix e k" "prefix e k'" "e \<noteq> []" using p by (auto split: if_splits)
    then show thesis using assms(6,7) by (cases e) auto
  qed (use p assms that in auto)
qed

lemma ready_root_hash:
  assumes "proof_ready F db t pt"
  shows "tree_root_hash F db t = Inr (trie_hash F pt)"
proof (cases pt)
  case None
  then have "root_node t = None \<or> root_node t = Some Empty" "absent db t []"
    using assms by (auto simp: proof_ready_def tree_inv_def empty_inv_def)
  then show ?thesis
    using None by (auto simp: tree_root_hash_def get_trie_branch_in_db_from_path_def absent_def trie_hash_def Let_def)
next
  case (Some p)
  then obtain h g where g: "erase g = p" "root_matches t h" "gtree_inv F db t h g" "hashed F (slots t) g" "0 < height_of t"
    using assms by (auto simp: proof_ready_def hashed_inv_def)
  have rep: "rep F (slots t) (stored F db t) [] h g" using g(3) by (simp add: gtree_inv_def)
  have nl: "g \<noteq> GLeaf v" for v using g(3,5) by (auto simp: gtree_inv_def)
  obtain n where at: "at_handle (slots t) (stored F db t) [] h (gid g) (phash F (erase g)) n" using rep rep_repn [OF nl] by blast
  show ?thesis
  proof (cases "gid g")
    case (Some k)
    then have "root_node t = Some (Loaded k)" "slots t k = Some n"
      using at g(2) by (auto simp: at_handle_def root_matches_def split: option.splits root_handle.splits)
    then show ?thesis using hashed_root [OF g(4) Some] g(1) \<open>pt = Some p\<close> by (simp add: tree_root_hash_def sm_get_def trie_hash_def)
  next
    case None
    then have "root_node t = None" "stored F db t [] = Some n" "get_hash n = Some (phash F p)"
      using at g(1,2) by (auto simp: at_handle_def root_matches_def split: option.splits root_handle.splits)
    then show ?thesis
      using \<open>pt = Some p\<close>
      by (auto simp: tree_root_hash_def get_trie_branch_in_db_from_path_def stored_def trie_hash_def Let_def
          split: if_splits sum.splits option.splits)
  qed
qed

context persistent_store
begin

text \<open>Without changes since the last commit, the root hash and the proofs are those of the map.\<close>

lemma storage_root_hash_inv:
  assumes "storage_inv off F B ok Ids h s c c0 {} m m0" "i \<in> Ids"
  shows "storage_root_hash F B s i = Inr (trie_hash F (m i))"
  using assms by (simp add: storage_inv_def storage_root_hash_def trees_root_hash_def ready_root_hash)

lemma storage_multi_proof:
  fixes F :: "'f ext_ops" and s :: "('f, 'db, 'id) bonsai_storage"
  assumes inv: "storage_inv off F B ok Ids h s c c0 {} m m0" and i: "i \<in> Ids" and keys: "\<forall>key \<in> set keys. length key = unat h"
    and m: "m i = Some p" "nodes_apart F p" and fuel: "unat h < fuel"
  shows "\<exists>v s'. storage_get_multi_proof F B i keys s = (Inr v :: ('e, 'f multi_proof) outcome, s') \<and>
    storage_inv off F B ok Ids h s' c c0 {} m m0 \<and> storage_root_hash F B s i = Inr (phash F p) \<and>
    verify_proof F fuel v (phash F p) keys h = map (\<lambda>k. Value (case c i k of None \<Rightarrow> ZERO F | Some x \<Rightarrow> x)) keys"
proof -
  obtain v s' where v: "storage_get_multi_proof F B i keys s = (Inr v :: ('e, 'f multi_proof) outcome, s')"
    "storage_inv off F B ok Ids h s' c c0 {} m m0" "accepts F p h v keys"
    using storage_proof_inv [OF inv i keys] m by blast
  have "trie_of (unat h) (c i) (Some p)" using inv i m(1) by (metis storage_inv_def)
  then have "plookup p k = c i k" if "k \<in> set keys" for k using that keys by (simp add: trie_of_def trie_lookup_def)
  then have "verify_proof F fuel v (phash F p) keys h = map (\<lambda>k. Value (case c i k of None \<Rightarrow> ZERO F | Some x \<Rightarrow> x)) keys"
    using v(3) fuel by (auto simp: accepts_def)
  then show ?thesis using v storage_root_hash_inv [OF inv i] m(1) by (simp add: trie_hash_def)
qed

text \<open>An insertion below a binary root leaves the root hash as it was.\<close>

lemma storage_insert_root_hash:
  fixes F :: "'f ext_ops" and s :: "('f, 'db, 'id) bonsai_storage"
  assumes inv: "storage_inv off F B ok Ids h s c c0 d m m0" and i: "i \<in> Ids" and key: "length key = unat h" and v: "v \<noteq> ZERO F"
    and sides: "c i (b # q) \<noteq> None" "c i ((\<not> b) # q') \<noteq> None" "Suc (length q) = unat h" "Suc (length q') = unat h" "1 < unat h"
    and root: "storage_root_hash F B s i = Inr x"
  shows "storage_root_hash F B (snd (storage_insert off F B i key v s :: ('e, unit) outcome \<times> _)) i = Inr x"
proof -
  let ?db = "kv_get B (ts_db (tries s))" and ?t = "tree_entry (tries s) i"
  have trie: "trie_of (unat h) (c i) (m i)" and ok: "tree_ok off F ?db h Ids i ?t (m i)"
    using inv i by (auto simp: storage_inv_def trees_inv_def)
  obtain l r where "m i = Some (PBin l r)"
    by (rule root_binary [OF trie sides(1,2)]) (use sides in auto)
  then have "tree_inv F ?db ?t (Some (PBin l r))" "height_of ?t = unat h"
    using ok by (simp_all add: tree_ok_def height_of_def)
  then have "tree_root_hash F ?db (snd (tree_set off F LOOP_BOUND ?db key v ?t)) = Inr x"
    using root key v sides(5) height_byte [of h]
    by (intro tree_set_keeps_root_hash) (simp_all add: storage_root_hash_def trees_root_hash_def LOOP_BOUND_def)
  then show ?thesis
    by (simp add: storage_root_hash_def trees_root_hash_def storage_insert_def on_tries_def trees_set_def on_entry_def
        tree_entry_def hm_simps case_prod_unfold)
qed

text \<open>With a snapshot interval of zero a commit panics, but only after everything was written.\<close>

lemma commit_interval_zero:
  fixes F :: "'f ext_ops" and s :: "('f, 'db, 'id) bonsai_storage"
  defines "at_zero cfg \<equiv> s\<lparr>tries := (tries s)\<lparr>ts_db := (ts_db (tries s))\<lparr>config := cfg\<rparr>\<rparr>\<rparr>"
  assumes inv: "storage_inv off F B ok Ids h s c c0 d m m0" and ids: "prefix_free Ids" and codec: "node_codec F" "felt_codec F"
    and zero: "snapshot_interval cfg = 0"
  shows "\<exists>s'. storage_commit F B P I i (at_zero cfg) =
      (Inl (Panic ''attempt to calculate the remainder with a divisor of zero'') :: ('e, unit) outcome, s') \<and>
    (\<forall>j \<in> Ids. storage_root_hash F B s' j = Inr (trie_hash F (m j)) \<and>
       (\<forall>k. length k = unat h \<longrightarrow> storage_get off F B s' j k = Inr (c j k)))"
proof -
  note inv' = inv [unfolded storage_inv_def]
  let ?s = "at_zero cfg"
  have "kv_get B (ts_db (tries ?s)) = kv_get B (ts_db (tries s))" "tree_entry (tries ?s) = tree_entry (tries s)"
    by (simp_all add: at_zero_def kv_get_def tree_entry_def fun_eq_iff split: option.split)
  then have "trees_inv off F (kv_get B (ts_db (tries ?s))) Ids (tries ?s) m" "ok (kv_db (ts_db (tries ?s)))"
    using inv' by (auto simp: trees_inv_def at_zero_def)
  then obtain s1 where s1: "transactional_commit F B I i ?s = (Inr () :: ('e, unit) outcome, s1)"
    "config (ts_db (tries s1)) = cfg" "ts_max_height (tries s1) = h" "trees_committed off F B Ids (tries s1) m"
    using transactional_commit_ok [OF _ _ ids codec, of ?s off m i] inv' by (auto simp: at_zero_def)
  have "storage_commit F B P I i ?s =
      (Inl (Panic ''attempt to calculate the remainder with a divisor of zero'') :: ('e, unit) outcome, s1)"
    using s1(1,2) zero by (simp add: storage_commit_transactional bindS_def on_db_def create_snapshot_def)
  moreover have "storage_get off F B s1 j k = Inr (c j k)" if "j \<in> Ids" "length k = unat h" for j k
    using s1(3,4) that inv' by (auto simp: trees_committed_def trees_inv_def tree_ok_def leaf_inv_def height_of_def
        storage_get_def trees_get_def trie_of_def)
  moreover have "\<forall>j \<in> Ids. storage_root_hash F B s1 j = Inr (trie_hash F (m j))"
    using s1(4) by (simp add: trees_committed_def storage_root_hash_def)
  ultimately show ?thesis by blast
qed

end

end
