(* ===== verification/Rocks_Correct.thy ===== *)
theory Rocks_Correct
  imports Rocks_Db Storage_Queries
begin

text \<open>
  The RocksDB store keeps the contract of the store interface when the library behaves as its
  documentation says (\<open>rocksdb_documented\<close>, for any meaning \<open>V\<close> of its objects as maps). A
  transaction keeps the part without prefixes: its reads go to the snapshot, its iterators to
  the database.
\<close>

section \<open>What the library documents\<close>

text \<open>
  The objects of the library as maps: a database has rows per column family, a batch and a
  transaction have the last write or deletion of a row, if any.
\<close>

type_synonym 'cf cf_rows = "'cf \<Rightarrow> bytes \<Rightarrow> bytes option"
type_synonym 'cf cf_writes = "'cf \<Rightarrow> bytes \<Rightarrow> bytes option option"

record ('rdb, 'cf, 'wb, 'snap, 'txn) rocksdb_meaning =
  healthy :: "'rdb \<Rightarrow> bool"
  rows :: "'rdb \<Rightarrow> 'cf cf_rows"
  batch_writes :: "'wb \<Rightarrow> 'cf cf_writes"
  snap_rows :: "'snap \<Rightarrow> 'cf cf_rows"
  txn_healthy :: "'txn \<Rightarrow> bool"
  txn_base :: "'txn \<Rightarrow> 'cf cf_rows"
  txn_writes :: "'txn \<Rightarrow> 'cf cf_writes"

definition overlay :: "'cf cf_writes \<Rightarrow> 'cf cf_rows \<Rightarrow> 'cf cf_rows" where
  "overlay w r h k = (case w h k of None \<Rightarrow> r h k | Some x \<Rightarrow> x)"

definition then_writes :: "'cf cf_writes \<Rightarrow> 'cf cf_writes \<Rightarrow> 'cf cf_writes" where
  "then_writes w w' h k = (case w' h k of None \<Rightarrow> w h k | Some x \<Rightarrow> Some x)"

definition set_row :: "'cf \<Rightarrow> bytes \<Rightarrow> 'x \<Rightarrow> ('cf \<Rightarrow> bytes \<Rightarrow> 'x) \<Rightarrow> 'cf \<Rightarrow> bytes \<Rightarrow> 'x" where
  "set_row h k x r = r(h := (r h)(k := x))"

text \<open>An iterator from a key gives the rows from that key on, in the order of their bytes.\<close>

definition items_from :: "(bytes \<Rightarrow> bytes option) \<Rightarrow> bytes \<Rightarrow> ('err + bytes \<times> bytes) list \<Rightarrow> bool" where
  "items_from r p items \<longleftrightarrow> (\<exists>xs. items = map Inr xs \<and> sorted_wrt (<) (map fst xs) \<and>
     (\<forall>k v. (k, v) \<in> set xs \<longleftrightarrow> p \<le> k \<and> r k = Some v))"

text \<open>A database that is not damaged, with the families it was opened with.\<close>

definition db_documented ::
  "('rdb, 'cf, 'wb, 'snap, 'txn, 'err) rocksdb_api \<Rightarrow> ('rdb, 'cf, 'wb, 'snap, 'txn) rocksdb_meaning \<Rightarrow> bool" where
  "db_documented A V \<longleftrightarrow> (\<forall>db. healthy V db \<longrightarrow>
     (\<forall>h k. get_cf A db h k = Inr (rows V db h k)) \<and>
     (\<forall>h k v. \<exists>db'. put_cf A db h k v = (Inr (), db') \<and> healthy V db' \<and> cf_handle A db' = cf_handle A db \<and>
        rows V db' = set_row h k (Some v) (rows V db)) \<and>
     (\<forall>h k. \<exists>db'. delete_cf A db h k = (Inr (), db') \<and> healthy V db' \<and> cf_handle A db' = cf_handle A db \<and>
        rows V db' = set_row h k None (rows V db)) \<and>
     (\<forall>h p. items_from (rows V db h) p (iterator_cf A db h p)) \<and>
     (\<forall>b. \<exists>db'. rdb_write A db b = (Inr (), db') \<and> healthy V db' \<and> cf_handle A db' = cf_handle A db \<and>
        rows V db' = overlay (batch_writes V b) (rows V db)) \<and>
     snap_rows V (rdb_snapshot A db) = rows V db)"

definition batch_documented ::
  "('rdb, 'cf, 'wb, 'snap, 'txn, 'err) rocksdb_api \<Rightarrow> ('rdb, 'cf, 'wb, 'snap, 'txn) rocksdb_meaning \<Rightarrow> bool" where
  "batch_documented A V \<longleftrightarrow>
     batch_writes V (batch_default A) = (\<lambda>_ _. None) \<and>
     (\<forall>b h k v. batch_writes V (batch_put_cf A b h k v) = set_row h k (Some (Some v)) (batch_writes V b)) \<and>
     (\<forall>b h k. batch_writes V (batch_delete_cf A b h k) = set_row h k (Some None) (batch_writes V b))"

text \<open>
  A transaction reads its own writes over the snapshot it is given and iterates over its own
  writes and the database. Nothing is assumed of its commit, which can fail with a conflict.
\<close>

definition txn_documented ::
  "('rdb, 'cf, 'wb, 'snap, 'txn, 'err) rocksdb_api \<Rightarrow> ('rdb, 'cf, 'wb, 'snap, 'txn) rocksdb_meaning \<Rightarrow> bool" where
  "txn_documented A V \<longleftrightarrow>
     (\<forall>db. healthy V db \<longrightarrow> txn_healthy V (transaction_opt A db) \<and>
        txn_base V (transaction_opt A db) = rows V db \<and> txn_writes V (transaction_opt A db) = (\<lambda>_ _. None)) \<and>
     (\<forall>t. txn_healthy V t \<longrightarrow>
        (\<forall>h k s. txn_get_cf_opt A t h k s = Inr (overlay (txn_writes V t) (snap_rows V s) h k)) \<and>
        (\<forall>h k v. \<exists>t'. txn_put_cf A t h k v = (Inr (), t') \<and> txn_healthy V t' \<and> txn_base V t' = txn_base V t \<and>
           txn_writes V t' = set_row h k (Some (Some v)) (txn_writes V t)) \<and>
        (\<forall>h k. \<exists>t'. txn_delete_cf A t h k = (Inr (), t') \<and> txn_healthy V t' \<and> txn_base V t' = txn_base V t \<and>
           txn_writes V t' = set_row h k (Some None) (txn_writes V t)) \<and>
        (\<forall>h p. items_from (overlay (txn_writes V t) (txn_base V t) h) p (txn_iterator_cf A t h p)) \<and>
        batch_writes V (txn_get_writebatch A t) = txn_writes V t \<and>
        (\<forall>b. \<exists>t'. txn_rebuild_from_writebatch A t b = (Inr (), t') \<and> txn_healthy V t' \<and> txn_base V t' = txn_base V t \<and>
           txn_writes V t' = then_writes (txn_writes V t) (batch_writes V b)))"

definition rocksdb_documented ::
  "('rdb, 'cf, 'wb, 'snap, 'txn, 'err) rocksdb_api \<Rightarrow> ('rdb, 'cf, 'wb, 'snap, 'txn) rocksdb_meaning \<Rightarrow> bool" where
  "rocksdb_documented A V \<longleftrightarrow> db_documented A V \<and> batch_documented A V \<and> txn_documented A V"

lemma set_row_apply: "set_row h k x r h' k' = (if h' = h \<and> k' = k then x else r h' k')"
  by (simp add: set_row_def)

lemma overlay_empty [simp]: "overlay (\<lambda>_ _. None) r = r"
  by (simp add: overlay_def fun_eq_iff)

lemma overlay_set_row: "overlay (set_row h k (Some x) w) r = set_row h k x (overlay w r)"
  by (auto simp: overlay_def set_row_apply fun_eq_iff)

lemma overlay_then: "overlay (then_writes w w') r = overlay w' (overlay w r)"
  by (auto simp: overlay_def then_writes_def fun_eq_iff split: option.split)

lemma overlay_twice [simp]: "overlay w (overlay w r) = overlay w r"
  by (auto simp: overlay_def fun_eq_iff split: option.split)

section \<open>Prefixes in the order of bytes\<close>

lemma prefix_le: "prefix p k \<Longrightarrow> p \<le> (k :: 'a::linorder list)"
proof -
  assume "prefix p k"
  then obtain s where "k = p @ s" by (auto simp: prefix_def)
  moreover have "p \<le> p @ s" by (induction p) auto
  ultimately show ?thesis by simp
qed

lemma prefix_between: "p \<le> a \<Longrightarrow> a \<le> b \<Longrightarrow> prefix p b \<Longrightarrow> prefix p (a :: 'a::linorder list)"
proof (induction p arbitrary: a b)
  case (Cons x p)
  obtain b' where b: "b = x # b'" "prefix p b'" using Cons.prems(3) by (cases b) auto
  obtain y a' where a: "a = y # a'" using Cons.prems(1) by (cases a) auto
  have "y = x" "p \<le> a'" "a' \<le> b'" using Cons.prems(1,2) a b by auto
  then show ?case using Cons.IH [of a' b'] a b by simp
qed simp

text \<open>Stopping at the first key without the prefix loses nothing.\<close>

lemma takeWhile_prefix:
  assumes "sorted_wrt (<) (map fst xs)" "\<forall>x \<in> set xs. p \<le> fst x"
  shows "takeWhile (\<lambda>x. prefix p (fst x)) xs = filter (\<lambda>x. prefix p (fst x)) (xs :: ('a::linorder list \<times> 'b) list)"
  using assms
proof (induction xs)
  case (Cons x xs)
  show ?case
  proof (cases "prefix p (fst x)")
    case False
    have "\<not> prefix p (fst y)" if "y \<in> set xs" for y
    proof
      assume "prefix p (fst y)"
      moreover have "fst x \<le> fst y" using Cons.prems(1) that by (auto intro: less_imp_le)
      ultimately show False using prefix_between [of p "fst x" "fst y"] Cons.prems(2) False by simp
    qed
    then show ?thesis using False by (simp add: filter_empty_conv)
  qed (use Cons in simp)
qed simp

lemma while_prefix_Inr: "while_prefix p (map Inr xs) = takeWhile (\<lambda>x. prefix p (fst x)) xs"
  by (induction xs) auto

lemma delete_prefixed_Inr:
  "delete_prefixed A h p (map Inr xs) b =
     fold (\<lambda>x b. batch_delete_cf A b h (fst x)) (takeWhile (\<lambda>x. prefix p (fst x)) xs) b"
  by (induction xs arbitrary: b) auto

lemma batch_writes_deletes:
  assumes "batch_documented A V"
  shows "batch_writes V (fold (\<lambda>x b. batch_delete_cf A b h (fst x)) xs b) h' k =
    (if h' = h \<and> k \<in> fst ` set xs then Some None else batch_writes V b h' k)"
  using assms by (induction xs arbitrary: b) (auto simp: batch_documented_def set_row_apply)

lemma items_from_prefix:
  assumes "items_from r p items"
  shows "distinct (map fst (while_prefix p items))" (is ?distinct)
    and "map_of (while_prefix p items) k = (if prefix p k then r k else None)" (is ?map)
proof -
  obtain xs where xs: "items = map Inr xs" "sorted_wrt (<) (map fst xs)"
    "\<And>k v. (k, v) \<in> set xs \<longleftrightarrow> p \<le> k \<and> r k = Some v"
    using assms by (auto simp: items_from_def)
  have "\<forall>x \<in> set xs. p \<le> fst x" using xs(3) by auto
  then have eq: "while_prefix p items = filter (\<lambda>x. prefix p (fst x)) xs"
    using takeWhile_prefix [OF xs(2)] xs(1) by (simp add: while_prefix_Inr)
  have "distinct (map fst xs)" using xs(2) by (simp add: strict_sorted_iff)
  then show ?distinct by (simp add: eq distinct_map_filter)
  then have "map_of (while_prefix p items) k = Some v \<longleftrightarrow> prefix p k \<and> r k = Some v" for v
    using xs(3) [of k v] prefix_le [of p k] by (auto simp: eq)
  then have "map_of (while_prefix p items) k = Some v \<longleftrightarrow> (if prefix p k then r k else None) = Some v" for v
    by simp
  then show ?map by (metis not_Some_eq)
qed

lemma items_from_delete:
  assumes "items_from r p items" "batch_documented A V"
  shows "overlay (batch_writes V (delete_prefixed A h p items b)) r' h' k =
    (if h' = h \<and> prefix p k \<and> r k \<noteq> None then None else overlay (batch_writes V b) r' h' k)"
proof -
  obtain xs where xs: "items = map Inr xs" using assms(1) by (auto simp: items_from_def)
  have "k \<in> fst ` set (while_prefix p items) \<longleftrightarrow> prefix p k \<and> r k \<noteq> None"
    using items_from_prefix(2) [OF assms(1), of k] map_of_eq_None_iff [of "while_prefix p items" k]
    by (cases "prefix p k") simp_all
  then show ?thesis
    by (auto simp: xs delete_prefixed_Inr while_prefix_Inr overlay_def batch_writes_deletes [OF assms(2)])
qed

section \<open>The contract of the store\<close>

text \<open>The three column families are there and are different.\<close>

definition cf_ready :: "(string \<Rightarrow> 'cf option) \<Rightarrow> bool" where
  "cf_ready f \<longleftrightarrow> f TRIE_LOG_CF \<noteq> None \<and> f TRIE_CF \<noteq> None \<and> f FLAT_CF \<noteq> None \<and>
     distinct [f TRIE_LOG_CF, f TRIE_CF, f FLAT_CF]"

definition row_of :: "(string \<Rightarrow> 'cf option) \<Rightarrow> 'cf cf_rows \<Rightarrow> database_key \<Rightarrow> bytes option" where
  "row_of f r k = r (the (f (get_cf_name k))) (db_as_slice k)"

definition rocks_ok ::
  "('rdb, 'cf, 'wb, 'snap, 'txn, 'err) rocksdb_api \<Rightarrow> ('rdb, 'cf, 'wb, 'snap, 'txn) rocksdb_meaning \<Rightarrow>
     ('rdb, 'snap, 'id) rocks_db \<Rightarrow> bool" where
  "rocks_ok A V db \<longleftrightarrow> rocksdb_documented A V \<and> healthy V (rdb db) \<and> cf_ready (cf_handle A (rdb db))"

definition rocks_view ::
  "('rdb, 'cf, 'wb, 'snap, 'txn, 'err) rocksdb_api \<Rightarrow> ('rdb, 'cf, 'wb, 'snap, 'txn) rocksdb_meaning \<Rightarrow>
     ('rdb, 'snap, 'id) rocks_db \<Rightarrow> database_key \<Rightarrow> bytes option" where
  "rocks_view A V db = row_of (cf_handle A (rdb db)) (rows V (rdb db))"

definition rocks_pending ::
  "('rdb, 'cf, 'wb, 'snap, 'txn, 'err) rocksdb_api \<Rightarrow> ('rdb, 'cf, 'wb, 'snap, 'txn) rocksdb_meaning \<Rightarrow>
     ('rdb, 'snap, 'id) rocks_db \<Rightarrow> 'wb \<Rightarrow> database_key \<Rightarrow> bytes option" where
  "rocks_pending A V db b = row_of (cf_handle A (rdb db)) (overlay (batch_writes V b) (rows V (rdb db)))"

definition rocks_txn_ok ::
  "('rdb, 'cf, 'wb, 'snap, 'txn, 'err) rocksdb_api \<Rightarrow> ('rdb, 'cf, 'wb, 'snap, 'txn) rocksdb_meaning \<Rightarrow>
     ('txn, 'snap, 'cf) rocks_db_transaction \<Rightarrow> bool" where
  "rocks_txn_ok A V t \<longleftrightarrow> rocksdb_documented A V \<and> txn_healthy V (txn t) \<and> cf_ready (hm_get (column_families t))"

definition rocks_txn_rows ::
  "('rdb, 'cf, 'wb, 'snap, 'txn) rocksdb_meaning \<Rightarrow> ('txn, 'snap, 'cf) rocks_db_transaction \<Rightarrow> 'cf cf_rows" where
  "rocks_txn_rows V t = overlay (txn_writes V (txn t)) (snap_rows V (read_options t))"

definition rocks_txn_view ::
  "('rdb, 'cf, 'wb, 'snap, 'txn) rocksdb_meaning \<Rightarrow> ('txn, 'snap, 'cf) rocks_db_transaction \<Rightarrow> database_key \<Rightarrow> bytes option" where
  "rocks_txn_view V t = row_of (hm_get (column_families t)) (rocks_txn_rows V t)"

definition rocks_txn_pending ::
  "('rdb, 'cf, 'wb, 'snap, 'txn) rocksdb_meaning \<Rightarrow> ('txn, 'snap, 'cf) rocks_db_transaction \<Rightarrow> 'wb \<Rightarrow> database_key \<Rightarrow>
     bytes option" where
  "rocks_txn_pending V t b = row_of (hm_get (column_families t)) (overlay (batch_writes V b) (rocks_txn_rows V t))"

lemma cf_names_distinct [simp]:
  "TRIE_LOG_CF \<noteq> TRIE_CF" "TRIE_LOG_CF \<noteq> FLAT_CF" "TRIE_CF \<noteq> FLAT_CF"
  "TRIE_CF \<noteq> TRIE_LOG_CF" "FLAT_CF \<noteq> TRIE_LOG_CF" "FLAT_CF \<noteq> TRIE_CF"
  by (simp_all add: TRIE_LOG_CF_def TRIE_CF_def FLAT_CF_def)

lemma cf_readyD:
  assumes "cf_ready f"
  obtains h where "f (get_cf_name k) = Some h"
  using assms by (cases k) (auto simp: cf_ready_def)

lemma cf_ready_eq:
  assumes "cf_ready f" "f (get_cf_name k) = Some h"
  shows "the (f (get_cf_name k')) = h \<longleftrightarrow> same_column k (db_as_slice k') = k'"
  using assms by (cases k; cases k') (auto simp: cf_ready_def)

lemma same_column_eq: "same_column k (db_as_slice k') = k' \<Longrightarrow> db_as_slice k' = db_as_slice k \<longleftrightarrow> k' = k"
  by (cases k; cases k') auto

lemma row_of_set_row:
  assumes "cf_ready f" "f (get_cf_name k) = Some h"
  shows "row_of f (set_row h (db_as_slice k) x r) = (row_of f r)(k := x)"
proof
  fix k'
  show "row_of f (set_row h (db_as_slice k) x r) k' = ((row_of f r)(k := x)) k'"
    using cf_ready_eq [OF assms, of k'] same_column_eq [of k k'] assms(2)
    by (cases k; cases k') (auto simp: row_of_def set_row_apply)
qed

lemma row_of_same_column: "f (get_cf_name p) = Some h \<Longrightarrow> row_of f r (same_column p b) = r h b"
  by (cases p) (simp_all add: row_of_def)

lemma row_of_under_prefix:
  assumes "cf_ready f" "f (get_cf_name p) = Some h"
    and "\<And>h' k. r' h' k = (if h' = h \<and> prefix (db_as_slice p) k then None else r h' k)"
  shows "row_of f r' = (\<lambda>k. if under_prefix p k then None else row_of f r k)"
  using cf_ready_eq [OF assms(1,2)] by (auto simp: row_of_def assms(3) under_prefix_def fun_eq_iff)

lemmas rocksdb_documented_defs = rocksdb_documented_def db_documented_def batch_documented_def txn_documented_def

lemma db_documentedD:
  assumes "rocksdb_documented A V" "healthy V db"
  shows "get_cf A db h k = Inr (rows V db h k)" "items_from (rows V db h) p (iterator_cf A db h p)"
    "snap_rows V (rdb_snapshot A db) = rows V db"
    "\<exists>db'. rdb_write A db b = (Inr (), db') \<and> healthy V db' \<and> cf_handle A db' = cf_handle A db \<and>
        rows V db' = overlay (batch_writes V b) (rows V db)"
  using assms by (simp_all add: rocksdb_documented_def db_documented_def)

lemma batch_documentedD:
  assumes "rocksdb_documented A V"
  shows "batch_documented A V" "batch_writes V (batch_default A) = (\<lambda>_ _. None)"
    "batch_writes V (batch_put_cf A b h k v) = set_row h k (Some (Some v)) (batch_writes V b)"
    "batch_writes V (batch_delete_cf A b h k) = set_row h k (Some None) (batch_writes V b)"
  using assms by (simp_all add: rocksdb_documented_def batch_documented_def)

lemma txn_documentedD:
  assumes "rocksdb_documented A V" "txn_healthy V t"
  shows "txn_get_cf_opt A t h k s = Inr (overlay (txn_writes V t) (snap_rows V s) h k)"
    "items_from (overlay (txn_writes V t) (txn_base V t) h) p (txn_iterator_cf A t h p)"
    "batch_writes V (txn_get_writebatch A t) = txn_writes V t"
    "\<exists>t'. txn_rebuild_from_writebatch A t b = (Inr (), t') \<and> txn_healthy V t' \<and> txn_base V t' = txn_base V t \<and>
           txn_writes V t' = then_writes (txn_writes V t) (batch_writes V b)"
  using assms by (simp_all add: rocksdb_documented_def txn_documented_def)

interpretation rocks: bonsai_database "rocks_ops A" "rocks_ok A V" "rocks_view A V" "rocks_pending A V"
  for A :: "('rdb, 'cf, 'wb, 'snap, 'txn, 'err) rocksdb_api" and V :: "('rdb, 'cf, 'wb, 'snap, 'txn) rocksdb_meaning"
proof
  fix db :: "('rdb, 'snap, 'id) rocks_db" and k p :: database_key and v :: bytes and b :: 'wb
  assume ok: "rocks_ok A V db"
  then have doc: "rocksdb_documented A V" and h: "healthy V (rdb db)" and cf: "cf_ready (cf_handle A (rdb db))"
    by (simp_all add: rocks_ok_def)
  note db_doc = db_documentedD [OF doc h] and batch_doc = batch_documentedD [OF doc]
  obtain hk where hk: "cf_handle A (rdb db) (get_cf_name k) = Some hk" by (rule cf_readyD [OF cf])
  obtain hp where hp: "cf_handle A (rdb db) (get_cf_name p) = Some hp" by (rule cf_readyD [OF cf])
  show "db_get (rocks_ops A) db k = Inr (rocks_view A V db k)"
    by (simp add: rocks_ops_def rocks_get_def expect_cf_def hk db_doc from_error_def rocks_view_def row_of_def)
  show "db_contains (rocks_ops A) db k = Inr (rocks_view A V db k \<noteq> None)"
    by (simp add: rocks_ops_def rocks_contains_def expect_cf_def hk db_doc from_error_def rocks_view_def row_of_def)
  show "rocks_pending A V db (create_batch (rocks_ops A) db) = rocks_view A V db"
    by (simp add: rocks_ops_def rocks_create_batch_def rocks_pending_def rocks_view_def batch_doc)
  show "\<exists>old db' b'. db_insert (rocks_ops A) db k v (Some b) = (Inr old, db', Some b') \<and>
      rocks_ok A V db' \<and> rocks_pending A V db' b' = (rocks_pending A V db b)(k \<mapsto> v)"
    using ok by (simp add: rocks_ops_def rocks_insert_def hk db_doc from_error_def rocks_pending_def batch_doc overlay_set_row
        row_of_set_row [OF cf hk])
  show "\<exists>old db' b'. db_remove (rocks_ops A) db k (Some b) = (Inr old, db', Some b') \<and>
      rocks_ok A V db' \<and> rocks_pending A V db' b' = (rocks_pending A V db b)(k := None)"
    using ok by (simp add: rocks_ops_def rocks_remove_def hk db_doc from_error_def rocks_pending_def batch_doc overlay_set_row
        row_of_set_row [OF cf hk])
  have wr: "\<exists>db'. rocks_write_batch A db b = (Inr (), db') \<and> rocks_ok A V db' \<and> rocks_view A V db' = rocks_pending A V db b"
    for b
    using db_doc(4) [of b] ok by (auto simp: rocks_write_batch_def from_error_def rocks_ok_def rocks_view_def rocks_pending_def)
  then show "\<exists>db'. db_write_batch (rocks_ops A) db b = (Inr (), db') \<and> rocks_ok A V db' \<and> rocks_view A V db' = rocks_pending A V db b"
    by (simp add: rocks_ops_def)
  note items = db_doc(2) [of hp "db_as_slice p"]
  show "\<exists>xs. db_get_by_prefix (rocks_ops A) db p = Inr xs \<and> distinct (map fst xs) \<and>
      (\<forall>b. map_of xs b = (if prefix (db_as_slice p) b then rocks_view A V db (same_column p b) else None))"
    using items_from_prefix [OF items]
    by (simp add: rocks_ops_def rocks_get_by_prefix_def expect_cf_def hp rocks_view_def row_of_same_column)
  let ?del = "delete_prefixed A hp (db_as_slice p) (iterator_cf A (rdb db) hp (db_as_slice p)) (batch_default A)"
  have "overlay (batch_writes V ?del) (rows V (rdb db)) h' k' =
      (if h' = hp \<and> prefix (db_as_slice p) k' then None else rows V (rdb db) h' k')" for h' k'
    unfolding items_from_delete [OF items batch_doc(1)] by (auto simp: batch_doc)
  then have "rocks_pending A V db ?del = (\<lambda>k. if under_prefix p k then None else rocks_view A V db k)"
    unfolding rocks_pending_def rocks_view_def by (intro row_of_under_prefix [OF cf hp])
  then show "\<exists>db'. db_remove_by_prefix (rocks_ops A) db p = (Inr (), db') \<and> rocks_ok A V db' \<and>
      rocks_view A V db' = (\<lambda>k. if under_prefix p k then None else rocks_view A V db k)"
    using wr [of ?del] by (simp add: rocks_ops_def rocks_remove_by_prefix_def hp rocks_create_batch_def)
qed

text \<open>A transaction, without the methods that iterate.\<close>

interpretation rocks_txn: batch_database "rocks_txn_ops A" "rocks_txn_ok A V" "rocks_txn_view V" "rocks_txn_pending V"
  for A :: "('rdb, 'cf, 'wb, 'snap, 'txn, 'err) rocksdb_api" and V :: "('rdb, 'cf, 'wb, 'snap, 'txn) rocksdb_meaning"
proof
  fix t :: "('txn, 'snap, 'cf) rocks_db_transaction" and k p :: database_key and v :: bytes and b :: 'wb
  assume ok: "rocks_txn_ok A V t"
  then have doc: "rocksdb_documented A V" and h: "txn_healthy V (txn t)" and cf: "cf_ready (hm_get (column_families t))"
    by (simp_all add: rocks_txn_ok_def)
  note txn_doc = txn_documentedD [OF doc h] and batch_doc = batch_documentedD [OF doc]
  obtain hk where hk: "hm_get (column_families t) (get_cf_name k) = Some hk" by (rule cf_readyD [OF cf])
  show "db_get (rocks_txn_ops A) t k = Inr (rocks_txn_view V t k)"
    by (simp add: rocks_txn_ops_def rocks_txn_get_def txn_cf_def expect_cf_def hk txn_doc from_error_def rocks_txn_view_def
        rocks_txn_rows_def row_of_def)
  show "db_contains (rocks_txn_ops A) t k = Inr (rocks_txn_view V t k \<noteq> None)"
    by (simp add: rocks_txn_ops_def rocks_txn_contains_def txn_cf_def expect_cf_def hk txn_doc from_error_def rocks_txn_view_def
        rocks_txn_rows_def row_of_def)
  show "rocks_txn_pending V t (create_batch (rocks_txn_ops A) t) = rocks_txn_view V t"
    by (simp add: rocks_txn_ops_def rocks_txn_create_batch_def rocks_txn_pending_def rocks_txn_view_def txn_doc rocks_txn_rows_def)
  show "\<exists>old t' b'. db_insert (rocks_txn_ops A) t k v (Some b) = (Inr old, t', Some b') \<and>
      rocks_txn_ok A V t' \<and> rocks_txn_pending V t' b' = (rocks_txn_pending V t b)(k \<mapsto> v)"
    using ok by (simp add: rocks_txn_ops_def rocks_txn_insert_def txn_cf_def hk txn_doc from_error_def rocks_txn_pending_def
        batch_doc overlay_set_row row_of_set_row [OF cf hk])
  show "\<exists>old t' b'. db_remove (rocks_txn_ops A) t k (Some b) = (Inr old, t', Some b') \<and>
      rocks_txn_ok A V t' \<and> rocks_txn_pending V t' b' = (rocks_txn_pending V t b)(k := None)"
    using ok by (simp add: rocks_txn_ops_def rocks_txn_remove_def txn_cf_def hk txn_doc from_error_def rocks_txn_pending_def
        batch_doc overlay_set_row row_of_set_row [OF cf hk])
  show "\<exists>t'. db_write_batch (rocks_txn_ops A) t b = (Inr (), t') \<and> rocks_txn_ok A V t' \<and>
      rocks_txn_view V t' = rocks_txn_pending V t b"
    using txn_doc(4) [of b] ok
    by (auto simp: rocks_txn_ops_def rocks_txn_write_batch_def from_error_def rocks_txn_ok_def rocks_txn_view_def
        rocks_txn_pending_def rocks_txn_rows_def overlay_then)
qed

section \<open>Snapshots and transactions\<close>

lemma pop_first_until_drop: "pop_first_until n xs = drop (length xs - n) xs"
  by (induction xs) (auto simp: Suc_diff_le)

lemma rocks_snapshot_rdb [simp]:
  "rdb (rocks_snapshot A db i) = rdb db" "rocks_config (rocks_snapshot A db i) = rocks_config db"
  by (simp_all add: rocks_snapshot_def Let_def)

lemma rocks_snapshot_view [simp]:
  "rocks_ok A V (rocks_snapshot A db i) = rocks_ok A V db" "rocks_view A V (rocks_snapshot A db i) = rocks_view A V db"
  by (simp_all add: rocks_ok_def rocks_view_def)

text \<open>The iterators of a transaction do not see its snapshot.\<close>

lemma rocks_txn_get_by_prefix_rows:
  assumes "rocks_txn_ok A V t" "txn_cf t p = Some h"
  shows "\<exists>xs. rocks_txn_get_by_prefix A t p = Inr xs \<and> distinct (map fst xs) \<and>
    (\<forall>b. map_of xs b = (if prefix (db_as_slice p) b then overlay (txn_writes V (txn t)) (txn_base V (txn t)) h b else None))"
  using assms items_from_prefix [OF txn_documentedD(2) [of A V "txn t" h "db_as_slice p"]]
  by (simp add: rocks_txn_ok_def rocks_txn_get_by_prefix_def expect_cf_def)

text \<open>What \<open>transaction\<close> returns: reads see the snapshot, iterators the database.\<close>

lemma rocks_transaction_ok:
  assumes ok: "rocks_ok A V db" and snap: "btree_first_below i (rocks_snapshots db) = Some (j, s)"
  shows "\<exists>t. rocks_transaction A db i = Inr (Some (j, t)) \<and> rocks_txn_ok A V t \<and>
    rocks_txn_view V t = row_of (cf_handle A (rdb db)) (snap_rows V s) \<and> txn_cf t k = cf_handle A (rdb db) (get_cf_name k) \<and>
    txn_base V (txn t) = rows V (rdb db) \<and> txn_writes V (txn t) = (\<lambda>_ _. None)"
proof -
  have doc: "rocksdb_documented A V" "healthy V (rdb db)" and cf: "cf_ready (cf_handle A (rdb db))"
    using ok by (simp_all add: rocks_ok_def)
  obtain hl ht hf where h: "cf_handle A (rdb db) TRIE_LOG_CF = Some hl" "cf_handle A (rdb db) TRIE_CF = Some ht"
    "cf_handle A (rdb db) FLAT_CF = Some hf" using cf by (auto simp: cf_ready_def)
  let ?cfs = "hm_insert FLAT_CF hf (hm_insert TRIE_CF ht (hm_insert TRIE_LOG_CF hl []))"
  let ?t = "\<lparr>txn = transaction_opt A (rdb db), read_options = s, column_families = ?cfs\<rparr>"
  have cfs: "hm_get ?cfs (get_cf_name k) = cf_handle A (rdb db) (get_cf_name k)" for k
    using h by (cases k) (simp_all add: hm_get_insert)
  have "cf_ready (hm_get ?cfs)" using cf h by (simp add: cf_ready_def hm_get_insert)
  moreover have "row_of (hm_get ?cfs) r = row_of (cf_handle A (rdb db)) r" for r :: "'b cf_rows"
    by (simp add: row_of_def cfs fun_eq_iff)
  moreover have "txn_healthy V (txn ?t)" "txn_base V (txn ?t) = rows V (rdb db)" "txn_writes V (txn ?t) = (\<lambda>_ _. None)"
    using doc by (simp_all add: rocksdb_documented_def txn_documented_def)
  moreover have "rocks_transaction A db i = Inr (Some (j, ?t))" using h snap by (simp add: rocks_transaction_def Let_def)
  ultimately show ?thesis using doc(1) cfs [of k]
    by (intro exI [of _ ?t]) (simp add: rocks_txn_ok_def rocks_txn_view_def rocks_txn_rows_def txn_cf_def)
qed

section \<open>The storage over RocksDB\<close>

interpretation rocks_storage:
  persistent_store "rocks_ops A" "rocks_ok A V" "rocks_view A V" "rocks_pending A V" basic_ops 8 "rocks_persistent A"
  for A :: "('rdb, 'cf, 'wb, 'snap, 'txn, 'err) rocksdb_api" and V :: "('rdb, 'cf, 'wb, 'snap, 'txn) rocksdb_meaning"
  by unfold_locales (simp_all add: rocks_persistent_def)

definition rocks_empty ::
  "('rdb, 'cf, 'wb, 'snap, 'txn, 'err) rocksdb_api \<Rightarrow> ('rdb, 'cf, 'wb, 'snap, 'txn) rocksdb_meaning \<Rightarrow>
     ('rdb, 'snap, 'id) rocks_db \<Rightarrow> bool" where
  "rocks_empty A V db \<longleftrightarrow> rocks_ok A V db \<and> (\<forall>k. rocks_view A V db k = None)"

abbreviation rocks_run ::
  "nat \<Rightarrow> ('rdb, 'cf, 'wb, 'snap, 'txn, 'err) rocksdb_api \<Rightarrow> ('rdb, 'cf, 'wb, 'snap, 'txn) rocksdb_meaning \<Rightarrow> 'f ext_ops \<Rightarrow>
     bytes set \<Rightarrow> byte \<Rightarrow> ('f, ('rdb, 'snap, basic_id) rocks_db, basic_id) bonsai_storage \<Rightarrow> 'f content \<Rightarrow> 'f content \<Rightarrow>
     (bytes \<times> bits) set \<Rightarrow> bool" where
  "rocks_run off A V F \<equiv> storage_run off F (rocks_ops A) (rocks_persistent A) basic_ops (rocks_empty A V)"

lemma rocks_run_inv:
  assumes "rocks_run off A V F Ids h s c c0 d" "prefix_free Ids" "node_codec F" "felt_codec F" "h \<noteq> 0"
  shows "\<exists>m m0. storage_inv off F (rocks_ops A) (rocks_ok A V) Ids h s c c0 d m m0"
  using assms by (rule rocks_storage.storage_run_inv) (simp add: rocks_empty_def)

end
