(* ===== verification/Transactions.thy ===== *)
theory Transactions
  imports Trie_Logs Rocks_Correct
begin

text \<open>
  What a transactional state holds (\<open>get_transaction\<close> of
  \<^verbatim>\<open>src/src/key_value_db.rs\<close>): the rows of the snapshot it starts from, with the old
  values of the logs from the snapshot up to the requested commit written over them, in that
  order. Proved once for every store and transaction type that keep their contracts, and
  interpreted for the hash map and the RocksDB store.
\<close>

section \<open>Undoing changes\<close>

fun trie_key_of :: "database_key \<Rightarrow> trie_key option" where
  "trie_key_of (DbTrie b) = Some (Trie b)"
| "trie_key_of (DbFlat b) = Some (Flat b)"
| "trie_key_of (DbTrieLog b) = None"

definition undo :: "(trie_key \<Rightarrow> bytes option option) \<Rightarrow> (database_key \<Rightarrow> bytes option) \<Rightarrow> database_key \<Rightarrow> bytes option" where
  "undo f m x = (case Option.bind (trie_key_of x) f of None \<Rightarrow> m x | Some old \<Rightarrow> old)"

lemma trie_key_of_eq: "trie_key_of x = Some k \<longleftrightarrow> x = database_key_of k"
  by (cases x; cases k) auto

lemma fold_old_values:
  assumes "hm_wf changes"
  shows "fold (\<lambda>(k, c) m. m(database_key_of k := old_value c)) changes m = undo (\<lambda>k. map_option old_value (hm_get changes k)) m"
  using assms
proof (induction changes arbitrary: m)
  case Nil
  then show ?case by (auto simp: undo_def hm_get_def fun_eq_iff split: option.split)
next
  case (Cons x changes)
  obtain k c where x: "x = (k, c)" by fastforce
  have k: "hm_get changes k = None" using Cons.prems x by (simp add: hm_wf_def hm_get_def map_of_eq_None_iff)
  have "undo (\<lambda>k. map_option old_value (hm_get changes k)) (m(database_key_of k := old_value c)) y =
      undo (\<lambda>k'. map_option old_value (hm_get (x # changes) k')) m y" for y
  proof (cases "y = database_key_of k")
    case True
    then have "trie_key_of y = Some k" by (simp add: trie_key_of_eq)
    then show ?thesis using True k x by (simp add: undo_def hm_get_def)
  next
    case False
    then have "trie_key_of y \<noteq> Some k" by (simp add: trie_key_of_eq)
    then show ?thesis using False x by (cases "trie_key_of y") (auto simp: undo_def hm_get_def split: option.split)
  qed
  then have "undo (\<lambda>k. map_option old_value (hm_get changes k)) (m(database_key_of k := old_value c)) =
      undo (\<lambda>k'. map_option old_value (hm_get (x # changes) k')) m" by (rule ext)
  then show ?case using Cons.IH [of "m(database_key_of k := old_value c)"] Cons.prems x by (simp add: hm_wf_def fun_upd_def)
qed

text \<open>A store holds the log of a commit.\<close>

definition holds_log :: "'id id_ops \<Rightarrow> (database_key \<Rightarrow> bytes option) \<Rightarrow> 'id \<Rightarrow> change_batch \<Rightarrow> bool" where
  "holds_log I m i batch \<longleftrightarrow> hm_wf batch \<and>
     (\<forall>b. prefix (to_bytes I i) b \<longrightarrow> m (DbTrieLog b) = map_of (serialize I i batch) b)"

lemma serialize_prefix: "(b, v) \<in> set (serialize I i batch) \<Longrightarrow> prefix (to_bytes I i) b"
  by (auto simp: serialize_entries enc_entry_def key_old_value_def key_new_value_def split: if_splits)

lemma distinct_serialize: "hm_wf batch \<Longrightarrow> distinct (map fst (serialize I i batch))"
proof -
  assume wf: "hm_wf batch"
  let ?f = "\<lambda>(k, old). if old then key_old_value I i k else key_new_value I i k"
  have "inj ?f"
    using enc_entry_inj [of I i "(k, old, [])" "(k', old', [])" for k old k' old'] by (auto simp: inj_def enc_entry_def)
  then have "distinct (map ?f (map (\<lambda>(k, old, v). (k, old)) (concat (map entries batch))))"
    using distinct_entries [OF wf] by (subst distinct_map) (auto intro: inj_on_subset)
  moreover have "map fst (serialize I i batch) = map ?f (map (\<lambda>(k, old, v). (k, old)) (concat (map entries batch)))"
    by (simp add: serialize_entries enc_entry_def comp_def case_prod_unfold)
  ultimately show ?thesis by simp
qed

lemma fold_logs_map:
  "distinct (map fst logs) \<Longrightarrow>
    fold (\<lambda>(k, v) m. m(DbTrieLog k \<mapsto> v)) logs m (DbTrieLog b) = (case map_of logs b of None \<Rightarrow> m (DbTrieLog b) | Some v \<Rightarrow> Some v)"
proof (induction logs arbitrary: m)
  case (Cons x logs)
  obtain k v where x: "x = (k, v)" by fastforce
  have "map_of logs k = None" using Cons.prems x by (simp add: map_of_eq_None_iff)
  then show ?case using Cons x by (auto split: option.split)
qed simp

lemma fold_logs_row:
  "fold (\<lambda>(k, v) m. m(DbTrieLog k \<mapsto> v)) logs m (DbTrieLog b) \<noteq> None \<Longrightarrow> b \<in> fst ` set logs \<or> m (DbTrieLog b) \<noteq> None"
  by (induction logs arbitrary: m) (fastforce split: if_splits)+

text \<open>The logs in a store are of the commits in an interval.\<close>

definition logs_within :: "'id id_ops \<Rightarrow> (database_key \<Rightarrow> bytes option) \<Rightarrow> nat \<Rightarrow> nat \<Rightarrow> bool" where
  "logs_within I m lo hi \<longleftrightarrow>
     (\<forall>l. m (DbTrieLog l) \<noteq> None \<longrightarrow> (\<exists>j \<in> {lo..<hi}. prefix (to_bytes I (from_u64 I (word_of_nat j))) l))"

lemma checked_sub_window:
  assumes "n < 2 ^ 64" "unat m \<le> n"
  shows "checked_sub (word_of_nat n) m = Some (word_of_nat (n - unat m))"
proof -
  have "unat (word_of_nat n :: 64 word) = n" using assms(1) by (simp add: unat_of_nat)
  then have "m \<le> word_of_nat n" using assms(2) by (simp add: word_le_nat_alt)
  moreover have "word_of_nat (n - unat m) = (word_of_nat n :: 64 word) - m" using assms(2) by (simp add: of_nat_diff)
  ultimately show ?thesis by (simp add: checked_sub_def)
qed

text \<open>Commits one after the other, each with the changes recorded since the one before.\<close>

fun commit_each ::
  "('db, 'batch, 'e) db_ops \<Rightarrow> 'id id_ops \<Rightarrow> change_batch list \<Rightarrow> nat \<Rightarrow> ('db, 'id) key_value_db \<Rightarrow> ('db, 'id) key_value_db" where
  "commit_each B I [] n kv = kv"
| "commit_each B I (changes # batches) n kv =
     commit_each B I batches (Suc n)
       (snd (kv_commit B I (from_u64 I (word_of_nat n)) (kv\<lparr>changes_store := \<lparr>current_changes = changes\<rparr>\<rparr>) :: ('e, unit) outcome \<times> _))"

section \<open>The log of a commit\<close>

context kv_store
begin

lemma kv_commit_log:
  assumes ok: "ok (kv_db kv)" and wf: "hm_wf (current_changes (changes_store kv))"
    and max: "max_saved_trie_logs (config kv) \<noteq> Some 0"
    and none: "\<forall>b. prefix (to_bytes I i) b \<longrightarrow> view (kv_db kv) (DbTrieLog b) = None"
  shows "\<exists>kv'. kv_commit B I i kv = (Inr () :: ('e, unit) outcome, kv') \<and> ok (kv_db kv') \<and>
    holds_log I (view (kv_db kv')) i (current_changes (changes_store kv))"
proof -
  let ?logs = "serialize I i (current_changes (changes_store kv))"
  obtain kv' where kv': "kv_commit B I i kv = (Inr () :: ('e, unit) outcome, kv')" "ok (kv_db kv')"
    "view (kv_db kv') = (\<lambda>k. if out_of_window I (config kv) i k then None
      else fold (\<lambda>(k, v) m. m(DbTrieLog k \<mapsto> v)) ?logs (view (kv_db kv)) k)"
    using kv_commit_rows [OF ok max, of i] by blast
  have "\<not> out_of_window I (config kv) i (DbTrieLog b)" if own: "prefix (to_bytes I i) b" for b
  proof
    assume "out_of_window I (config kv) i (DbTrieLog b)"
    then obtain j where j: "Option.bind (max_saved_trie_logs (config kv)) (checked_sub (as_u64 I i)) = Some j"
      "prefix (to_bytes I (from_u64 I j)) b" by (auto simp: out_of_window_def under_prefix_def)
    obtain zs where "b = to_bytes I i @ zs" using own by (auto simp: prefix_def)
    then have "from_u64 I j = i" using j(2) by (simp add: to_bytes_prefix)
    then have "j = as_u64 I i" using as_from_u64 by metis
    then show False using j(1) max by (auto simp: checked_sub_def bind_eq_Some_conv split: if_splits)
  qed
  then have "view (kv_db kv') (DbTrieLog b) = map_of ?logs b" if "prefix (to_bytes I i) b" for b
    using that none by (simp add: kv'(3) fold_logs_map [OF distinct_serialize [OF wf]] split: option.split)
  then show ?thesis using kv'(1,2) wf by (auto simp: holds_log_def)
qed

text \<open>
  When the commits are numbered one after the other, the logs in the store are those of the last
  commits, as many as the configuration says.
\<close>

lemma kv_commit_window:
  assumes ok: "ok (kv_db kv)" and max: "max_saved_trie_logs (config kv) = Some m" "m \<noteq> 0" and n: "n < 2 ^ 64"
    and logs: "logs_within I (view (kv_db kv)) (n - unat m) n"
  shows "\<exists>kv'. kv_commit B I (from_u64 I (word_of_nat n)) kv = (Inr () :: ('e, unit) outcome, kv') \<and> ok (kv_db kv') \<and>
    config kv' = config kv \<and> logs_within I (view (kv_db kv')) (Suc n - unat m) (Suc n)"
proof -
  let ?i = "from_u64 I (word_of_nat n)" and ?id = "\<lambda>j. to_bytes I (from_u64 I (word_of_nat j))"
  let ?logs = "serialize I ?i (current_changes (changes_store kv))"
  obtain kv' where kv': "kv_commit B I ?i kv = (Inr () :: ('e, unit) outcome, kv')" "ok (kv_db kv')" "config kv' = config kv"
    "view (kv_db kv') = (\<lambda>k. if out_of_window I (config kv) ?i k then None
      else fold (\<lambda>(k, v) m. m(DbTrieLog k \<mapsto> v)) ?logs (view (kv_db kv)) k)"
    using kv_commit_rows [OF ok, of ?i] max by auto
  have pos: "0 < unat m" using max(2) by (simp add: unat_gt_0)
  have "\<exists>j \<in> {Suc n - unat m ..< Suc n}. prefix (?id j) l" if l: "view (kv_db kv') (DbTrieLog l) \<noteq> None" for l
  proof -
    have stays: "\<not> out_of_window I (config kv) ?i (DbTrieLog l)"
      and row: "fold (\<lambda>(k, v) m. m(DbTrieLog k \<mapsto> v)) ?logs (view (kv_db kv)) (DbTrieLog l) \<noteq> None"
      using l by (auto simp: kv'(4) split: if_splits)
    from fold_logs_row [OF row] consider "l \<in> fst ` set ?logs" | "view (kv_db kv) (DbTrieLog l) \<noteq> None" by blast
    then show ?thesis
    proof cases
      case 1
      then have "prefix (?id n) l" using serialize_prefix by fastforce
      then show ?thesis using pos by (intro bexI [of _ n]) auto
    next
      case 2
      then obtain j where j: "n - unat m \<le> j" "j < n" "prefix (?id j) l"
        using logs unfolding logs_within_def by (metis atLeastLessThan_iff)
      have "Suc n - unat m \<le> j"
      proof (rule ccontr)
        assume "\<not> ?thesis"
        then have le: "unat m \<le> n" and "j = n - unat m" using j(1) by auto
        then have "checked_sub (word_of_nat n) m = Some (word_of_nat j)"
          using n by (simp add: checked_sub_window)
        then show False using stays j(3) max(1) by (simp add: out_of_window_def under_prefix_def as_from_u64)
      qed
      then show ?thesis using j by auto
    qed
  qed
  then show ?thesis using kv' by (auto simp: logs_within_def)
qed

lemma commit_each_window:
  assumes "ok (kv_db kv)" "max_saved_trie_logs (config kv) = Some m" "m \<noteq> 0" "n + length batches \<le> 2 ^ 64"
    and "logs_within I (view (kv_db kv)) (n - unat m) n"
  shows "logs_within I (view (kv_db (commit_each B I batches n kv))) (n + length batches - unat m) (n + length batches)"
  using assms
proof (induction batches arbitrary: n kv)
  case (Cons changes batches)
  let ?kv = "kv\<lparr>changes_store := \<lparr>current_changes = changes\<rparr>\<rparr>"
  obtain kv' where kv': "kv_commit B I (from_u64 I (word_of_nat n)) ?kv = (Inr () :: ('e, unit) outcome, kv')" "ok (kv_db kv')"
    "config kv' = config kv" "logs_within I (view (kv_db kv')) (Suc n - unat m) (Suc n)"
    using kv_commit_window [of ?kv m n] Cons.prems by auto
  then show ?case using Cons.IH [of kv' "Suc n"] Cons.prems by simp
qed simp

lemma log_reads_back:
  assumes "ok db" "holds_log I (view db) i batch"
  shows "\<exists>xs out. db_get_by_prefix B db (DbTrieLog (to_bytes I i)) = Inr xs \<and>
    deserialize I i xs = (Inr out :: ('x, change_batch) outcome) \<and> hm_wf out \<and>
    (\<forall>k. map_option old_value (hm_get out k) = undo_of batch k) \<and>
    (\<forall>(k, c) \<in> set out. old_value c \<noteq> None \<or> new_value c \<noteq> None)"
proof -
  obtain xs where xs: "db_get_by_prefix B db (DbTrieLog (to_bytes I i)) = Inr xs" "distinct (map fst xs)"
    "\<forall>b. map_of xs b = (if prefix (to_bytes I i) b then view db (DbTrieLog b) else None)"
    using prefix_view [OF assms(1), of "DbTrieLog (to_bytes I i)"] by auto
  have "map_of xs b = map_of (serialize I i batch) b" for b
    using xs(3) assms(2) serialize_prefix [of b _ I i batch] map_of_SomeD [of "serialize I i batch" b]
    by (cases "prefix (to_bytes I i) b") (auto simp: holds_log_def, metis not_None_eq)
  then show ?thesis using deserialize_any_order [of batch xs I i] xs(1,2) assms(2) by (auto simp: holds_log_def fun_eq_iff)
qed

end

section \<open>The contents of a transaction\<close>

locale transaction_store = kv_store B ok view pending I width + tx: batch_database T tok tview tpending
  for B :: "('db, 'batch, 'e) db_ops" and ok :: "'db \<Rightarrow> bool"
    and view :: "'db \<Rightarrow> database_key \<Rightarrow> bytes option"
    and pending :: "'db \<Rightarrow> 'batch \<Rightarrow> database_key \<Rightarrow> bytes option"
    and I :: "'id id_ops" and width :: nat
    and T :: "('txn, 'tbatch, 'te) db_ops" and tok :: "'txn \<Rightarrow> bool"
    and tview :: "'txn \<Rightarrow> database_key \<Rightarrow> bytes option"
    and tpending :: "'txn \<Rightarrow> 'tbatch \<Rightarrow> database_key \<Rightarrow> bytes option"
begin

lemma apply_backwards_pending:
  assumes "tok x" "\<forall>(k, c) \<in> set changes. old_value c \<noteq> None \<or> new_value c \<noteq> None"
  shows "\<exists>x' b'. apply_backwards T changes (x, Some b) = (Inr () :: ('te, unit) outcome, x', Some b') \<and> tok x' \<and>
    tpending x' b' = fold (\<lambda>(k, c) m. m(database_key_of k := old_value c)) changes (tpending x b)"
  using assms
proof (induction changes arbitrary: x b)
  case Nil
  then show ?case by (simp add: retS_def)
next
  case (Cons y changes)
  obtain k c where y: "y = (k, c)" by fastforce
  obtain r x1 b1 where step: "(case old_value c of Some old \<Rightarrow> db_insert T x (database_key_of k) old (Some b)
        | None \<Rightarrow> db_remove T x (database_key_of k) (Some b)) = (Inr r, x1, Some b1)" "tok x1"
    "tpending x1 b1 = (tpending x b)(database_key_of k := old_value c)"
    using tx.insert_pending [OF Cons.prems(1), of "database_key_of k" "the (old_value c)" b]
      tx.remove_pending [OF Cons.prems(1), of "database_key_of k" b] by (cases "old_value c") auto
  have "apply_backwards T (y # changes) (x, Some b) = (apply_backwards T changes (x1, Some b1) :: ('te, unit) outcome \<times> _)"
    using step(1) Cons.prems(2) y by (cases "old_value c"; cases "new_value c") auto
  then show ?case using Cons.IH [OF step(2), of b1] Cons.prems(2) step(3) y by simp
qed

lemma apply_logs_pending:
  assumes "ok (kv_db kv)" "tok x"
    "\<forall>n \<in> set ns. holds_log I (view (kv_db kv)) (from_u64 I (word_of_nat n)) (L n)"
  shows "\<exists>x' b'. apply_logs B T I kv ns (x, Some b) = (Inr () :: ('te, unit) outcome, x', Some b') \<and> tok x' \<and>
    tpending x' b' = fold (\<lambda>n. undo (undo_of (L n))) ns (tpending x b)"
  using assms(2,3)
proof (induction ns arbitrary: x b)
  case Nil
  then show ?case by (simp add: retS_def)
next
  case (Cons n ns)
  let ?i = "from_u64 I (word_of_nat n)"
  obtain xs out where log: "db_get_by_prefix B (kv_db kv) (DbTrieLog (to_bytes I ?i)) = Inr xs"
    "deserialize I ?i xs = (Inr out :: ('te, change_batch) outcome)" "hm_wf out"
    "\<forall>k. map_option old_value (hm_get out k) = undo_of (L n) k"
    "\<forall>(k, c) \<in> set out. old_value c \<noteq> None \<or> new_value c \<noteq> None"
    using log_reads_back [OF assms(1), of ?i "L n"] Cons.prems(2) by auto
  obtain x1 b1 where ab: "apply_backwards T out (x, Some b) = (Inr () :: ('te, unit) outcome, x1, Some b1)" "tok x1"
    "tpending x1 b1 = undo (undo_of (L n)) (tpending x b)"
    using apply_backwards_pending [OF Cons.prems(1) log(5), of b] fold_old_values [OF log(3)] log(4) by auto
  show ?case using Cons.IH [OF ab(2), of b1] Cons.prems(2) log(1,2) ab by (simp add: bindS_def)
qed

lemma get_transaction_view:
  assumes ok: "ok (kv_db kv)" and txn: "db_transaction P (kv_db kv) i = Inr (Some (snap_id, x))" "tok x"
    and logs: "\<forall>n \<in> {unat (as_u64 I snap_id) ..< unat (as_u64 I i)}.
      holds_log I (view (kv_db kv)) (from_u64 I (word_of_nat n)) (L n)"
  shows "\<exists>x'. get_transaction B P T I kv i = (Inr (Some x') :: ('te, 'txn option) outcome) \<and> tok x' \<and>
    tview x' = fold (\<lambda>n. undo (undo_of (L n))) [unat (as_u64 I snap_id) ..< unat (as_u64 I i)] (tview x)"
proof -
  let ?ns = "[unat (as_u64 I snap_id) ..< unat (as_u64 I i)]"
  obtain x1 b1 where al: "apply_logs B T I kv ?ns (x, Some (create_batch T x)) = (Inr () :: ('te, unit) outcome, x1, Some b1)" "tok x1"
    "tpending x1 b1 = fold (\<lambda>n. undo (undo_of (L n))) ?ns (tview x)"
    using apply_logs_pending [OF ok txn(2), of ?ns L "create_batch T x"] logs tx.create_pending [OF txn(2)] by auto
  obtain x2 where "db_write_batch T x1 b1 = (Inr (), x2)" "tok x2" "tview x2 = tpending x1 b1"
    using tx.write_view [OF al(2)] by blast
  then show ?thesis using txn(1) al by (simp add: get_transaction_def Let_def)
qed

end

lemma upt_split: "a \<le> n \<Longrightarrow> n < b \<Longrightarrow> [a..<b] = [a..<n] @ n # [Suc n..<b]"
  using upt_add_eq_append [of a n "b - n"] by (simp add: upt_conv_Cons)

text \<open>The last log that has a key decides what the transaction holds for it.\<close>

lemma fold_undo_last:
  assumes "undo_of (L n) k = Some old" "\<forall>n' \<in> set ns'. undo_of (L n') k = None"
  shows "fold (\<lambda>n. undo (undo_of (L n))) (ns @ n # ns') m (database_key_of k) = old"
proof -
  have k: "trie_key_of (database_key_of k) = Some k" by (simp add: trie_key_of_eq)
  have "fold (\<lambda>n. undo (undo_of (L n))) ns' m (database_key_of k) = m (database_key_of k)" for m
    using assms(2) by (induction ns' arbitrary: m) (simp_all add: undo_def k)
  then show ?thesis using assms(1) by (simp add: undo_def k)
qed

interpretation hashmap_txn: transaction_store hashmap_ops hashmap_ok hashmap_view hashmap_pending basic_ops 8
  hashmap_ops hashmap_ok hashmap_view hashmap_pending
  by unfold_locales

interpretation rocks_transactions:
  transaction_store "rocks_ops A" "rocks_ok A V" "rocks_view A V" "rocks_pending A V" basic_ops 8
    "rocks_txn_ops A" "rocks_txn_ok A V" "rocks_txn_view V" "rocks_txn_pending V"
  for A :: "('rdb, 'cf, 'wb, 'snap, 'txn, 'err) rocksdb_api" and V :: "('rdb, 'cf, 'wb, 'snap, 'txn) rocksdb_meaning"
  by unfold_locales

end
