(* ===== verification/Sample_Rocks.thy ===== *)
theory Sample_Rocks
  imports Rocks_Correct Sample_Ops
begin

text \<open>
  A database in memory that behaves as RocksDB documents, for the examples: the rows of all
  column families in one association list, write batches as lists of writes, the last one first,
  and transactions as a database with a batch.
\<close>

type_synonym mem_db = "((string \<times> bytes) \<times> bytes) list"
type_synonym mem_batch = "((string \<times> bytes) \<times> bytes option) list"

definition mem_write :: "(string \<times> bytes) \<times> bytes option \<Rightarrow> mem_db \<Rightarrow> mem_db" where
  "mem_write x db = (case x of (k, Some v) \<Rightarrow> AList.update k v db | (k, None) \<Rightarrow> AList.delete k db)"

definition mem_apply :: "mem_batch \<Rightarrow> mem_db \<Rightarrow> mem_db" where
  "mem_apply b db = foldr mem_write b db"

definition mem_items :: "mem_db \<Rightarrow> string \<Rightarrow> bytes \<Rightarrow> (unit + bytes \<times> bytes) list" where
  "mem_items db h p =
     map Inr (sort_key fst (map (\<lambda>((_, k), v). (k, v)) (filter (\<lambda>((h', k), v). h' = h \<and> p \<le> k) db)))"

definition mem_api :: "(mem_db, string, mem_batch, mem_db, mem_db \<times> mem_batch, unit) rocksdb_api" where
  "mem_api =
     \<lparr>cf_handle = (\<lambda>db name. if name \<in> {TRIE_LOG_CF, TRIE_CF, FLAT_CF} then Some name else None),
      get_cf = (\<lambda>db h k. Inr (map_of db (h, k))),
      put_cf = (\<lambda>db h k v. (Inr (), mem_write ((h, k), Some v) db)),
      delete_cf = (\<lambda>db h k. (Inr (), mem_write ((h, k), None) db)),
      iterator_cf = mem_items,
      rdb_write = (\<lambda>db b. (Inr (), mem_apply b db)),
      batch_default = [],
      batch_put_cf = (\<lambda>b h k v. ((h, k), Some v) # b),
      batch_delete_cf = (\<lambda>b h k. ((h, k), None) # b),
      rdb_snapshot = (\<lambda>db. db),
      transaction_opt = (\<lambda>db. (db, [])),
      txn_get_cf_opt = (\<lambda>(db, b) h k s. Inr (map_of (mem_apply b s) (h, k))),
      txn_put_cf = (\<lambda>(db, b) h k v. (Inr (), (db, ((h, k), Some v) # b))),
      txn_delete_cf = (\<lambda>(db, b) h k. (Inr (), (db, ((h, k), None) # b))),
      txn_iterator_cf = (\<lambda>(db, b). mem_items (mem_apply b db)),
      txn_get_writebatch = snd,
      txn_rebuild_from_writebatch = (\<lambda>(db, b) b'. (Inr (), (db, b' @ b))),
      txn_commit = (\<lambda>(_, b) db. (Inr (), mem_apply b db))\<rparr>"

definition mem_rows :: "mem_db \<Rightarrow> string cf_rows" where
  "mem_rows db h k = map_of db (h, k)"

definition mem_writes :: "mem_batch \<Rightarrow> string cf_writes" where
  "mem_writes b h k = map_of b (h, k)"

definition mem_meaning :: "(mem_db, string, mem_batch, mem_db, mem_db \<times> mem_batch) rocksdb_meaning" where
  "mem_meaning =
     \<lparr>healthy = (\<lambda>db. distinct (map fst db)), rows = mem_rows, batch_writes = mem_writes, snap_rows = mem_rows,
      txn_healthy = (\<lambda>(db, b). distinct (map fst db)), txn_base = (\<lambda>(db, b). mem_rows db),
      txn_writes = (\<lambda>(db, b). mem_writes b)\<rparr>"

lemma mem_write_rows: "mem_rows (mem_write ((h, k), x) db) = set_row h k x (mem_rows db)"
  by (cases x) (auto simp: mem_write_def mem_rows_def set_row_apply fun_eq_iff update_conv' delete_conv')

lemma mem_write_distinct: "distinct (map fst db) \<Longrightarrow> distinct (map fst (mem_write x db))"
  by (auto simp: mem_write_def distinct_update distinct_delete split: prod.split option.split)

lemma mem_writes_Cons: "mem_writes (((h, k), x) # b) = set_row h k (Some x) (mem_writes b)"
  by (auto simp: mem_writes_def set_row_apply fun_eq_iff)

lemma mem_writes_Nil: "mem_writes [] = (\<lambda>_ _. None)"
  by (simp add: mem_writes_def fun_eq_iff)

lemma mem_apply_rows: "mem_rows (mem_apply b db) = overlay (mem_writes b) (mem_rows db)"
  by (induction b) (auto simp: mem_apply_def mem_writes_Nil mem_writes_Cons overlay_set_row mem_write_rows)

lemma mem_apply_cong: "mem_rows db = mem_rows db' \<Longrightarrow> mem_rows (mem_apply b db) = mem_rows (mem_apply b db')"
  by (simp add: mem_apply_rows)

lemma mem_apply_distinct: "distinct (map fst db) \<Longrightarrow> distinct (map fst (mem_apply b db))"
  by (induction b) (auto simp: mem_apply_def mem_write_distinct)

lemma mem_writes_append: "mem_writes (b' @ b) = then_writes (mem_writes b) (mem_writes b')"
  by (auto simp: mem_writes_def then_writes_def fun_eq_iff map_add_def split: option.split)

lemma mem_items_from: "distinct (map fst db) \<Longrightarrow> items_from (mem_rows db h) p (mem_items db h p)"
proof -
  assume d: "distinct (map fst db)"
  let ?ys = "filter (\<lambda>((h', k), v). h' = h \<and> p \<le> k) db"
  let ?xs = "map (\<lambda>((_, k), v). (k, v)) ?ys"
  have "distinct (map fst ?ys)" using d by (simp add: distinct_map_filter)
  moreover have "map fst ?xs = map (\<lambda>x. snd (fst x)) ?ys" by (simp add: case_prod_unfold)
  moreover have "inj_on snd (fst ` set ?ys)" by (auto simp: inj_on_def)
  ultimately have "distinct (map fst ?xs)" by (simp add: distinct_map inj_on_def)
  then have "distinct ?xs \<and> inj_on fst (set ?xs)" unfolding distinct_map .
  then have "distinct (map fst (sort_key fst ?xs))" unfolding distinct_map set_sort distinct_sort .
  then have "sorted_wrt (<) (map fst (sort_key fst ?xs))"
    unfolding strict_sorted_iff using sorted_sort_key by blast
  moreover have "(k, v) \<in> set (sort_key fst ?xs) \<longleftrightarrow> p \<le> k \<and> mem_rows db h k = Some v" for k v
    using d by (force simp: mem_rows_def)
  ultimately show ?thesis unfolding items_from_def mem_items_def by blast
qed

lemma mem_documented: "rocksdb_documented mem_api mem_meaning"
  unfolding rocksdb_documented_def
proof (intro conjI)
  show "db_documented mem_api mem_meaning"
    by (auto simp: db_documented_def mem_api_def mem_meaning_def mem_write_rows mem_write_distinct mem_items_from mem_apply_rows
        mem_apply_distinct) (simp add: mem_rows_def)
  show "batch_documented mem_api mem_meaning"
    by (simp add: batch_documented_def mem_api_def mem_meaning_def mem_writes_Cons mem_writes_Nil)
  show "txn_documented mem_api mem_meaning"
    by (auto simp: txn_documented_def mem_api_def mem_meaning_def mem_writes_Cons mem_writes_Nil mem_items_from mem_apply_rows
        [symmetric] mem_apply_distinct mem_writes_append intro: mem_apply_cong) (simp_all add: mem_rows_def)
qed


section \<open>A storage over it\<close>

type_synonym mem_rocks = "(mem_db, mem_db, basic_id) rocks_db"

definition mem_rocks_new :: mem_rocks where
  "mem_rocks_new = rocks_db_new [] rocks_db_config_default"

lemma mem_cf_ready: "cf_ready (cf_handle mem_api db)"
  by (simp add: cf_ready_def mem_api_def)

lemma mem_rocks_ok: "rocks_ok mem_api mem_meaning db \<longleftrightarrow> distinct (map fst (rdb db))"
  by (simp add: rocks_ok_def mem_documented mem_cf_ready) (simp add: mem_meaning_def)

lemma mem_rocks_empty: "rocks_empty mem_api mem_meaning mem_rocks_new"
  by (simp add: rocks_empty_def mem_rocks_ok mem_rocks_new_def rocks_db_new_def rocks_view_def row_of_def)
    (simp add: mem_meaning_def mem_rows_def)

definition sample_rocks_storage :: "(byte, mem_rocks, basic_id) bonsai_storage" where
  "sample_rocks_storage =
     snd (storage_insert 5 sample_ops (rocks_ops mem_api) [200] sample_key 5
       (storage_new mem_rocks_new storage_config_default 8))"

lemma sample_rocks_run:
  "rocks_run 5 mem_api mem_meaning sample_ops sample_ids 8 sample_rocks_storage
     (set_content [200] sample_key (Some 5) (\<lambda>_ _. None)) (\<lambda>_ _. None) {([200], sample_key)}"
proof -
  have "rocks_run 5 mem_api mem_meaning sample_ops sample_ids 8 (storage_new mem_rocks_new storage_config_default 8)
      (\<lambda>_ _. None) (\<lambda>_ _. None) {}"
    by (rule run_new) (simp_all add: mem_rocks_empty storage_config_default_def)
  then show ?thesis
    unfolding sample_rocks_storage_def
    by (rule run_insert [OF _ _ _ _ _ _ prod.collapse [symmetric], where key = sample_key and v = 5]) simp_all
qed

end
