(* ===== verification/Sample_Txn.thy ===== *)
theory Sample_Txn
  imports Transactions Sample_Rocks
begin

text \<open>One change of a leaf, before it is committed and in the log of a commit, for the examples.\<close>

definition sample_changes :: change_batch where
  "sample_changes = [(Flat [1], \<lparr>old_value = None, new_value = Some [7]\<rparr>)]"

definition sample_kv :: "(basic_id hashmap_db, basic_id) key_value_db" where
  "sample_kv = (kv_new hashmap_default kv_config_default None)\<lparr>changes_store := \<lparr>current_changes = sample_changes\<rparr>\<rparr>"

definition sample_log :: "bytes" where
  "sample_log = key_new_value basic_ops (BasicId 0) (Flat [1])"

definition sample_txn_kv :: "(mem_rocks, basic_id) key_value_db" where
  "sample_txn_kv = kv_new
     \<lparr>rdb = [((FLAT_CF, [1]), [7]), ((TRIE_LOG_CF, sample_log), [7])],
      rocks_config = rocks_db_config_default, rocks_snapshots = [(BasicId 0, [((FLAT_CF, [1]), [7])])]\<rparr> kv_config_default None"

definition sample_log_kv :: "(basic_id hashmap_db, basic_id) key_value_db" where
  "sample_log_kv = kv_new
     (HashMapDb [] [([1], [7])] [(sample_log, [7])] [(BasicId 0, HashMapDb [] [([1], [7])] [] [])]) kv_config_default None"

lemma sample_undo [simp]: "undo_of sample_changes (Flat [1]) = Some None"
  "hm_get (filter effective sample_changes) (Flat [1]) = Some \<lparr>old_value = None, new_value = Some [7]\<rparr>"
  "hm_wf sample_changes"
  by (simp_all add: sample_changes_def undo_of_def effective_def hm_get_def hm_wf_def)

lemma sample_serialize [simp]: "serialize basic_ops (BasicId 0) sample_changes = [(sample_log, [7])]"
  by (simp add: serialize_def serialize_one_def sample_changes_def sample_log_def)

lemma sample_kv [simp]:
  "hashmap_ok (kv_db sample_kv)" "current_changes (changes_store sample_kv) = sample_changes"
  "max_saved_trie_logs (config sample_kv) \<noteq> Some 0" "hashmap_view (kv_db sample_kv) (DbTrieLog b) = None"
  by (simp_all add: sample_kv_def kv_new_def hashmap_default_def hashmap_ok_def hm_wf_def kv_config_default_def
      hashmap_view_def hm_get_def)

lemma sample_txn_kv:
  "rocks_ok mem_api mem_meaning (kv_db sample_txn_kv)"
  "btree_first_below (BasicId 1) (rocks_snapshots (kv_db sample_txn_kv)) = Some (BasicId 0, [((FLAT_CF, [1]), [7])])"
  "holds_log basic_ops (rocks_view mem_api mem_meaning (kv_db sample_txn_kv)) (BasicId 0) sample_changes"
proof -
  show "rocks_ok mem_api mem_meaning (kv_db sample_txn_kv)"
    by (simp add: mem_rocks_ok sample_txn_kv_def kv_new_def)
  show "btree_first_below (BasicId 1) (rocks_snapshots (kv_db sample_txn_kv)) = Some (BasicId 0, [((FLAT_CF, [1]), [7])])"
    by (simp add: sample_txn_kv_def kv_new_def btree_first_below_def less_basic_id_def)
  have "rocks_view mem_api mem_meaning (kv_db sample_txn_kv) (DbTrieLog b) = map_of [(sample_log, [7])] b" for b
    by (simp add: rocks_view_def row_of_def mem_meaning_def mem_rows_def mem_api_def sample_txn_kv_def kv_new_def)
  then show "holds_log basic_ops (rocks_view mem_api mem_meaning (kv_db sample_txn_kv)) (BasicId 0) sample_changes"
    by (simp add: holds_log_def)
qed

lemma sample_log_kv:
  "hashmap_ok (kv_db sample_log_kv)"
  "hashmap_transaction (kv_db sample_log_kv) (BasicId 1) = Inr (Some (BasicId 0, HashMapDb [] [([1], [7])] [] []))"
  "hashmap_ok (HashMapDb [] [([1], [7])] [] [] :: basic_id hashmap_db)"
  "holds_log basic_ops (hashmap_view (kv_db sample_log_kv)) (BasicId 0) sample_changes"
  "hashmap_get (kv_db sample_log_kv) (DbFlat [1]) = Inr (Some [7])"
  by (simp_all add: sample_log_kv_def kv_new_def hashmap_ok_def hashmap_transaction_def btree_first_below_def
      less_basic_id_def holds_log_def hashmap_view_def hm_get_def hashmap_get_def) (simp_all add: hm_wf_def)

end
