(* ===== verification/Sample_Proofs.thy ===== *)
theory Sample_Proofs
  imports Sample_Ops Storage_Queries
begin

text \<open>
  Runs over the sample functions: committed storages with one and two leaves, one map reached by
  two histories, and trees in which an edge is about to be split.
\<close>

lemma sample_committed:
  obtains s where "storage_commit sample_ops hashmap_ops hashmap_persistent basic_ops (BasicId 0) sample_storage =
      (Inr () :: (hashmap_db_error, unit) outcome, s)"
    "hashmap_run 5 sample_ops sample_ids 8 s (set_content [200] sample_key (Some 5) (\<lambda>_ _. None))
      (set_content [200] sample_key (Some 5) (\<lambda>_ _. None)) {}"
proof -
  obtain m m0 where inv: "storage_inv 5 sample_ops hashmap_ops hashmap_ok sample_ids 8 sample_storage
      (set_content [200] sample_key (Some 5) (\<lambda>_ _. None)) (\<lambda>_ _. None) {([200], sample_key)} m m0"
    using hashmap_run_inv [OF sample_run] by auto
  obtain s where s: "storage_commit sample_ops hashmap_ops hashmap_persistent basic_ops (BasicId 0) sample_storage =
      (Inr () :: (hashmap_db_error, unit) outcome, s)"
    using hashmap_storage.storage_commit_hash [OF inv, of "BasicId 0"] by auto
  show thesis by (rule that [OF s run_commit [OF sample_run s]])
qed

text \<open>A committed storage with a leaf on each side of the root.\<close>

definition two_sides :: "byte content" where
  "two_sides = set_content [200] (replicate 8 True) (Some 6) (set_content [200] sample_key (Some 5) (\<lambda>_ _. None))"

lemma sample_two_sides:
  obtains s x where "hashmap_run 5 sample_ops sample_ids 8 s two_sides two_sides {}"
    "storage_root_hash sample_ops hashmap_ops s [200] = (Inr x :: (hashmap_db_error, byte) outcome)"
proof -
  obtain r s1 where "storage_insert 5 sample_ops hashmap_ops [200] (replicate 8 True) 6 sample_storage =
      (r :: (hashmap_db_error, unit) outcome, s1)" by fastforce
  moreover have "sample_key \<noteq> replicate 8 True" by (simp add: sample_key_def numeral_eq_Suc)
  ultimately have run: "hashmap_run 5 sample_ops sample_ids 8 s1 two_sides (\<lambda>_ _. None) {([200], replicate 8 True), ([200], sample_key)}"
    unfolding two_sides_def by (intro run_insert [OF sample_run]) auto
  then obtain m m0 where inv: "storage_inv 5 sample_ops hashmap_ops hashmap_ok sample_ids 8 s1 two_sides (\<lambda>_ _. None)
      {([200], replicate 8 True), ([200], sample_key)} m m0"
    using hashmap_run_inv by fastforce
  then obtain s where s: "storage_commit sample_ops hashmap_ops hashmap_persistent basic_ops (BasicId 0) s1 =
      (Inr () :: (hashmap_db_error, unit) outcome, s)"
    using hashmap_storage.storage_commit_hash [OF inv, of "BasicId 0"] by auto
  then have "hashmap_run 5 sample_ops sample_ids 8 s two_sides two_sides {}" by (rule run_commit [OF run])
  moreover from this obtain m m0 where "storage_inv 5 sample_ops hashmap_ops hashmap_ok sample_ids 8 s two_sides two_sides {} m m0"
    using hashmap_run_inv by fastforce
  ultimately show thesis using hashmap_storage.storage_root_hash_inv that by fastforce
qed

lemma sample_trie:
  assumes "trie_of 8 (set_content [200] sample_key (Some 5) (\<lambda>_ _. None) [200]) (Some p)"
  shows "p = PEdge sample_key (PLeaf (5 :: byte))"
proof -
  have "trie_of 8 (set_content [200] sample_key (Some 5) (\<lambda>_ _. None) [200]) (Some (PEdge sample_key (PLeaf (5 :: byte))))"
    by (auto simp: trie_of_def trie_wf_def trie_lookup_def set_content_def prefix_same_length)
  from trie_of_unique [OF assms this] show ?thesis by simp
qed

lemma sample_nodes_apart: "nodes_apart sample_ops (PEdge sample_key (PLeaf 5))"
  by (simp add: nodes_apart_def)

section \<open>One map, two histories\<close>

text \<open>
  The map with two leaves in one commit, in two, and with a value that is overwritten after its
  commit.
\<close>

definition one_commit :: "(byte, basic_id hashmap_db, basic_id) bonsai_storage" where
  "one_commit = snd (storage_insert 5 sample_ops hashmap_ops [200] (replicate 8 True) 6 sample_storage)"

definition three_commits :: "(byte, basic_id hashmap_db, basic_id) bonsai_storage" where
  "three_commits =
     (let commit = \<lambda>i s. snd (storage_commit sample_ops hashmap_ops hashmap_persistent basic_ops (BasicId i) s);
          insert = \<lambda>k v s. snd (storage_insert 5 sample_ops hashmap_ops [200] k v s);
          s = insert (replicate 8 True) 6 (storage_new hashmap_default storage_config_default 8);
          s = insert sample_key 7 (commit 0 s)
      in insert sample_key 5 (commit 1 s))"

lemma key_sides: "sample_key \<noteq> replicate 8 True"
  by (simp add: sample_key_def numeral_eq_Suc)

lemma one_commit_run:
  "hashmap_run 5 sample_ops sample_ids 8 one_commit two_sides (\<lambda>_ _. None) {([200], replicate 8 True), ([200], sample_key)}"
  unfolding one_commit_def two_sides_def
  by (rule run_insert [OF sample_run _ _ _ _ _ prod.collapse [symmetric]]) (use key_sides in auto)

lemma three_commits_run:
  obtains c c0 d where "hashmap_run 5 sample_ops sample_ids 8 three_commits c c0 d" "c [200] = two_sides [200]"
proof -
  define c1 :: "byte content" where "c1 = set_content [200] (replicate 8 True) (Some 6) (\<lambda>_ _. None)"
  define c2 where "c2 = set_content [200] sample_key (Some 7) c1"
  let ?commit = "\<lambda>i s. snd (storage_commit sample_ops hashmap_ops hashmap_persistent basic_ops (BasicId i) s)"
  let ?insert = "\<lambda>k v s. snd (storage_insert 5 sample_ops hashmap_ops [200] k v s)"
  let ?s1 = "?insert (replicate 8 True) 6 (storage_new hashmap_default storage_config_default 8)"
  have "hashmap_run 5 sample_ops sample_ids 8 (storage_new hashmap_default storage_config_default 8) (\<lambda>_ _. None) (\<lambda>_ _. None) {}"
    by (rule run_new) (simp_all add: hashmap_empty_def hashmap_default_def storage_config_default_def)
  then have "hashmap_run 5 sample_ops sample_ids 8 ?s1 c1 (\<lambda>_ _. None) {([200], replicate 8 True)}"
    unfolding c1_def by (rule run_insert [OF _ _ _ _ _ _ prod.collapse [symmetric]]) simp_all
  then have "hashmap_run 5 sample_ops sample_ids 8 (?commit 0 ?s1) c1 c1 {}"
    by (rule run_commit [OF _ prod.collapse [symmetric]])
  then have "hashmap_run 5 sample_ops sample_ids 8 (?insert sample_key 7 (?commit 0 ?s1)) c2 c1 {([200], sample_key)}"
    unfolding c2_def by (rule run_insert [OF _ _ _ _ _ _ prod.collapse [symmetric]]) simp_all
  then have "hashmap_run 5 sample_ops sample_ids 8 (?commit 1 (?insert sample_key 7 (?commit 0 ?s1))) c2 c2 {}"
    by (rule run_commit [OF _ prod.collapse [symmetric]])
  then have "hashmap_run 5 sample_ops sample_ids 8 three_commits (set_content [200] sample_key (Some 5) c2) c2 {([200], sample_key)}"
    unfolding three_commits_def Let_def by (rule run_insert [OF _ _ _ _ _ _ prod.collapse [symmetric]]) simp_all
  moreover have "set_content [200] sample_key (Some 5) c2 [200] = two_sides [200]"
    using key_sides by (auto simp: c1_def c2_def two_sides_def set_content_def fun_eq_iff)
  ultimately show thesis by (rule that)
qed

section \<open>Trees whose edges are split\<close>

lemma empty_db_flat [simp]: "read_flat off F empty_db t k = Inr None"
  by (simp add: read_flat_def empty_db_def decode_flat_def)

lemma sample_set:
  assumes inv: "tree_inv sample_ops empty_db t pt" "leaf_inv 0 sample_ops empty_db t pt" and key: "length k = height_of t" "height_of t \<le> 8"
    and clear: "key_clear 0 t k" and v: "v \<noteq> 0" and new: "trie_lookup pt k = None"
  defines "t' \<equiv> snd (tree_set 0 sample_ops 8 empty_db k v t :: (unit, unit) outcome \<times> _)"
  shows "tree_inv sample_ops empty_db t' (trie_insert k v pt)" "leaf_inv 0 sample_ops empty_db t' (trie_insert k v pt)"
    "height_of t' = height_of t" "tree_ident t' = tree_ident t"
proof -
  have "tree_get 0 sample_ops empty_db t k = Inr None" using inv(2) key(1) new by (simp add: leaf_inv_def)
  then have "set_pre 0 sample_ops empty_db t k v"
    by (auto simp: set_pre_def tree_get_def split: option.splits insert_or_remove.splits)
  then have "\<exists>t'. tree_set 0 sample_ops 8 empty_db k v t = (Inr () :: (unit, unit) outcome, t') \<and> tree_inv sample_ops empty_db t' (trie_insert k v pt) \<and>
      leaf_inv 0 sample_ops empty_db t' (trie_insert k v pt) \<and> tree_ident t' = tree_ident t \<and> height_of t' = height_of t"
    by (intro tree_set_insert inv key clear) (use v in simp)
  then show "tree_inv sample_ops empty_db t' (trie_insert k v pt)" "leaf_inv 0 sample_ops empty_db t' (trie_insert k v pt)"
    "height_of t' = height_of t" "tree_ident t' = tree_ident t"
    by (auto simp: t'_def)
qed

text \<open>A leaf on each side of the root of the tree with identifier \<open>[200]\<close>.\<close>

definition two_leaves :: "byte merkle_tree" where
  "two_leaves =
     (let set = \<lambda>k v t. snd (tree_set 0 sample_ops 8 empty_db k v t :: (unit, unit) outcome \<times> _)
      in set (replicate 8 True) 6 (set sample_key 5 (tree_new [200] 8)))"

definition two_leaves_trie :: "byte ptree" where
  "two_leaves_trie = PBin (PEdge (tl sample_key) (PLeaf 5)) (PEdge (replicate 7 True) (PLeaf 6))"

lemma two_leaves_inv:
  "tree_inv sample_ops empty_db two_leaves (Some two_leaves_trie)" "height_of two_leaves = 8" "tree_ident two_leaves = [200]"
proof -
  have clear: "key_clear off t k" if "tree_ident t = [200]" "length k = 8" for off k and t :: "byte merkle_tree"
    by (rule key_safe_clear [OF sample_key_safe [OF that(2)]]) (simp add: that(1))
  let ?set = "\<lambda>k v t. snd (tree_set 0 sample_ops 8 empty_db k v t :: (unit, unit) outcome \<times> _)"
  have "key_clear 0 (tree_new [200] 8 :: byte merkle_tree) sample_key" by (rule clear) simp_all
  moreover have "trie_lookup None sample_key = (None :: byte option)" by (simp add: trie_lookup_def)
  ultimately have one: "tree_inv sample_ops empty_db (?set sample_key 5 (tree_new [200] 8)) (trie_insert sample_key 5 None)"
    "leaf_inv 0 sample_ops empty_db (?set sample_key 5 (tree_new [200] 8)) (trie_insert sample_key 5 None)"
    "height_of (?set sample_key 5 (tree_new [200] 8)) = 8" "tree_ident (?set sample_key 5 (tree_new [200] 8)) = [200]"
    using sample_set [OF empty_tree_inv [where i = "[200]"], of sample_key 5] by simp_all
  have "key_clear 0 (?set sample_key 5 (tree_new [200] 8)) (replicate 8 True)" by (rule clear) (simp_all add: one)
  moreover have "trie_lookup (trie_insert sample_key 5 None) (replicate 8 True) = None"
    using key_sides by (simp add: trie_lookup_def trie_insert_def prefix_same_length)
  moreover have "trie_insert (replicate 8 True) 6 (trie_insert sample_key 5 None) = Some two_leaves_trie"
    by (simp add: trie_insert_def two_leaves_trie_def sample_key_def psplit_def pedge_def numeral_eq_Suc Let_def)
  ultimately show "tree_inv sample_ops empty_db two_leaves (Some two_leaves_trie)" "height_of two_leaves = 8"
    "tree_ident two_leaves = [200]"
    using sample_set [OF one(1,2), of "replicate 8 True" 6] one by (simp_all add: two_leaves_def Let_def)
qed

lemma two_leaves_cache: "hm_get (cache_leaf_modified two_leaves) (bitslice_to_bytes 0 (replicate 8 False)) = None"
  by code_simp

lemma two_leaves_split: "split_depth two_leaves_trie (replicate 8 False) = Some 1"
  by (simp add: two_leaves_trie_def sample_key_def numeral_eq_Suc)

text \<open>
  Four leaves of height three in the tree with the empty identifier, committed: every node is in
  the database.
\<close>

lemma sample_fold:
  assumes "tree_inv sample_ops empty_db t pt" "leaf_inv 0 sample_ops empty_db t pt" "height_of t \<le> 8" "tree_ident t = []" "v \<noteq> 0"
    and "\<forall>k \<in> set ks. length k = height_of t \<and> trie_lookup pt k = None" "distinct ks"
  shows "let t' = fold (\<lambda>k t. snd (tree_set 0 sample_ops 8 empty_db k v t :: (unit, unit) outcome \<times> _)) ks t;
      pt' = fold (\<lambda>k. trie_insert k v) ks pt in
    tree_inv sample_ops empty_db t' pt' \<and> leaf_inv 0 sample_ops empty_db t' pt' \<and> height_of t' = height_of t \<and> tree_ident t' = [] \<and>
    fst ` set (cache_leaf_modified t') \<subseteq> bitslice_to_bytes 0 ` set ks \<union> fst ` set (cache_leaf_modified t)"
  using assms
proof (induction ks arbitrary: t pt)
  case (Cons k ks)
  let ?t = "snd (tree_set 0 sample_ops 8 empty_db k v t :: (unit, unit) outcome \<times> _)"
  have clear: "key_clear 0 t k"
    by (rule key_safe_clear [OF key_safe_aligned]) (use Cons.prems in auto)
  have step: "tree_inv sample_ops empty_db ?t (trie_insert k v pt)" "leaf_inv 0 sample_ops empty_db ?t (trie_insert k v pt)"
    "height_of ?t = height_of t" "tree_ident ?t = []"
    using sample_set [OF Cons.prems(1,2) _ Cons.prems(3) clear Cons.prems(5)] Cons.prems(4,6) by simp_all
  have "\<forall>k' \<in> set ks. length k' = height_of ?t \<and> trie_lookup (trie_insert k v pt) k' = None"
    using Cons.prems(6,7) step(3) trie_lookup_insert [OF tree_inv_wf [OF Cons.prems(1)]] by auto
  note IH = Cons.IH [OF step(1,2) _ step(4) Cons.prems(5) this, unfolded Let_def]
  have "fst ` set (cache_leaf_modified ?t) \<subseteq> insert (bitslice_to_bytes 0 k) (fst ` set (cache_leaf_modified t))"
    by (rule tree_set_frame(2) [OF prod.collapse [symmetric]])
  moreover have "bitslice_to_bytes 0 ` set (k # ks) = insert (bitslice_to_bytes 0 k) (bitslice_to_bytes 0 ` set ks)" by simp
  moreover have "height_of ?t \<le> 8" "distinct ks" using Cons.prems(3,7) step(3) by simp_all
  ultimately show ?case
    unfolding Let_def fold.simps comp_apply step(3) [symmetric] using IH by blast
qed (simp add: Let_def)

definition four_committed :: "byte merkle_tree \<times> unit db_view" where
  "four_committed =
     (case (get_updates sample_ops 8 (fold (\<lambda>k t. snd (tree_set 0 sample_ops 8 empty_db k 5 t :: (unit, unit) outcome \<times> _))
        [[False, False, False], [False, True, False], [True, False, False], [True, True, False]] (tree_new [] 3))
          :: (unit, updates) outcome \<times> _) of
        (Inr ups, t) \<Rightarrow> (t, db_after ups empty_db)
      | (_, t) \<Rightarrow> (t, empty_db))"

definition four_trie :: "byte ptree" where
  "four_trie = PBin (PBin (PEdge [False] (PLeaf 5)) (PEdge [False] (PLeaf 5))) (PBin (PEdge [False] (PLeaf 5)) (PEdge [False] (PLeaf 5)))"

lemma unloaded_node:
  assumes inv: "tree_inv F db t (Some (PBin (PBin l (PEdge q c)) r))" and "slots t = Map.empty" "death_row t = []" "tree_ident t = []"
  obtains n where "get_trie_branch_in_db_from_path F [] [] db [False, True] = (Inr (Some n) :: ('e, _) outcome)"
proof -
  obtain h g where g: "erase g = PBin (PBin l (PEdge q c)) r" "rep F (slots t) (stored F db t) [] h g" "ids g = []"
    using inv assms(2) by (auto simp: tree_inv_def gtree_inv_def)
  then have "[False, True] \<in> dbpos [] g"
  proof -
    obtain i g1 g2 where g1: "g = GBin i g1 g2" "erase g1 = PBin l (PEdge q c)" using g(1) by (cases g) auto
    then obtain j g3 g4 where g4: "g1 = GBin j g3 g4" "erase g4 = PEdge q c" by (cases g1) auto
    then obtain k g5 where "g4 = GEdge k q g5" by (cases g4) auto
    then show ?thesis using g(3) g1 g4 by (auto simp: own_pos_def split: option.splits)
  qed
  then obtain n where "stored F db t [False, True] = Some n" using rep_stored [OF g(2)] by blast
  then show thesis
    using assms(3,4) by (intro that [of n]) (auto simp: stored_def get_trie_branch_in_db_from_path_def Let_def
        split: if_splits sum.splits option.splits)
qed

lemma four_committed_inv:
  "tree_inv sample_ops (snd four_committed) (fst four_committed) (Some four_trie)"
  "height_of (fst four_committed) = 3" "tree_ident (fst four_committed) = []" "death_row (fst four_committed) = []"
  "cache_leaf_modified (fst four_committed) = []" "slots (fst four_committed) = Map.empty"
  "snd four_committed (Flat [3, 80]) = Inr None"
proof -
  let ?ks = "[[False, False, False], [False, True, False], [True, False, False], [True, True, False]]"
  let ?t = "fold (\<lambda>k t. snd (tree_set 0 sample_ops 8 empty_db k 5 t :: (unit, unit) outcome \<times> _)) ?ks (tree_new [] 3)"
  have new: "tree_inv sample_ops empty_db (tree_new [] 3) None" "leaf_inv 0 sample_ops empty_db (tree_new [] 3) None"
    by (rule new_tree_inv; simp add: empty_db_def)+
  have pt: "fold (\<lambda>k. trie_insert k 5) ?ks None = Some four_trie" by (simp add: four_trie_def trie_insert_def psplit_def pedge_def Let_def)
  have inv: "tree_inv sample_ops empty_db ?t (Some four_trie)" "leaf_inv 0 sample_ops empty_db ?t (Some four_trie)" "height_of ?t = 3"
    "tree_ident ?t = []" "fst ` set (cache_leaf_modified ?t) \<subseteq> bitslice_to_bytes 0 ` set ?ks"
    using sample_fold [OF new, of 5 ?ks] unfolding pt Let_def by (simp_all add: trie_lookup_def)
  obtain ups t' where run: "get_updates sample_ops 8 ?t = (Inr ups :: (unit, updates) outcome, t')" "committed ?t t'"
    "tree_inv sample_ops (db_after ups empty_db) t' (Some four_trie)"
    using get_updates_commit [OF inv(1,2), of 8] inv(3) by auto
  have four: "four_committed = (t', db_after ups empty_db)" using run(1) by (simp add: four_committed_def)
  have com: "tree_ident t' = tree_ident ?t" "death_row t' = []" "cache_leaf_modified t' = []" "slots t' = Map.empty"
    using run(2) by (simp_all only: committed_def simp_thms)
  show "tree_inv sample_ops (snd four_committed) (fst four_committed) (Some four_trie)"
    "height_of (fst four_committed) = 3" "tree_ident (fst four_committed) = []" "death_row (fst four_committed) = []"
    "cache_leaf_modified (fst four_committed) = []" "slots (fst four_committed) = Map.empty"
    using run(3) committed_height [OF run(2)] com inv(3,4) unfolding four fst_conv snd_conv by metis+
  have "[3, 80] \<notin> bitslice_to_bytes 0 ` set ?ks" by code_simp
  then have "[3, 80] \<notin> fst ` set (cache_leaf_modified ?t)" using inv(5) by blast
  moreover have "set (death_row ?t) \<subseteq> range Trie" using inv(1) by (simp only: tree_inv_def simp_thms)
  ultimately have "Flat [3, 80] \<notin> fst ` set ups"
    using get_updates_frame(2) [OF run(1)] unfolding inv(4) own_keys_def by auto
  then have "hm_get ups (Flat [3, 80]) = None" by (simp add: hm_get_def map_of_eq_None_iff)
  then show "snd four_committed (Flat [3, 80]) = Inr None" by (simp add: four db_after_def empty_db_def)
qed

lemma four_committed_flat: "read_flat 1 sample_ops (snd four_committed) (fst four_committed) [True, False, True] = Inr None"
proof -
  have "bitslice_to_bytes 1 [True, False, True] = [3, 80]" by code_simp
  then show ?thesis using four_committed_inv(3,7) by (simp add: read_flat_def decode_flat_def)
qed

end
