(* ===== verification/Spec2Isabelle.thy ===== *)
theory Spec2Isabelle
  imports Storage_Correct Sample_Ops Merkle_Proof Sample_Txn Sample_Proofs
begin

text \<open>
  Bonsai-trie keeps one or more Merkle-Patricia tries of field elements over a key-value store.
  This development models the library and proves what its users rely on.

  \<^bold>\<open>The program.\<close> A \<open>BonsaiStorage\<close> (\<^verbatim>\<open>src/src/lib.rs\<close>) owns a map of
  trees by identifier (\<^verbatim>\<open>src/src/trie/trees.rs\<close>) over a \<open>KeyValueDB\<close>
  (\<^verbatim>\<open>src/src/key_value_db.rs\<close>), which records every write
  (\<^verbatim>\<open>src/src/changes.rs\<close>) and passes it to a store that implements the two traits of
  \<^verbatim>\<open>src/src/bonsai_database.rs\<close>. A tree (\<^verbatim>\<open>src/src/trie/tree.rs\<close>) loads the
  nodes it needs into a slot map, through the walk of \<^verbatim>\<open>src/src/trie/iterator.rs\<close>, changes
  them there, remembers the leaves that change and the database keys to delete (the death row),
  and on a commit hashes the nodes in memory and hands out the updates of the store.
  \<^verbatim>\<open>src/src/trie/proof.rs\<close> collects and checks proofs of membership.

  \<^bold>\<open>The theories.\<close>
  \<^item> \<open>Prelude\<close>: errors (\<^verbatim>\<open>src/src/error.rs\<close>), outcomes, state actions, hash maps, slot maps.
  \<^item> \<open>Trie_Path\<close>, \<open>Trie_Key\<close>, \<open>Merkle_Node\<close>: \<^verbatim>\<open>path.rs\<close>, \<^verbatim>\<open>trie_db.rs\<close>,
    \<^verbatim>\<open>merkle_node.rs\<close>, with the codec round trip and the injectivity of the database keys.
  \<^item> \<open>Patricia\<close>: the specification, compressed binary tries with lookup, insertion, deletion and
    hash, and the theorem that a trie is determined by its lookups.
  \<^item> \<open>Tree_Base\<close>, \<open>Tree_Iterator\<close>, \<open>Merkle_Tree\<close>: the operations of \<^verbatim>\<open>tree.rs\<close> and
    \<^verbatim>\<open>iterator.rs\<close>, one definition per method or arm.
  \<^item> \<open>Tree_Rep\<close>: the invariant. A ghost tree says which subtrie is in memory under which slot and
    which is in the database; \<open>tree_inv\<close> says that both together hold the trie and that the store
    has no other node of the tree outside the death row, \<open>leaf_inv\<close> that reads return its leaves.
  \<^item> \<open>Tree_Seek\<close>, \<open>Tree_Update\<close>, \<open>Tree_Set\<close>, \<open>Tree_Delete\<close>, \<open>Tree_Commit\<close>: the walk, \<open>set\<close>,
    \<open>delete_leaf\<close> and \<open>get_updates\<close> refine the specification. \<open>Tree_Frame\<close>: what they may put on
    the death row, in the leaf cache and into the updates. \<open>Root_Cache\<close>: the hash that a root node
    was loaded with survives insertions below it.
  \<^item> \<open>Merkle_Proof\<close>: proofs and the verifier, its soundness and termination. \<open>Proof_Walk\<close>: the
    walk of the iterator over a tree whose nodes in memory all have their hash, with the stack of
    nodes above the current one. \<open>Proof_Complete\<close>: on such a tree the request for proofs succeeds
    and the verifier accepts what it returns.
  \<^item> \<open>Commit_Id\<close>, \<open>Changes\<close>: \<^verbatim>\<open>id.rs\<close> and \<^verbatim>\<open>changes.rs\<close>, the log round trip.
  \<^item> \<open>Bonsai_Db\<close>: the traits as records of functions, whose failures are errors of the store or
    panics, and the contract of a store as the locales \<open>batch_database\<close> (reads, writes, batches)
    and \<open>bonsai_database\<close> (with prefixes); \<open>Hashmap_Db\<close> interprets them for \<open>HashMapDb\<close>.
  \<^item> \<open>Rocks_Db\<close>: \<^verbatim>\<open>rocks_db.rs\<close>, the store, its transactions and its snapshots, over a
    record of the calls into the RocksDB library. \<open>Rocks_Correct\<close> interprets the same locales for
    the store and for its transactions, and the locales of the layers above it, so that the
    lemmas about a storage hold over RocksDB too.
  \<^item> \<open>Key_Value_Db\<close>: \<^verbatim>\<open>key_value_db.rs\<close> over any store and identifiers (locale
    \<open>kv_store\<close>, an extension of \<open>bonsai_database\<close> and \<open>commit_id\<close>). \<open>Trie_Logs\<close>: a log reads
    back in whatever order the store lists its entries. \<open>Transactions\<close>: what a transaction at an
    earlier commit holds, the snapshot with the logs undone (locale \<open>transaction_store\<close>), and which
    logs a sequence of commits keeps.
  \<^item> \<open>Merkle_Trees\<close>, \<open>Bonsai_Storage\<close>: \<^verbatim>\<open>trees.rs\<close> and \<^verbatim>\<open>lib.rs\<close>;
    \<open>Trees_Correct\<close> and \<open>Storage_Correct\<close>: several trees over one store, and the runs of a storage
    as a refinement of plain maps (locale \<open>persistent_store\<close>). A run is a sequence of inserts,
    removes, commits, transactional commits, requests for proofs of any keys between a commit and the
    next change, and openings of a storage over the store left behind; which insertions it has is
    said below. \<open>Storage_Queries\<close>: proofs, root hashes, and the lists of keys and pairs of a state
    of a run.
  \<^item> \<open>Sample_Ops\<close>, \<open>Sample_Rocks\<close>, \<open>Sample_Txn\<close>, \<open>Sample_Proofs\<close>: a small instance of the external functions, a
    RocksDB library in memory, and short runs over them, for the examples below.

  \<^bold>\<open>Parameters.\<close> Field elements, their arithmetic, the hash function and the derived codecs of
  nodes and field elements come from other crates: they are the record \<open>ext_ops\<close>, and the
  theorems that write to a store assume \<open>node_codec\<close> and \<open>felt_codec\<close>, that what was encoded is
  decoded. Nothing is assumed of the hash function: soundness of the verifier is stated up to a
  collision, and completeness for tries whose nodes have different hashes where they differ
  (\<open>nodes_apart\<close>), since a proof is a map from hashes to nodes. The stores and the commit identifiers are records of their methods. The RocksDB
  library is the record \<open>rocksdb_api\<close>, with the hypothesis \<open>rocksdb_documented\<close>: column families
  are ordered maps of bytes, an iterator lists a map in key order from where it is told to start,
  a write batch is applied as a whole, a snapshot and a transaction see the map they were made of.
  Nothing is assumed of the commit of a transaction.

  \<^bold>\<open>Bounds.\<close> The loops along a path run at most once per level. The model gives them fuel;
  \<open>LOOP_BOUND\<close> is 256, which is enough since the height is a byte, and the theorems prove that
  the result is never the loop bound. Heights and path lengths are natural numbers below that
  bound; commit identifiers, configuration values and bytes are machine words.

  \<^bold>\<open>Keys.\<close> A key is a bit slice that may start within a byte; the tests use \<open>[5..]\<close> of the 32 bytes of
  a field element. It is modelled by its bits and by the offset \<open>off\<close> of its first bit in its byte,
  the first argument of every operation that takes one. Paths are written bit by bit and do not
  depend on it. The bytes of a key do (\<open>bitslice_to_bytes\<close>): its leaf is stored under them, and the
  split of an edge puts those of a prefix on the death row. The keys of a run have one offset,
  whichever it is; C21 says what the lists of keys show for it.

  \<^bold>\<open>Hypotheses that the code needs.\<close> The insertions of a run are those that \<open>set\<close> carries into the
  tree (\<open>insert_taken\<close>, and \<open>set_pre\<close> for one tree): any value under a key that was not touched since
  the last commit; under a key that was inserted since then only the same value again; under a key
  that was removed since then any value but the one of the last commit. C33 and C34 show what
  happens otherwise. A value of zero is a removal. The identifiers are prefix-free
  (\<open>identifiers_collide\<close>). No bytes of a proper prefix of a changed key start with an identifier or,
  with the empty identifier, name another node (\<open>key_safe\<close>), since the death row entry of a split edge
  lacks the identifier (C23) and keeps the offset (C24). With one tree of empty identifier every
  byte-aligned key is \<open>key_safe\<close>.

  \<^bold>\<open>Not modelled.\<close> Logging, \<open>Debug\<close> and \<open>Display\<close> output and dumps, the test-only
  methods, the benchmarks and the \<^verbatim>\<open>no_std\<close> check. The parallelism of a commit is modelled by its
  result: the trees do not share state while their updates are computed, and a panic of one
  thread is raised before anything is written. This is the \<open>std\<close> build; without \<open>std\<close> the updates of
  a tree are computed when those of the trees before it were written, which differs only if one
  of them fails.
\<close>

section \<open>The storage\<close>

text \<open>
  C1. In every state that calls of insert and remove, commits, requests for proofs between a commit and the next
  change and openings of the storage over its store reach, over the hash map store and with
  identifiers none of which is a prefix of another, reading a key through the storage returns what
  the map of the run holds for it, and asking whether it is there agrees. The keys of a run have one
  alignment and are \<open>key_safe\<close>, and two insertions are left out (\<open>insert_taken\<close>): of another value for
  a key that was inserted since the last commit, and of the committed value for a key that was
  removed since then. For these see C33 and C34.
\<close>

theorem storage_reads_the_map:
  assumes "hashmap_run off F Ids h s c c0 d" "prefix_free Ids" "node_codec F" "felt_codec F" "h \<noteq> 0"
    and "i \<in> Ids" "length k = unat h"
  shows "storage_get off F hashmap_ops s i k = Inr (c i k) \<and> storage_contains off hashmap_ops s i k = Inr (c i k \<noteq> None)"
  using hashmap_run_inv [OF assms(1-5)] hashmap_storage.storage_get_inv [OF _ assms(6,7)]
    hashmap_storage.storage_contains_inv [OF _ assms(6,7)] by blast

theorem storage_reads_the_map_witness:
  "storage_get 5 sample_ops hashmap_ops sample_storage [200] sample_key = Inr (Some 5) \<and>
   storage_get 5 sample_ops hashmap_ops sample_storage [201] sample_key = Inr None \<and>
   storage_get 5 sample_ops hashmap_ops (snd (storage_insert 5 sample_ops hashmap_ops [200] sample_key 6
     (snd (storage_remove 5 sample_ops hashmap_ops [200] sample_key sample_storage)))) [200] sample_key = Inr (Some 6)"
proof -
  have "hashmap_run 5 sample_ops sample_ids 8 (snd (storage_remove 5 sample_ops hashmap_ops [200] sample_key sample_storage))
      (set_content [200] sample_key None (set_content [200] sample_key (Some 5) (\<lambda>_ _. None))) (\<lambda>_ _. None)
      (insert ([200], sample_key) {([200], sample_key)})"
    by (rule run_remove [OF sample_run _ _ _ prod.collapse [symmetric]]) simp_all
  from run_insert [OF this _ _ _ _ _ prod.collapse [symmetric], of "[200]" sample_key 6]
  have "hashmap_run 5 sample_ops sample_ids 8 (snd (storage_insert 5 sample_ops hashmap_ops [200] sample_key 6
        (snd (storage_remove 5 sample_ops hashmap_ops [200] sample_key sample_storage))))
      (set_content [200] sample_key (Some 6) (set_content [200] sample_key None (set_content [200] sample_key (Some 5) (\<lambda>_ _. None))))
      (\<lambda>_ _. None) {([200], sample_key)}"
    by (simp add: insert_taken_def set_content_def)
  from storage_reads_the_map [OF this, of "[200]" sample_key] show ?thesis
    using storage_reads_the_map [OF sample_run, of "[200]" sample_key]
      storage_reads_the_map [OF sample_run, of "[201]" sample_key] by (simp add: set_content_def)
qed

text \<open>
  C2. A commit from any reachable state succeeds, and afterwards the root hash of every
  identifier is the hash of the compressed binary trie that holds exactly the leaves of the
  map of the run.
\<close>

theorem storage_commit_root:
  fixes F :: "'f ext_ops"
  assumes "hashmap_run off F Ids h s c c0 d" "prefix_free Ids" "node_codec F" "felt_codec F" "h \<noteq> 0"
  shows "\<exists>s'. storage_commit F hashmap_ops hashmap_persistent basic_ops i s =
      (Inr () :: (hashmap_db_error, unit) outcome, s') \<and>
    (\<forall>j \<in> Ids. \<exists>pt. trie_of (unat h) (c j) pt \<and> storage_root_hash F hashmap_ops s' j = Inr (trie_hash F pt))"
  using hashmap_run_inv [OF assms] hashmap_storage.storage_commit_hash [OF _ assms(2-4)] by blast

theorem storage_commit_root_witness:
  "\<exists>s'. storage_commit sample_ops hashmap_ops hashmap_persistent basic_ops (BasicId 0) sample_storage =
      (Inr () :: (hashmap_db_error, unit) outcome, s') \<and>
    storage_root_hash sample_ops hashmap_ops s' [200] = Inr (phash sample_ops (PEdge sample_key (PLeaf 5)))"
proof -
  let ?c = "set_content [200] sample_key (Some (5 :: byte)) (\<lambda>_ _. None)"
  obtain s' pt where s': "storage_commit sample_ops hashmap_ops hashmap_persistent basic_ops (BasicId 0) sample_storage =
      (Inr () :: (hashmap_db_error, unit) outcome, s')" "trie_of 8 (?c [200]) pt"
    "storage_root_hash sample_ops hashmap_ops s' [200] = Inr (trie_hash sample_ops pt)"
    using storage_commit_root [OF sample_run, of "BasicId 0"] by fastforce
  have "trie_of 8 (?c [200]) (Some (PEdge sample_key (PLeaf 5)))"
    by (auto simp: trie_of_def trie_wf_def trie_lookup_def set_content_def prefix_same_length)
  then have "pt = Some (PEdge sample_key (PLeaf 5))" by (rule trie_of_unique [OF s'(2)])
  then show ?thesis using s' by (auto simp: trie_hash_def)
qed

text \<open>
  C3. The order of the changes and their grouping into commits do not matter within the runs of C1:
  two runs, of keys of one alignment, that end with the same map for an identifier have the same root
  hash for it once they are committed. Runs leave out the second insertion of another value before
  a commit and the restoration of a removed leaf before a commit, whose effect does depend on the grouping.
\<close>

theorem root_history_independent:
  fixes F :: "'f ext_ops"
  assumes "hashmap_run off F Ids h s c c0 d" "hashmap_run off F Ids h s' c' c0' d'" "prefix_free Ids" "node_codec F" "felt_codec F" "h \<noteq> 0"
    and "j \<in> Ids" "\<forall>k. length k = unat h \<longrightarrow> c j k = c' j k"
    and "storage_commit F hashmap_ops hashmap_persistent basic_ops i s = (r, t)"
    and "storage_commit F hashmap_ops hashmap_persistent basic_ops i' s' = (r', t')"
  shows "storage_root_hash F hashmap_ops t j = storage_root_hash F hashmap_ops t' j"
proof -
  obtain m m0 where inv: "storage_inv off F hashmap_ops hashmap_ok Ids h s c c0 d m m0"
    using hashmap_run_inv [OF assms(1,3-6)] by blast
  obtain m' m0' where inv': "storage_inv off F hashmap_ops hashmap_ok Ids h s' c' c0' d' m' m0'"
    using hashmap_run_inv [OF assms(2,3-6)] by blast
  have "trie_of (unat h) (c j) (m j)" "trie_of (unat h) (c' j) (m' j)"
    using inv inv' assms(7) by (simp_all add: storage_inv_def)
  then have "m j = m' j" using assms(8) by (intro trie_unique) (auto simp: trie_of_def)
  then show ?thesis
    using hashmap_storage.storage_commit_inv [OF inv assms(3-5), of i] assms(9)
      hashmap_storage.storage_commit_inv [OF inv' assms(3-5), of i'] assms(7,10) by auto
qed

theorem root_history_independent_witness:
  "storage_root_hash sample_ops hashmap_ops
     (snd (storage_commit sample_ops hashmap_ops hashmap_persistent basic_ops (BasicId 2) one_commit)) [200] =
   storage_root_hash sample_ops hashmap_ops
     (snd (storage_commit sample_ops hashmap_ops hashmap_persistent basic_ops (BasicId 2) three_commits)) [200]"
proof -
  obtain c c0 d where c: "hashmap_run 5 sample_ops sample_ids 8 three_commits c c0 d" "c [200] = two_sides [200]"
    by (rule three_commits_run)
  show ?thesis
    by (rule root_history_independent [OF one_commit_run c(1) _ _ _ _ _ _ prod.collapse [symmetric] prod.collapse [symmetric]])
      (simp_all add: c(2))
qed

text \<open>
  C12. In every reachable state, removing any key and inserting a non-zero value succeeds: no error,
  no panic, no loop bound reached. The insertion is one that runs have, in particular of any value
  under a key that was not touched since the last commit.
\<close>

theorem storage_changes_succeed:
  fixes F :: "'f ext_ops"
  assumes "hashmap_run off F Ids h s c c0 d" "prefix_free Ids" "node_codec F" "felt_codec F" "h \<noteq> 0"
    and "i \<in> Ids" "length k = unat h" "key_safe off Ids k"
  shows "fst (storage_remove off F hashmap_ops i k s) = Inr () \<and>
    (v \<noteq> ZERO F \<longrightarrow> insert_taken c c0 d i k v \<longrightarrow> fst (storage_insert off F hashmap_ops i k v s) = Inr ())"
proof -
  obtain m m0 where inv: "storage_inv off F hashmap_ops hashmap_ok Ids h s c c0 d m m0" using hashmap_run_inv [OF assms(1-5)] by blast
  show ?thesis
    using hashmap_storage.storage_remove_inv [OF inv assms(2,6,8,7)]
      hashmap_storage.storage_insert_inv [OF inv assms(2,6,8,7), of v] by auto
qed

theorem storage_changes_succeed_witness:
  "fst (storage_remove 5 sample_ops hashmap_ops [200] sample_key sample_storage) = Inr () \<and>
   fst (storage_insert 5 sample_ops hashmap_ops [201] sample_key 9 sample_storage) = Inr ()"
  using storage_changes_succeed [OF sample_run, of "[200]" sample_key]
    storage_changes_succeed [OF sample_run, of "[201]" sample_key 9] by simp

section \<open>One tree\<close>

text \<open>
  C5. Setting a leaf of a tree refines insertion into the trie it stands for: the call succeeds
  with fuel for the height of the tree, the nodes in memory and in the database together then
  hold the trie with the leaf, and reading gives the leaves of that trie. The precondition
  excludes a leaf that was set to another value, or removed and restored, since the last commit.
\<close>

theorem set_refines_insert:
  fixes F :: "'f ext_ops" and db :: "'e db_view"
  assumes "tree_inv F db t pt" "leaf_inv off F db t pt" "length key = height_of t" "height_of t \<le> fuel" "key_clear off t key"
    and "v \<noteq> ZERO F" "set_pre off F db t key v"
  shows "\<exists>t'. tree_set off F fuel db key v t = (Inr () :: ('e, unit) outcome, t') \<and>
    tree_inv F db t' (trie_insert key v pt) \<and> leaf_inv off F db t' (trie_insert key v pt)"
  using tree_set_insert [OF assms] by blast

theorem set_refines_insert_witness:
  "\<exists>t'. tree_set 0 sample_ops 8 empty_db sample_key 5 (tree_new [] 8) = (Inr () :: (unit, unit) outcome, t') \<and>
     tree_inv sample_ops empty_db t' (Some (PEdge sample_key (PLeaf 5)))"
  using set_refines_insert [OF empty_tree_inv [where F = sample_ops and i = "[]"], of sample_key 8 0 5]
    key_safe_clear [OF key_safe_aligned, of sample_key "tree_new [] 8 :: byte merkle_tree"]
  by (auto simp: set_pre_def trie_insert_def)

text \<open>
  C6. Deleting a leaf refines deletion from the trie: merged edges, a collapsed branch and an
  emptied tree included. A key without a leaf leaves the trie as it was.
\<close>

theorem delete_refines_delete:
  fixes F :: "'f ext_ops" and db :: "'e db_view"
  assumes "tree_inv F db t pt" "leaf_inv off F db t pt" "length key = height_of t" "height_of t \<le> fuel"
  shows "\<exists>t'. delete_leaf off F fuel db key t = (Inr () :: ('e, unit) outcome, t') \<and>
    (let pt' = if trie_lookup pt key = None then pt else trie_delete key pt in
     tree_inv F db t' pt' \<and> leaf_inv off F db t' pt')"
  using delete_leaf_delete [OF assms] by (auto simp: Let_def)

theorem delete_refines_delete_witness:
  "\<exists>t'. delete_leaf 0 sample_ops 8 empty_db sample_key sample_tree = (Inr () :: (unit, unit) outcome, t') \<and>
     tree_inv sample_ops empty_db t' None"
  using delete_refines_delete [OF sample_tree_set(2,3), of sample_key 8]
  by (auto simp: sample_tree_set trie_insert_def trie_lookup_def trie_delete_def)

text \<open>
  C7. Committing a tree: the updates can be computed with fuel for its height, they leave no node
  and no leaf in memory, and the database they are applied to holds the same trie, with its hash
  at the root.
\<close>

theorem commit_writes_the_trie:
  fixes F :: "'f ext_ops" and db :: "'e db_view"
  assumes "tree_inv F db t pt" "leaf_inv off F db t pt" "node_codec F" "felt_codec F" "height_of t \<le> fuel"
  shows "\<exists>ups t'. get_updates F fuel t = (Inr ups :: ('e, updates) outcome, t') \<and> committed t t' \<and>
    tree_inv F (db_after ups db) t' pt \<and> leaf_inv off F (db_after ups db) t' pt \<and>
    tree_root_hash F (db_after ups db) t' = Inr (trie_hash F pt)"
  using get_updates_commit [OF assms] .

theorem commit_writes_the_trie_witness:
  "\<exists>ups t'. get_updates sample_ops 8 sample_tree = (Inr ups :: (unit, updates) outcome, t') \<and>
     tree_root_hash sample_ops (db_after ups empty_db) t' = Inr (phash sample_ops (PEdge sample_key (PLeaf 5)))"
  using commit_writes_the_trie [OF sample_tree_set(2,3), of 8]
  by (auto simp: sample_tree_set trie_insert_def trie_hash_def)

text \<open>
  C15. The walk to a key ends within as many rounds as the tree has levels, loads the nodes on
  the way without an error, and does not change the trie.
\<close>

theorem seek_ends:
  fixes F :: "'f ext_ops" and db :: "'e db_view"
  assumes "tree_inv F db t pt" "length key = height_of t" "height_of t \<le> fuel"
  shows "\<exists>hs t'. seek_path F fuel db key t = (Inr hs :: ('e, (nat \<times> nat) list) outcome, t') \<and> tree_inv F db t' pt"
proof (cases pt)
  case None
  then show ?thesis
    using assms seek_path_None [of F db t key fuel] by (auto simp: tree_inv_def empty_inv_def height_of_def)
next
  case (Some p)
  obtain hs ns k fs g kr where run: "seek_path F fuel db key t = (Inr hs, t\<lparr>nodes := ns, root_node := Some (Loaded k)\<rparr>)"
    and op: "opened F db (t\<lparr>nodes := ns, root_node := Some (Loaded k)\<rparr>) p key hs fs g kr"
    by (rule seek_path_Some [OF assms(1) [unfolded Some] assms(2,3)])
  have "tree_inv F db (t\<lparr>nodes := ns, root_node := Some (Loaded k)\<rparr>) pt"
    using op assms(1) Some unfolding opened_def tree_inv_def root_matches_def by (auto simp: height_of_def)
  then show ?thesis using run by blast
qed

theorem seek_ends_witness:
  "\<exists>hs t'. seek_path sample_ops 8 empty_db sample_key sample_tree = (Inr hs :: (unit, (nat \<times> nat) list) outcome, t')"
  using seek_ends [OF sample_tree_set(2), of sample_key 8] by (auto simp: sample_tree_set)

text \<open>
  C16. The two passes of a commit fit together: the hashes of the nodes in memory come out children
  first, the right subtree in a list of its own or not, and the root hash is that of the trie.
\<close>

theorem compute_hashes_post_order:
  fixes F :: "'f ext_ops" and db :: "'e db_view"
  assumes "gtree_inv F db t (InMemory k) g" "root_node t = Some (Loaded k)" "height_of t \<le> fuel"
  shows "compute_root_hash F fuel t hs = (Inr (phash F (erase g), hs @ ghashes F g) :: ('e, 'f \<times> 'f list) outcome)"
proof -
  have rep: "rep F (slots t) (stored F db t) [] (InMemory k) g" and pwf: "pwf (height_of t) (erase g)"
    using assms(1) by (simp_all add: gtree_inv_def)
  obtain n where n: "slots t k = Some n" "repn F (slots t) (stored F db t) [] n g" "gid g \<noteq> None"
    using rep_InMemory [OF rep] by auto
  then show ?thesis
    using assms(2) compute_hashes_ok [OF n(2,3) pwf assms(3), of hs] height_le [of t]
    by (simp add: compute_root_hash_def sm_get_def)
qed

text \<open>A tree with one edge in memory.\<close>

theorem compute_hashes_post_order_witness:
  "compute_root_hash sample_ops 8 ((tree_new [] 8)\<lparr>root_node := Some (Loaded 0), nodes := snd (sm_insert
      (Edge \<lparr>e_hash = None, e_height = 0, e_path = sample_key, e_child = Hash 5\<rparr>) sm_empty)\<rparr>) [] =
   (Inr (edge_hash sample_ops sample_key 5, [edge_hash sample_ops sample_key 5]) :: (unit, byte \<times> byte list) outcome)"
proof -
  let ?t = "(tree_new [] 8)\<lparr>root_node := Some (Loaded 0), nodes := snd (sm_insert
      (Edge \<lparr>e_hash = None, e_height = 0, e_path = sample_key, e_child = Hash 5\<rparr>) sm_empty)\<rparr> :: byte merkle_tree"
  have "gtree_inv sample_ops empty_db ?t (InMemory 0) (GEdge (Some 0) sample_key (GLeaf 5))"
    by (auto simp: gtree_inv_def tree_new_def sm_insert_def sm_empty_def height_of_def at_handle_def absent_def empty_db_def
        Let_def)
  from compute_hashes_post_order [OF this, of 8 "[]"] show ?thesis
    by (simp add: height_of_def tree_new_def)
qed

section \<open>Keys and encodings\<close>

text \<open>
  C19. A path of at most 255 bits is read back as it was written, whatever follows it.
\<close>

theorem path_round_trip:
  assumes "length p \<le> 255"
  shows "path_decode (path_encode p @ rest) = Some (p, rest)"
  using path_decode_encode [OF assms] .

theorem path_round_trip_witness: "path_decode (path_encode sample_key @ [7]) = Some (sample_key, [7])"
  using path_round_trip [of sample_key "[7]"] by simp

text \<open>
  C20. The database keys of a tree tell apart its nodes and its leaves, whose keys have one
  alignment, and no key of one tree is a key of another whose identifier is not a prefix of its own
  or the other way round.
\<close>

theorem database_keys_apart:
  assumes "length p \<le> 255" "length q \<le> 255" "length k \<le> 255" "length k' \<le> 255"
  shows "(branch_key i p = branch_key i q \<longleftrightarrow> p = q) \<and> (leaf_key off i k = leaf_key off i k' \<longleftrightarrow> k = k') \<and>
    branch_key i p \<noteq> leaf_key off j k \<and>
    (\<not> prefix i j \<longrightarrow> \<not> prefix j i \<longrightarrow> branch_key i p \<noteq> branch_key j q \<and> leaf_key off i k \<noteq> leaf_key off j k')"
proof -
  have "branch_key i p \<noteq> branch_key j q" "leaf_key off i k \<noteq> leaf_key off j k'" if "\<not> prefix i j" "\<not> prefix j i"
    using that trie_key_new_separate by blast+
  then show ?thesis
    using branch_key_inj [OF assms(1,2), of i] leaf_key_inj [OF assms(3,4), of i] by simp
qed

theorem database_keys_apart_witness: "branch_key [1] [True] \<noteq> branch_key [2] [True]"
  using database_keys_apart [where p = "[True]" and q = "[True]" and k = "[]" and k' = "[]" and i = "[1]" and j = "[2]"] by simp

text \<open>
  The hypothesis on the identifiers is needed: the identifier in front of a database key is not
  delimited, and the root of one tree and a node of another can have the same key.
\<close>

lemma identifiers_collide: "branch_key [8] [] = branch_key [] (replicate 8 False)"
  by (simp add: path_encode_def eval_nat_numeral)

text \<open>
  Reading the bits of a key back from its bytes pads them to whole bytes on both sides: the offset
  and the length byte are ignored, so only aligned keys of whole bytes survive a merge.
\<close>

lemma bytes_to_bitvec_pads:
  assumes "k \<noteq> []"
  shows "bytes_to_bitvec (bitslice_to_bytes off k) =
    Inr (replicate off False @ k @ replicate ((8 - (off + length k) mod 8) mod 8) False)"
  using bytes_to_bitvec_of_key [OF assms] .



section \<open>Trie logs and commit identifiers\<close>

text \<open>
  C25. The log of a commit can be read back: what is deserialised are the recorded changes, in
  order, without those whose old and new value are the same.
\<close>

theorem trie_log_round_trip:
  assumes "hm_wf batch"
  shows "deserialize I i (serialize I i batch) = (Inr (filter effective batch) :: ('e, change_batch) outcome)"
  using deserialize_serialize [OF assms] .

theorem trie_log_round_trip_witness:
  "deserialize basic_ops (BasicId 3) (serialize basic_ops (BasicId 3)
      [(Trie [1], \<lparr>old_value = Some [7], new_value = None\<rparr>), (Flat [1], \<lparr>old_value = None, new_value = None\<rparr>)]) =
   (Inr [(Trie [1], \<lparr>old_value = Some [7], new_value = None\<rparr>)] :: (unit, change_batch) outcome)"
  using trie_log_round_trip [of "[(Trie [1], \<lparr>old_value = Some [7], new_value = None\<rparr>),
      (Flat [1], \<lparr>old_value = None, new_value = None\<rparr>)]" basic_ops "BasicId 3"]
  by (simp add: hm_wf_def effective_def)

text \<open>
  A key changed twice in one commit has one log entry with the last new value and the first
  old value, but an old value that was absent is replaced by the next one.
\<close>

lemma insert_in_place_merges:
  "hm_get (insert_in_place key c (insert_in_place key b batch)) key =
     Some \<lparr>old_value = (case (case hm_get batch key of None \<Rightarrow> None | Some a \<Rightarrow> old_value a) of
                          Some v \<Rightarrow> Some v
                        | None \<Rightarrow> (case old_value b of Some v \<Rightarrow> Some v | None \<Rightarrow> old_value c)),
           new_value = new_value c\<rparr>"
  by (auto simp: insert_in_place_get split: option.split)

text \<open>
  C26. The builder of commit identifiers hands out identifiers that are all different and have
  different log prefixes, until the 64-bit counter is used up; then it panics and does not wrap
  around.
\<close>

theorem builder_ids_distinct:
  assumes "n < 2 ^ 64"
  shows "\<exists>ids b. new_ids_upto n builder_new = (Inr ids :: ('e, basic_id list) outcome, b) \<and> length ids = n \<and>
    distinct (map (to_bytes basic_ops) ids) \<and>
    (n = 2 ^ 64 - 1 \<longrightarrow> new_id b = (Inl (Panic ''Id overflow'') :: ('e, basic_id) outcome, b))"
proof -
  let ?ids = "map (\<lambda>i. BasicId (word_of_nat i)) [0..<n]"
  have "new_ids_upto n builder_new = (Inr ?ids :: ('e, basic_id list) outcome, builder_new\<lparr>last_id := word_of_nat n\<rparr>)"
    using new_ids_upto_Inr [of builder_new n] assms by (simp add: builder_new_def)
  moreover have "distinct (map (to_bytes basic_ops) ?ids)"
  proof -
    have "inj_on (\<lambda>i. to_be_bytes (word_of_nat i)) (set [0..<n])"
    proof (rule inj_onI)
      fix i j assume ij: "i \<in> set [0..<n]" "j \<in> set [0..<n]" "to_be_bytes (word_of_nat i) = to_be_bytes (word_of_nat j)"
      then have "unat (word_of_nat i :: 64 word) = unat (word_of_nat j :: 64 word)" using to_be_bytes_inj by metis
      then show "i = j" using ij assms by (simp add: unat_of_nat)
    qed
    then show ?thesis by (simp add: basic_ops_def comp_def distinct_map)
  qed
  moreover have "new_id (builder_new\<lparr>last_id := word_of_nat n\<rparr>) =
      (Inl (Panic ''Id overflow'') :: ('e, basic_id) outcome, builder_new\<lparr>last_id := word_of_nat n\<rparr>)" if "n = 2 ^ 64 - 1"
  proof -
    have "word_of_nat n = (- 1 :: 64 word)" unfolding that by simp
    then show ?thesis by (simp add: new_id_def Let_def)
  qed
  ultimately show ?thesis by simp
qed

theorem builder_ids_distinct_witness:
  "\<exists>ids b. new_ids_upto 3 builder_new = (Inr ids :: (unit, basic_id list) outcome, b) \<and> length ids = 3"
  using builder_ids_distinct [of 3] by auto

section \<open>The store\<close>

text \<open>
  C27. Removing by prefix removes the keys of one column that start with the prefix and no other.
\<close>

theorem hashmap_remove_by_prefix_exact:
  fixes db :: "'id hashmap_db"
  assumes "hashmap_ok db"
  shows "\<exists>db'. hashmap_remove_by_prefix db p = (Inr (), db') \<and> hashmap_ok db' \<and>
    (\<forall>k. hashmap_get db' k = (if under_prefix p k then Inr None else hashmap_get db k))"
  using hashmap.remove_prefix_view [OF assms, of p]
  by (auto simp: hashmap_ops_def hashmap_get_def hashmap_view_def fun_eq_iff)

theorem hashmap_remove_by_prefix_exact_witness:
  "\<exists>db'. hashmap_remove_by_prefix (HashMapDb [([1, 2], [5])] [([1], [6])] [] [] :: nat hashmap_db) (DbTrie [1]) = (Inr (), db') \<and>
     hashmap_get db' (DbTrie [1, 2]) = Inr None \<and> hashmap_get db' (DbFlat [1]) = Inr (Some [6])"
proof -
  let ?db = "HashMapDb [([1, 2], [5])] [([1], [6])] [] [] :: nat hashmap_db"
  have "hashmap_ok ?db" by (simp add: hashmap_ok_def hm_wf_def)
  from hashmap_remove_by_prefix_exact [OF this, of "DbTrie [1]"]
  obtain db' where db': "hashmap_remove_by_prefix ?db (DbTrie [1]) = (Inr (), db')"
    "\<And>k. hashmap_get db' k = (if under_prefix (DbTrie [1]) k then Inr None else hashmap_get ?db k)" by blast
  show ?thesis
    using db'(1) db'(2) [of "DbTrie [1, 2]"] db'(2) [of "DbFlat [1]"]
    by (simp add: under_prefix_def hashmap_get_def [of ?db] hm_get_def)
qed

text \<open>
  C28. Writing the trie logs of a commit, and dropping old ones, never touches a node or a leaf,
  and empties the record of changes.
\<close>

theorem log_commit_keeps_tries:
  fixes kv :: "(basic_id hashmap_db, basic_id) key_value_db"
  assumes "hashmap_ok (kv_db kv)"
  shows "\<exists>kv'. kv_commit hashmap_ops basic_ops i kv = (Inr () :: (hashmap_db_error, unit) outcome, kv') \<and>
    current_changes (changes_store kv') = [] \<and> (\<forall>k. kv_get hashmap_ops kv' k = kv_get hashmap_ops kv k)"
proof -
  obtain kv' where "kv_commit hashmap_ops basic_ops i kv = (Inr () :: (hashmap_db_error, unit) outcome, kv')"
    "hashmap_ok (kv_db kv')" "current_changes (changes_store kv') = []"
    "\<forall>k. (\<forall>l. k \<noteq> DbTrieLog l) \<longrightarrow> hashmap_view (kv_db kv') k = hashmap_view (kv_db kv) k"
    using hashmap_kv.kv_commit_view [OF assms] by blast
  moreover from this have "kv_get hashmap_ops kv' k = kv_get hashmap_ops kv k" for k
    using hashmap.kv_get_view [OF assms, of k] hashmap.kv_get_view [of kv' k] by simp
  ultimately show ?thesis by blast
qed

theorem log_commit_keeps_tries_witness:
  "\<exists>kv'. kv_commit hashmap_ops basic_ops (BasicId 1) sample_log_kv = (Inr () :: (hashmap_db_error, unit) outcome, kv') \<and>
     kv_get hashmap_ops kv' (Flat [1]) = (Inr (Some [7]) :: (hashmap_db_error, bytes option) outcome)"
proof -
  have "kv_get hashmap_ops sample_log_kv (Flat [1]) = (Inr (Some [7]) :: (hashmap_db_error, bytes option) outcome)"
    using sample_log_kv(5) hashmap.kv_get_view [OF sample_log_kv(1), of "Flat [1]"] by (simp add: hashmap_get_def hashmap_view_def)
  then show ?thesis using log_commit_keeps_tries [OF sample_log_kv(1), of "BasicId 1"] by auto
qed

text \<open>
  C40. The logs do not pile up: when commits are numbered from zero, whatever each of them changes,
  the logs in the store are those of the last commits, as many as the configuration says.
\<close>

theorem saved_logs_bounded:
  fixes kv :: "(basic_id hashmap_db, basic_id) key_value_db"
  assumes "hashmap_ok (kv_db kv)" "max_saved_trie_logs (config kv) = Some m" "m \<noteq> 0" "length batches \<le> 2 ^ 64"
    and "\<forall>l. hashmap_view (kv_db kv) (DbTrieLog l) = None"
  shows "logs_within basic_ops (hashmap_view (kv_db (commit_each hashmap_ops basic_ops batches 0 kv)))
    (length batches - unat m) (length batches)"
proof -
  have "logs_within basic_ops (hashmap_view (kv_db kv)) (0 - unat m) 0" using assms(5) by (simp add: logs_within_def)
  from hashmap_kv.commit_each_window [OF assms(1-3) _ this, of batches] show ?thesis using assms(4) by simp
qed

theorem saved_logs_bounded_witness:
  "logs_within basic_ops (hashmap_view (kv_db (commit_each hashmap_ops basic_ops [sample_changes, sample_changes, sample_changes] 0
     (kv_new (hashmap_default :: basic_id hashmap_db) (kv_config_default\<lparr>max_saved_trie_logs := Some 2\<rparr>) None)))) 1 3"
  using saved_logs_bounded [of "kv_new hashmap_default (kv_config_default\<lparr>max_saved_trie_logs := Some 2\<rparr>) None" 2
      "[sample_changes, sample_changes, sample_changes]"]
  by (simp add: kv_new_def hashmap_default_def hashmap_ok_def hashmap_view_def hm_get_def numeral_3_eq_3 del: commit_each.simps)

text \<open>
  C29. A transaction at a commit starts from the oldest snapshot before it: with snapshots in
  order, no snapshot is older than the one that is used.
\<close>

theorem transaction_uses_oldest_snapshot:
  assumes "sorted (map fst (snapshots db))" "hashmap_transaction db i = Inr (Some (j, snap))"
  shows "j < i \<and> (\<forall>(j', s) \<in> set (snapshots db). j \<le> j')"
proof -
  obtain n where n: "n < length (snapshots db)" "snapshots db ! n = (j, snap)" "j < i"
    and first: "\<forall>l < n. \<not> fst (snapshots db ! l) < i"
    using assms(2) by (auto simp: hashmap_transaction_def btree_first_below_def find_Some_iff case_prod_unfold) (metis fst_conv)
  have le: "j \<le> fst (snapshots db ! l)" if "l < length (snapshots db)" for l
  proof (cases "l < n")
    case True
    have "fst (snapshots db ! l) \<le> j" using sorted_nth_mono [OF assms(1), of l n] n True by simp
    then show ?thesis using first True n(3) by auto
  next
    case False
    then show ?thesis using sorted_nth_mono [OF assms(1), of n l] n that by simp
  qed
  then show ?thesis using n(3) by (auto simp: in_set_conv_nth) (metis fst_conv)
qed

theorem transaction_uses_oldest_snapshot_witness:
  "hashmap_transaction (HashMapDb [] [] [] [(1, hashmap_default), (2, hashmap_default)]) (3 :: nat) =
     Inr (Some (1, hashmap_default)) \<and> (1 :: nat) \<le> 2"
  using transaction_uses_oldest_snapshot
    [of "HashMapDb [] [] [] [(1, hashmap_default), (2, hashmap_default)]" "3 :: nat" 1 hashmap_default]
  by (simp add: hashmap_transaction_def btree_first_below_def)

section \<open>Proofs\<close>

text \<open>
  C10. Soundness of the verifier: against the root hash of a trie, a key is accepted with a value
  only if the trie has that value for the key, or zero when it has no leaf there, unless the
  proof holds a node that collides with a node of the trie.
\<close>

theorem verify_proof_sound:
  fixes F :: "'f ext_ops"
  assumes "trie_wf (unat height) t" "\<not> trie_collides F proof t"
    and "i < length (verify_proof F fuel proof (trie_hash F t) keys height)"
    and "verify_proof F fuel proof (trie_hash F t) keys height ! i = Value v"
  shows "i < length keys \<and> v = (case trie_lookup t (keys ! i) of None \<Rightarrow> ZERO F | Some x \<Rightarrow> x)"
  using verify_keys_sound [OF assms(2,1), of "[]"] assms(3,4) by (simp add: verify_proof_def)

theorem verify_proof_sound_witness:
  "let t = Some (PEdge sample_key (PLeaf 5)); proof = [(trie_hash sample_ops t, ProofEdge 5 sample_key)] in
   verify_proof sample_ops (Suc (Suc 0)) proof (trie_hash sample_ops t) [sample_key] 8 = [Value 5] \<and> trie_lookup t sample_key = Some 5"
proof -
  let ?t = "Some (PEdge sample_key (PLeaf (5 :: byte)))"
  let ?proof = "[(trie_hash sample_ops ?t, ProofEdge 5 sample_key)]"
  have run: "verify_proof sample_ops (Suc (Suc 0)) ?proof (trie_hash sample_ops ?t) [sample_key] 8 = [Value 5]"
    by (simp add: verify_proof_def verify_key_def hm_get_def hash_edge_node_Inr trie_hash_def
        verify_step_def Let_def)
  have "\<not> trie_collides sample_ops ?proof ?t" "trie_wf (unat (8 :: byte)) ?t"
    by (auto simp: trie_collides_def collides_def trie_wf_def)
  from verify_proof_sound [OF this(2,1), of 0 "Suc (Suc 0)" "[sample_key]"] run show ?thesis
    by (simp add: trie_lookup_def)
qed



text \<open>
  C11. Proofs are complete: while nothing has changed since the last commit, a proof of any keys
  can be asked for, and with the root hash of the storage the verifier accepts every one of them,
  with its value or with zero where the map has none. The trie is not empty and no two of its
  nodes have one hash.
\<close>

theorem multi_proof_complete:
  fixes F :: "'f ext_ops"
  assumes "hashmap_run off F Ids h s c c0 {}" "prefix_free Ids" "node_codec F" "felt_codec F" "h \<noteq> 0"
    and "i \<in> Ids" "\<forall>key \<in> set keys. length key = unat h" "unat h < fuel"
    and "c i k = Some x" "length k = unat h" "\<forall>p. trie_of (unat h) (c i) (Some p) \<longrightarrow> nodes_apart F p"
  shows "\<exists>proof s' root. storage_get_multi_proof F hashmap_ops i keys s = (Inr proof :: (hashmap_db_error, 'f multi_proof) outcome, s') \<and>
    storage_root_hash F hashmap_ops s i = (Inr root :: (hashmap_db_error, 'f) outcome) \<and>
    verify_proof F fuel proof root keys h = map (\<lambda>k. Value (case c i k of None \<Rightarrow> ZERO F | Some v \<Rightarrow> v)) keys"
proof -
  obtain m m0 where inv: "storage_inv off F hashmap_ops hashmap_ok Ids h s c c0 {} m m0"
    using hashmap_run_inv [OF assms(1-5)] by blast
  then have t: "trie_of (unat h) (c i) (m i)" using assms(6) by (simp add: storage_inv_def)
  then obtain p where p: "m i = Some p" using assms(9,10) by (cases "m i") (auto simp: trie_of_def trie_lookup_def)
  then have "nodes_apart F p" using assms(11) t by simp
  then show ?thesis using hashmap_storage.storage_multi_proof [OF inv assms(6,7) p _ assms(8)] by blast
qed

theorem multi_proof_complete_witness:
  "\<exists>s proof s' root. storage_commit sample_ops hashmap_ops hashmap_persistent basic_ops (BasicId 0) sample_storage =
      (Inr () :: (hashmap_db_error, unit) outcome, s) \<and>
    storage_get_multi_proof sample_ops hashmap_ops [200] [sample_key, replicate 8 False] s =
      (Inr proof :: (hashmap_db_error, byte multi_proof) outcome, s') \<and>
    storage_root_hash sample_ops hashmap_ops s [200] = (Inr root :: (hashmap_db_error, byte) outcome) \<and>
    verify_proof sample_ops 9 proof root [sample_key, replicate 8 False] 8 = [Value 5, Value 0]"
proof -
  obtain s where s: "storage_commit sample_ops hashmap_ops hashmap_persistent basic_ops (BasicId 0) sample_storage =
      (Inr () :: (hashmap_db_error, unit) outcome, s)"
    "hashmap_run 5 sample_ops sample_ids 8 s (set_content [200] sample_key (Some 5) (\<lambda>_ _. None))
      (set_content [200] sample_key (Some 5) (\<lambda>_ _. None)) {}"
    by (rule sample_committed)
  have apart: "\<forall>p. trie_of (unat (8 :: byte)) (set_content [200] sample_key (Some 5) (\<lambda>_ _. None) [200]) (Some p) \<longrightarrow> nodes_apart sample_ops p"
    using sample_trie sample_nodes_apart by auto
  have *: "ZERO sample_ops = 0" "replicate 8 False \<noteq> sample_key" "length sample_key = 8"
    by (simp_all add: sample_ops_def sample_key_def numeral_eq_Suc)
  from multi_proof_complete [OF s(2) _ _ _ _ _ _ _ _ _ apart, of "[sample_key, replicate 8 False]" 9 sample_key 5]
  show ?thesis using s(1) * by (auto simp: set_content_def)
qed

section \<open>Errors\<close>

text \<open>
  C31. A key of the wrong length is refused with the expected and the actual length. Insertion and
  deletion leave the tree as it was. A request for proofs of several keys is refused at the first
  such key, whatever follows it: the nodes that were loaded for the keys before it stay in memory,
  with their hashes, so that the tree still holds the same trie and can be asked for proofs, and
  its leaf cache and death row are as before.
\<close>

theorem wrong_key_length:
  fixes F :: "'f ext_ops" and db :: "'e db_view"
  assumes "length key \<noteq> height_of t"
  shows "tree_set off F fuel db key v t = (Inl (Err (KeyLength (height_of t) (length key))) :: ('e, unit) outcome, t) \<and>
    delete_leaf off F fuel db key t = (Inl (Err (KeyLength (height_of t) (length key))) :: ('e, unit) outcome, t) \<and>
    (proof_ready F db t pt \<longrightarrow> height_of t < fuel \<longrightarrow> (\<forall>k \<in> set keys. length k = height_of t) \<longrightarrow>
      (\<exists>t'. get_multi_proof F fuel db (keys @ key # rest) t =
          (Inl (Err (KeyLength (height_of t) (length key))) :: ('e, 'f multi_proof) outcome, t') \<and>
        proof_ready F db t' pt \<and> rest_of t' = rest_of t))"
  using multi_proof_key_length [of F db t pt keys fuel key rest] assms by (simp add: tree_set_def delete_leaf_def height_of_def)

theorem wrong_key_length_witness:
  "tree_set 0 sample_ops 8 empty_db [True] 5 (tree_new [] 3) = (Inl (Err (KeyLength 3 1)) :: (unit, unit) outcome, tree_new [] 3) \<and>
   fst (get_multi_proof sample_ops 8 (snd four_committed) [[False, True, False], [True]] (fst four_committed)) =
     (Inl (Err (KeyLength 3 1)) :: (unit, byte multi_proof) outcome)"
proof -
  have "proof_ready sample_ops (snd four_committed) (fst four_committed) (Some four_trie)"
    using four_committed_inv(1,6) by (rule unloaded_ready)
  then show ?thesis
    using wrong_key_length [of "[True]" "tree_new [] 3" 0 sample_ops 8 empty_db 5]
      wrong_key_length [of "[True]" "fst four_committed" 0 sample_ops 8 "snd four_committed" 5 "Some four_trie" "[[False, True, False]]" "[]"]
      four_committed_inv(2) by auto
qed

text \<open>
  C32. With a snapshot interval of zero, a commit in a reachable state panics on a remainder by
  zero, but only after everything was written: the root hashes and the reads are those of the
  commit.
\<close>

theorem snapshot_interval_zero:
  fixes s :: "('f, basic_id hashmap_db, basic_id) bonsai_storage"
  assumes "hashmap_run off F Ids h s c c0 d" "prefix_free Ids" "node_codec F" "felt_codec F" "h \<noteq> 0"
    and "snapshot_interval cfg = 0" "j \<in> Ids" "length k = unat h"
  shows "\<exists>s' pt. storage_commit F hashmap_ops hashmap_persistent basic_ops i
        (s\<lparr>tries := (tries s)\<lparr>ts_db := (ts_db (tries s))\<lparr>config := cfg\<rparr>\<rparr>\<rparr>) =
      (Inl (Panic ''attempt to calculate the remainder with a divisor of zero'') :: (hashmap_db_error, unit) outcome, s') \<and>
    trie_of (unat h) (c j) pt \<and> storage_root_hash F hashmap_ops s' j = Inr (trie_hash F pt) \<and>
    storage_get off F hashmap_ops s' j k = Inr (c j k)"
proof -
  obtain m m0 where inv: "storage_inv off F hashmap_ops hashmap_ok Ids h s c c0 d m m0"
    using hashmap_run_inv [OF assms(1-5)] by blast
  then have "trie_of (unat h) (c j) (m j)" using assms(7) by (simp add: storage_inv_def)
  then show ?thesis using hashmap_storage.commit_interval_zero [OF inv assms(2-4,6), of i] assms(7,8) by blast
qed

theorem snapshot_interval_zero_witness:
  "\<exists>s'. storage_commit sample_ops hashmap_ops hashmap_persistent basic_ops (BasicId 0)
        (sample_storage\<lparr>tries := (tries sample_storage)\<lparr>ts_db := (ts_db (tries sample_storage))
          \<lparr>config := kv_config_default\<lparr>snapshot_interval := 0\<rparr>\<rparr>\<rparr>\<rparr>) =
      (Inl (Panic ''attempt to calculate the remainder with a divisor of zero'') :: (hashmap_db_error, unit) outcome, s') \<and>
    storage_get 5 sample_ops hashmap_ops s' [200] sample_key = Inr (Some 5)"
  using snapshot_interval_zero [OF sample_run, of "kv_config_default\<lparr>snapshot_interval := 0\<rparr>" "[200]" sample_key "BasicId 0"]
  by (auto simp: set_content_def)

section \<open>Deviations\<close>

text \<open>
  C33. Setting a leaf again before the next commit changes the cache only: the new value is read
  back, but the root hash that is committed is that of the trie with the old one.
\<close>

theorem second_set_not_in_root:
  fixes F :: "'f ext_ops" and db :: "'e db_view"
  assumes "tree_inv F db t pt" "leaf_inv off F db t pt" "node_codec F" "length key = height_of t" "height_of t \<le> fuel"
    and "v \<noteq> ZERO F" and w: "hm_get (cache_leaf_modified t) (bitslice_to_bytes off key) = Some (Insert w)"
  shows "\<exists>t' ups t''. tree_set off F fuel db key v t = (Inr () :: ('e, unit) outcome, t') \<and> tree_get off F db t' key = Inr (Some v) \<and>
    get_updates F fuel t' = (Inr ups :: ('e, updates) outcome, t'') \<and>
    tree_root_hash F (db_after ups db) t'' = Inr (trie_hash F pt) \<and> trie_lookup pt key = Some w"
proof -
  let ?t' = "cache_insert (bitslice_to_bytes off key) (Insert v) t"
  have set: "tree_set off F fuel db key v t = (Inr () :: ('e, unit) outcome, ?t')"
    using assms by (simp add: tree_set_def height_of_def)
  have get: "tree_get off F db ?t' key = Inr (Some v)" by (simp add: tree_get_def hm_simps)
  have "tree_get off F db t key = Inr (trie_lookup pt key)" using assms(2,4) by (simp add: leaf_inv_def)
  then have "trie_lookup pt key = Some w" using w by (simp add: tree_get_def)
  moreover have "tree_inv F db ?t' pt" using tree_inv_cache assms(1) by blast
  moreover have "height_of ?t' \<le> fuel" using assms(5) by (simp add: height_of_def)
  ultimately show ?thesis using set get get_updates_tree [OF _ assms(3), of db ?t' pt fuel] by blast
qed

theorem second_set_not_in_root_witness:
  "\<exists>t' ups t''. tree_set 0 sample_ops 8 empty_db sample_key 6 sample_tree = (Inr () :: (unit, unit) outcome, t') \<and>
     tree_get 0 sample_ops empty_db t' sample_key = Inr (Some 6) \<and>
     get_updates sample_ops 8 t' = (Inr ups :: (unit, updates) outcome, t'') \<and>
     tree_root_hash sample_ops (db_after ups empty_db) t'' = Inr (phash sample_ops (PEdge sample_key (PLeaf 5)))"
proof -
  have "tree_get 0 sample_ops empty_db sample_tree sample_key = Inr (Some 5)"
    using sample_tree_set(3,4) by (simp add: leaf_inv_def trie_insert_def trie_lookup_def)
  then have "hm_get (cache_leaf_modified sample_tree) (bitslice_to_bytes 0 sample_key) = Some (Insert 5)"
    by (auto simp: tree_get_def empty_db_def decode_flat_def Let_def split: option.splits insert_or_remove.splits)
  from second_set_not_in_root [OF sample_tree_set(2,3) _ _ _ _ this, of 8 6] show ?thesis
    by (auto simp: sample_tree_set trie_insert_def trie_hash_def)
qed

text \<open>
  C34. A leaf that was removed since the last commit cannot be set back to the value it had: the
  call succeeds and changes nothing, and the leaf stays removed.
\<close>

theorem restored_leaf_is_lost:
  assumes "length key = height_of t" "v \<noteq> ZERO F"
    and "hm_get (cache_leaf_modified t) (bitslice_to_bytes off key) = Some Remove" "read_flat off F db t key = Inr (Some v)"
  shows "tree_set off F fuel db key v t = (Inr (), t) \<and> tree_get off F db t key = Inr None"
  using assms by (simp add: tree_set_def tree_get_def height_of_def read_flat_def)

theorem restored_leaf_is_lost_witness:
  "\<exists>db t. read_flat 0 sample_ops db t sample_key = (Inr (Some 5) :: (unit, byte option) outcome) \<and>
     tree_set 0 sample_ops 8 db sample_key 5 t = (Inr (), t) \<and> tree_get 0 sample_ops db t sample_key = Inr None"
proof -
  let ?db = "\<lambda>k. (Inr (Some [5]) :: (unit, bytes option) outcome)"
  let ?t = "cache_insert (bitslice_to_bytes 0 sample_key) Remove (tree_new [] 8 :: byte merkle_tree)"
  have "read_flat 0 sample_ops ?db ?t sample_key = Inr (Some 5)"
    by (simp add: read_flat_def decode_flat_def sample_ops_def)
  with restored_leaf_is_lost [of sample_key ?t 5 sample_ops 0 ?db 8] show ?thesis
    by (intro exI [of _ ?db] exI [of _ ?t]) (simp add: hm_simps height_of_def tree_new_def)
qed



text \<open>
  C39. The root hash does not show that it is out of date: once a trie has leaves on both sides of
  its root and its root hash was computed, the insertion of a leaf succeeds and is read back, but
  the root hash stays the one from before, also after several insertions, until the next commit.
\<close>

theorem root_hash_ignores_inserts:
  fixes s :: "('f, basic_id hashmap_db, basic_id) bonsai_storage"
  assumes "hashmap_run off F Ids h s c c0 d" "prefix_free Ids" "node_codec F" "felt_codec F" "1 < unat h"
    and "i \<in> Ids" "length key = unat h" "key_safe off Ids key" "v \<noteq> ZERO F" "insert_taken c c0 d i key v"
    and "c i (b # q) \<noteq> None" "c i ((\<not> b) # q') \<noteq> None" "Suc (length q) = unat h" "Suc (length q') = unat h"
    and "storage_root_hash F hashmap_ops s i = (Inr x :: (hashmap_db_error, 'f) outcome)"
  shows "\<exists>s'. storage_insert off F hashmap_ops i key v s = (Inr () :: (hashmap_db_error, unit) outcome, s') \<and>
    storage_get off F hashmap_ops s' i key = (Inr (Some v) :: (hashmap_db_error, 'f option) outcome) \<and>
    storage_root_hash F hashmap_ops s' i = (Inr x :: (hashmap_db_error, 'f) outcome)"
proof -
  have h: "h \<noteq> 0" using assms(5) by auto
  obtain m m0 where inv: "storage_inv off F hashmap_ops hashmap_ok Ids h s c c0 d m m0"
    using hashmap_run_inv [OF assms(1-4) h] by blast
  obtain r s' where run: "storage_insert off F hashmap_ops i key v s = (r :: (hashmap_db_error, unit) outcome, s')" by fastforce
  have "hashmap_run off F Ids h s' (set_content i key (Some v) c) c0 (insert (i, key) d)"
    by (rule run_insert [OF assms(1,6-10) run])
  from hashmap_run_inv [OF this assms(2-4) h] hashmap_storage.storage_get_inv [OF _ assms(6,7)]
  have "storage_get off F hashmap_ops s' i key = (Inr (Some v) :: (hashmap_db_error, 'f option) outcome)"
    by (fastforce simp: set_content_def)
  moreover have "r = Inr ()"
    using hashmap_storage.storage_insert_inv [OF inv assms(2,6,8,7,9,10)] run by auto
  moreover have "storage_root_hash F hashmap_ops s' i = (Inr x :: (hashmap_db_error, 'f) outcome)"
    using hashmap_storage.storage_insert_root_hash [OF inv assms(6,7,9,11-14,5,15)] run by simp
  ultimately show ?thesis using run by simp
qed

theorem root_hash_ignores_inserts_witness:
  "\<exists>s s' x. hashmap_run 5 sample_ops sample_ids 8 s two_sides two_sides {} \<and>
    storage_insert 5 sample_ops hashmap_ops [200] (replicate 8 False) 9 s = (Inr () :: (hashmap_db_error, unit) outcome, s') \<and>
    storage_root_hash sample_ops hashmap_ops s [200] = (Inr x :: (hashmap_db_error, byte) outcome) \<and>
    storage_root_hash sample_ops hashmap_ops s' [200] = (Inr x :: (hashmap_db_error, byte) outcome)"
proof -
  obtain s x where s: "hashmap_run 5 sample_ops sample_ids 8 s two_sides two_sides {}"
    "storage_root_hash sample_ops hashmap_ops s [200] = (Inr x :: (hashmap_db_error, byte) outcome)"
    by (rule sample_two_sides)
  have "two_sides [200] (True # replicate 7 True) \<noteq> None" "two_sides [200] ((\<not> True) # tl sample_key) \<noteq> None"
    by (simp_all add: two_sides_def set_content_def sample_key_def numeral_eq_Suc)
  then show ?thesis
    using root_hash_ignores_inserts [OF s(1) _ _ _ _ _ _ _ _ _ _ _ _ _ s(2), of "replicate 8 False" 9 True "replicate 7 True" "tl sample_key"] s
    by auto
qed

text \<open>
  C23. A split names nodes of other trees: when \<open>set\<close> splits the edge at depth \<open>n\<close> of a tree, it puts
  the bytes of the first \<open>n\<close> bits of the key on the death row, without the identifier of the tree. If
  these bytes are the database key of a node of another tree, the commit of this one removes it:
  after the updates, whatever the store held, the other tree does not find that node.
\<close>

theorem split_removes_foreign_node:
  fixes F :: "'f ext_ops" and db :: "'e db_view"
  assumes "tree_inv F db t (Some p)" "length key = height_of t" "height_of t \<le> fuel" "key_clear off t key" "v \<noteq> ZERO F"
    and "hm_get (cache_leaf_modified t) (bitslice_to_bytes off key) = None" "read_flat off F db t key = Inr None" "node_codec F"
    and "split_depth p key = Some n" "bitslice_to_bytes off (take n key) = j @ path_encode q" "\<not> prefix (tree_ident t) (j @ path_encode q)"
  shows "\<exists>t' ups t''. tree_set off F fuel db key v t = (Inr () :: ('e, unit) outcome, t') \<and>
    get_updates F fuel t' = (Inr ups :: ('e, updates) outcome, t'') \<and> hm_get ups (branch_key j q) = Some Remove \<and>
    (\<forall>db0 :: 'e db_view. get_trie_branch_in_db_from_path F [] j (db_after ups db0) q = (Inr None :: ('e, _) outcome))"
proof -
  obtain t' where t': "tree_set off F fuel db key v t = (Inr () :: ('e, unit) outcome, t')" "tree_inv F db t' (Some (pinsert key v p))"
    "height_of t' = height_of t" "tree_ident t' = tree_ident t" "Trie (j @ path_encode q) \<in> set (death_row t')"
    using tree_set_split [OF assms(1-3,5-7,9)] assms(4,10) by auto
  obtain ups t'' where ups: "get_updates F fuel t' = (Inr ups :: ('e, updates) outcome, t'')"
    "hm_get ups (Trie (j @ path_encode q)) = Some Remove"
    using get_updates_foreign [OF t'(2) assms(8) _ t'(5), of fuel] t'(3,4) assms(3,11) by auto
  then have "get_trie_branch_in_db_from_path F [] j (db_after ups db0) q = (Inr None :: ('e, _) outcome)" for db0 :: "'e db_view"
    by (simp add: get_trie_branch_in_db_from_path_def db_after_def)
  then show ?thesis using t'(1) ups by simp
qed

text \<open>The split at depth one of the tree \<open>[200]\<close> names the root of the tree \<open>[1]\<close>.\<close>

theorem split_removes_foreign_node_witness:
  "\<exists>t' ups t''. tree_set 0 sample_ops 8 empty_db (replicate 8 False) 9 two_leaves = (Inr () :: (unit, unit) outcome, t') \<and>
    get_updates sample_ops 8 t' = (Inr ups :: (unit, updates) outcome, t'') \<and> hm_get ups (branch_key [1] []) = Some Remove"
proof -
  have "bitslice_to_bytes 0 (take 1 (replicate 8 False)) = [1] @ path_encode []" by code_simp
  moreover have "key_clear 0 two_leaves (replicate 8 False)"
    by (rule key_safe_clear [OF sample_key_safe]) (simp_all add: two_leaves_inv)
  ultimately show ?thesis
    using split_removes_foreign_node [OF two_leaves_inv(1) _ _ _ _ two_leaves_cache _ _ two_leaves_split, of 8 9 "[1]" "[]"]
      two_leaves_inv(2,3) by (auto simp: path_encode_Nil)
qed

text \<open>
  C24. With keys that do not start at a byte boundary, a split hides another node of the same tree,
  even with the empty identifier: the bytes on the death row keep the offset of the slice, so those
  of the bits \<open>a\<close> followed by \<open>off\<close> zeros are the database key of the node at \<open>off\<close> zeros followed by
  \<open>a\<close>, as long as both fill the same number of bytes. That node was in the database; after the call,
  which succeeds, the tree does not find it any more.
\<close>

theorem unaligned_split_hides_node:
  fixes F :: "'f ext_ops" and db :: "'e db_view"
  assumes "tree_inv F db t (Some p)" "tree_ident t = []" "length key = height_of t" "height_of t \<le> fuel" "v \<noteq> ZERO F"
    and "hm_get (cache_leaf_modified t) (bitslice_to_bytes off key) = None" "read_flat off F db t key = Inr None"
    and "split_depth p key = Some n" "take n key = a @ replicate off False" "a \<noteq> []"
    and "(length a + off + 7) div 8 = (length a + off + off + 7) div 8"
    and "get_trie_branch_in_db_from_path F (death_row t) [] db (replicate off False @ a) = (Inr (Some node) :: ('e, _) outcome)"
  shows "\<exists>t'. tree_set off F fuel db key v t = (Inr () :: ('e, unit) outcome, t') \<and>
    get_trie_branch_in_db_from_path F (death_row t') (tree_ident t') db (replicate off False @ a) = (Inr None :: ('e, _) outcome)"
proof -
  obtain t' where t': "tree_set off F fuel db key v t = (Inr () :: ('e, unit) outcome, t')" "tree_ident t' = []"
    "Trie (bitslice_to_bytes off (take n key)) \<in> set (death_row t')"
    using tree_set_split [OF assms(1,3-8)] assms(2) by auto
  then show ?thesis
    using offset_collides [OF assms(10,11)] assms(9) by (simp add: get_trie_branch_in_db_from_path_def)
qed

text \<open>The node at \<open>[False, True]\<close> is hidden by the split of the edge at \<open>[True, False]\<close>.\<close>

theorem unaligned_split_hides_node_witness:
  "\<exists>node t'. get_trie_branch_in_db_from_path sample_ops [] [] (snd four_committed) [False, True] = (Inr (Some node) :: (unit, _) outcome) \<and>
    tree_set 1 sample_ops 8 (snd four_committed) [True, False, True] 9 (fst four_committed) = (Inr () :: (unit, unit) outcome, t') \<and>
    get_trie_branch_in_db_from_path sample_ops (death_row t') (tree_ident t') (snd four_committed) [False, True] = (Inr None :: (unit, _) outcome)"
proof -
  obtain node where node: "get_trie_branch_in_db_from_path sample_ops [] [] (snd four_committed) [False, True] = (Inr (Some node) :: (unit, _) outcome)"
    by (rule unloaded_node [OF four_committed_inv(1) [unfolded four_trie_def] four_committed_inv(6,4,3)])
  have split: "split_depth four_trie [True, False, True] = Some 2" by (simp add: four_trie_def)
  show ?thesis
    using unaligned_split_hides_node [OF four_committed_inv(1,3) _ _ _ _ four_committed_flat split, of 8 9 "[True]" node]
      four_committed_inv(2,4,5) node by (auto simp: hm_get_def)
qed

section \<open>RocksDB\<close>

text \<open>
  C8. The storage over RocksDB: if the library behaves as documented, then in every state that
  calls of insert, remove and commit and openings of the storage reach from an empty database,
  reads return what the map of the run holds, and a commit succeeds and leaves the root hashes of
  the tries of the map.
\<close>

theorem rocks_storage_refines:
  fixes A :: "('rdb, 'cf, 'wb, 'snap, 'txn, 'err) rocksdb_api" and F :: "'f ext_ops"
  assumes "rocks_run off A V F Ids h s c c0 d" "prefix_free Ids" "node_codec F" "felt_codec F" "h \<noteq> 0"
  shows "(\<forall>j \<in> Ids. \<forall>k. length k = unat h \<longrightarrow>
      storage_get off F (rocks_ops A) s j k = Inr (c j k) \<and> storage_contains off (rocks_ops A) s j k = Inr (c j k \<noteq> None)) \<and>
    (\<exists>s'. storage_commit F (rocks_ops A) (rocks_persistent A) basic_ops i s =
        (Inr () :: ('err rocks_db_error, unit) outcome, s') \<and>
      (\<forall>j \<in> Ids. \<exists>pt. trie_of (unat h) (c j) pt \<and> storage_root_hash F (rocks_ops A) s' j = Inr (trie_hash F pt)))"
proof -
  obtain m m0 where inv: "storage_inv off F (rocks_ops A) (rocks_ok A V) Ids h s c c0 d m m0"
    using rocks_run_inv [OF assms] by blast
  then show ?thesis
    using rocks_storage.storage_get_inv [OF inv] rocks_storage.storage_contains_inv [OF inv]
      rocks_storage.storage_commit_hash [OF inv assms(2-4)] by blast
qed

theorem rocks_storage_refines_witness:
  "storage_get 5 sample_ops (rocks_ops mem_api) sample_rocks_storage [200] sample_key = Inr (Some 5) \<and>
   (\<exists>s'. storage_commit sample_ops (rocks_ops mem_api) (rocks_persistent mem_api) basic_ops (BasicId 3) sample_rocks_storage =
      (Inr (), s'))"
  using rocks_storage_refines [OF sample_rocks_run, of "BasicId 3"] by (auto simp: set_content_def)



text \<open>
  C22. The prefix methods of the RocksDB store, which stop an ordered iterator at the first key
  without the prefix, are exact: \<open>get_by_prefix\<close> returns every row of the column with the prefix
  once, \<open>remove_by_prefix\<close> removes these and nothing else.
\<close>

theorem rocks_prefix_exact:
  fixes A :: "('rdb, 'cf, 'wb, 'snap, 'txn, 'err) rocksdb_api"
  assumes "rocks_ok A V db"
  shows "(\<exists>xs. rocks_get_by_prefix A db p = Inr xs \<and> distinct (map fst xs) \<and>
      (\<forall>b. map_of xs b = (if prefix (db_as_slice p) b then rocks_view A V db (same_column p b) else None))) \<and>
    (\<exists>db'. rocks_remove_by_prefix A db p = (Inr (), db') \<and>
      rocks_view A V db' = (\<lambda>k. if under_prefix p k then None else rocks_view A V db k))"
  using rocks.prefix_view [OF assms, of p] rocks.remove_prefix_view [OF assms, of p] by (auto simp: rocks_ops_def)

theorem rocks_prefix_exact_witness:
  "\<exists>xs. rocks_get_by_prefix mem_api (rocks_db_new [((TRIE_CF, [1]), [9]), ((TRIE_CF, [0, 7]), [8]), ((FLAT_CF, [0]), [7])]
     rocks_db_config_default :: mem_rocks) (DbTrie [0]) = Inr xs \<and>
     map_of xs [0, 7] = Some [8] \<and> map_of xs [1] = None \<and> map_of xs [0] = None"
proof -
  let ?db = "rocks_db_new [((TRIE_CF, [1]), [9]), ((TRIE_CF, [0, 7]), [8]), ((FLAT_CF, [0]), [7])] rocks_db_config_default :: mem_rocks"
  have ok: "rocks_ok mem_api mem_meaning ?db" by (simp add: mem_rocks_ok rocks_db_new_def)
  have "rocks_view mem_api mem_meaning ?db (DbTrie [0, 7]) = Some [8]" "rocks_view mem_api mem_meaning ?db (DbTrie [0]) = None"
    by (simp_all add: rocks_view_def row_of_def mem_api_def mem_meaning_def mem_rows_def rocks_db_new_def)
  then show ?thesis using rocks_prefix_exact [OF ok, of "DbTrie [0]"] by auto
qed

text \<open>
  C35. A transaction of the RocksDB store reads single keys from the snapshot it was created
  from, but its prefix search, whose iterator is not given the snapshot, returns the rows of the
  database as it is now.
\<close>

theorem rocks_txn_prefix_ignores_snapshot:
  fixes A :: "('rdb, 'cf, 'wb, 'snap, 'txn, 'err) rocksdb_api" and db :: "('rdb, 'snap, 'id::linorder) rocks_db"
  assumes "rocks_ok A V db" "btree_first_below i (rocks_snapshots db) = Some (j, s)"
  shows "\<exists>t. rocks_transaction A db i = Inr (Some (j, t)) \<and>
    (\<forall>k. rocks_txn_get A t k = Inr (row_of (cf_handle A (rdb db)) (snap_rows V s) k)) \<and>
    (\<exists>xs. rocks_txn_get_by_prefix A t p = Inr xs \<and>
      (\<forall>b. map_of xs b = (if prefix (db_as_slice p) b then rocks_view A V db (same_column p b) else None)))"
proof -
  obtain t where t: "rocks_transaction A db i = Inr (Some (j, t))" "rocks_txn_ok A V t"
    "rocks_txn_view V t = row_of (cf_handle A (rdb db)) (snap_rows V s)" "txn_cf t p = cf_handle A (rdb db) (get_cf_name p)"
    "txn_base V (txn t) = rows V (rdb db)" "txn_writes V (txn t) = (\<lambda>_ _. None)"
    using rocks_transaction_ok [OF assms] by blast
  obtain hp where hp: "cf_handle A (rdb db) (get_cf_name p) = Some hp"
    using assms(1) by (auto simp: rocks_ok_def elim: cf_readyD [of _ p])
  show ?thesis
    using t hp rocks_txn.get_view [OF t(2)] rocks_txn_get_by_prefix_rows [OF t(2), of p hp]
    by (auto simp: rocks_txn_ops_def rocks_view_def row_of_same_column)
qed

theorem rocks_txn_prefix_ignores_snapshot_witness:
  "\<exists>t. rocks_transaction mem_api \<lparr>rdb = [((TRIE_CF, [0]), [9])], rocks_config = rocks_db_config_default,
         rocks_snapshots = [(1 :: nat, [])]\<rparr> 2 = Inr (Some (1, t)) \<and>
     rocks_txn_get mem_api t (DbTrie [0]) = Inr None \<and>
     (\<exists>xs. rocks_txn_get_by_prefix mem_api t (DbTrie [0]) = Inr xs \<and> map_of xs [0] = Some [9])"
proof -
  let ?db = "\<lparr>rdb = [((TRIE_CF, [0]), [9])], rocks_config = rocks_db_config_default, rocks_snapshots = [(1 :: nat, [])]\<rparr>
    :: (mem_db, mem_db, nat) rocks_db"
  have ok: "rocks_ok mem_api mem_meaning ?db" by (simp add: rocks_ok_def mem_documented mem_cf_ready) (simp add: mem_meaning_def)
  have "btree_first_below 2 (rocks_snapshots ?db) = Some (1, [])" by (simp add: btree_first_below_def)
  from rocks_txn_prefix_ignores_snapshot [OF ok this, of "DbTrie [0]"] show ?thesis
    by (fastforce simp: row_of_def rocks_view_def mem_meaning_def mem_rows_def mem_api_def)
qed

text \<open>
  C36. Taking a snapshot of the RocksDB store keeps the data, keeps the snapshots in the order of
  their identifiers, never leaves more of them than configured, and drops the oldest ones: every
  dropped snapshot is older than every one that is kept.
\<close>

theorem rocks_snapshots_bounded:
  fixes db :: "('rdb, 'snap, 'id::linorder) rocks_db"
  assumes "sorted_wrt (<) (map fst (rocks_snapshots db))" "rocks_max_saved_snapshots (rocks_config db) = Some n"
  shows "let db' = rocks_snapshot A db i; all = btree_insert i (rdb_snapshot A (rdb db)) (rocks_snapshots db) in
    rdb db' = rdb db \<and> sorted_wrt (<) (map fst (rocks_snapshots db')) \<and> length (rocks_snapshots db') \<le> unat n \<and>
    set (rocks_snapshots db') \<subseteq> set all \<and>
    (\<forall>x \<in> set all - set (rocks_snapshots db'). \<forall>y \<in> set (rocks_snapshots db'). fst x < fst y)"
proof -
  let ?all = "btree_insert i (rdb_snapshot A (rdb db)) (rocks_snapshots db)"
  let ?m = "length ?all - unat n"
  have sorted: "sorted_wrt (<) (map fst ?all)" by (rule btree_insert_sorted [OF assms(1)])
  have snaps: "rocks_snapshots (rocks_snapshot A db i) = drop ?m ?all"
    using assms(2) by (simp add: rocks_snapshot_def Let_def pop_first_until_drop)
  have split: "sorted_wrt (<) (map fst (take ?m ?all) @ map fst (drop ?m ?all))"
    using sorted by (metis append_take_drop_id map_append)
  have "set ?all = set (take ?m ?all) \<union> set (drop ?m ?all)" by (metis append_take_drop_id set_append)
  moreover have "set (drop ?m ?all) \<subseteq> set ?all" by (rule set_drop_subset)
  ultimately show ?thesis using split snaps by (auto simp: Let_def sorted_wrt_append)
qed

theorem rocks_snapshots_bounded_witness:
  "length (rocks_snapshots (rocks_snapshot mem_api \<lparr>rdb = [], rocks_config = \<lparr>rocks_max_saved_snapshots = Some 1\<rparr>,
     rocks_snapshots = [(1 :: nat, [])]\<rparr> 2)) \<le> 1"
  using rocks_snapshots_bounded [of "\<lparr>rdb = [], rocks_config = \<lparr>rocks_max_saved_snapshots = Some 1\<rparr>,
     rocks_snapshots = [(1 :: nat, [])]\<rparr>" 1 mem_api 2] by (simp add: Let_def)

text \<open>
  C4. Durability: whatever was changed since the last commit, a storage opened over the store of
  a reachable state reads the map of the last commit; right after a commit that is the current
  map.
\<close>

theorem reopened_storage_reads_last_commit:
  fixes s :: "('f, basic_id hashmap_db, basic_id) bonsai_storage"
  assumes "hashmap_run off F Ids h s c c0 d" "prefix_free Ids" "node_codec F" "felt_codec F" "h \<noteq> 0"
    and "storage_snapshot_interval cfg \<noteq> 0" "j \<in> Ids" "length k = unat h"
    and "storage_commit F hashmap_ops hashmap_persistent basic_ops i s = (r, s')"
  defines "reopen x \<equiv> storage_new (kv_db (ts_db (tries x))) cfg h :: ('f, basic_id hashmap_db, basic_id) bonsai_storage"
  shows "storage_get off F hashmap_ops (reopen s) j k = Inr (c0 j k) \<and> storage_get off F hashmap_ops (reopen s') j k = Inr (c j k)"
proof -
  have "hashmap_run off F Ids h (reopen s) c0 c0 {}" unfolding reopen_def by (rule run_reopen [OF assms(1,6)])
  moreover have "hashmap_run off F Ids h (reopen s') c c {}"
    unfolding reopen_def by (rule run_reopen [OF run_commit [OF assms(1,9)] assms(6)])
  ultimately show ?thesis
    using hashmap_run_inv [OF _ assms(2-5)] hashmap_storage.storage_get_inv [OF _ assms(7,8)] by blast
qed

theorem reopened_storage_reads_last_commit_witness:
  "\<exists>s'. storage_commit sample_ops hashmap_ops hashmap_persistent basic_ops (BasicId 0) sample_storage =
      (Inr () :: (hashmap_db_error, unit) outcome, s') \<and>
    storage_get 5 sample_ops hashmap_ops
      (storage_new (kv_db (ts_db (tries sample_storage))) storage_config_default 8 :: (byte, basic_id hashmap_db, basic_id) bonsai_storage)
      [200] sample_key = Inr None \<and>
    storage_get 5 sample_ops hashmap_ops
      (storage_new (kv_db (ts_db (tries s'))) storage_config_default 8 :: (byte, basic_id hashmap_db, basic_id) bonsai_storage)
      [200] sample_key = Inr (Some 5)"
proof -
  obtain m m0 where inv: "storage_inv 5 sample_ops hashmap_ops hashmap_ok sample_ids 8 sample_storage
      (set_content [200] sample_key (Some 5) (\<lambda>_ _. None)) (\<lambda>_ _. None) {([200], sample_key)} m m0"
    using hashmap_run_inv [OF sample_run] by auto
  obtain s' where s': "storage_commit sample_ops hashmap_ops hashmap_persistent basic_ops (BasicId 0) sample_storage =
      (Inr () :: (hashmap_db_error, unit) outcome, s')"
    using hashmap_storage.storage_commit_hash [OF inv, of "BasicId 0"] by auto
  show ?thesis
    using reopened_storage_reads_last_commit [OF sample_run _ _ _ _ _ _ _ s', of storage_config_default "[200]" sample_key] s'
    by (auto simp: set_content_def storage_config_default_def)
qed



text \<open>
  C14. In every reachable state the nodes of a tree in memory form one tree: every reference is to a
  slot in use, no slot is referred to twice, edges are not empty, and every node lies between the
  root and the leaves.
\<close>

theorem nodes_in_memory_typed:
  assumes "hashmap_run off F Ids h s c c0 d" "prefix_free Ids" "node_codec F" "felt_codec F" "h \<noteq> 0" "(i, t) \<in> set (trees (tries s))"
  shows "slots_typed t \<and> max_height t = h \<and> tree_ident t = i"
proof -
  obtain m m0 where "storage_inv off F hashmap_ops hashmap_ok Ids h s c c0 d m m0" using hashmap_run_inv [OF assms(1-5)] by blast
  then have inv: "trees_inv off F (kv_get hashmap_ops (ts_db (tries s))) Ids (tries s) m" "ts_max_height (tries s) = h"
    by (simp_all add: storage_inv_def)
  then have "i \<in> Ids" "tree_entry (tries s) i = t"
    using assms(6) by (force simp: trees_inv_def, simp add: trees_inv_def tree_entry_def hm_get_def hm_wf_def)
  then have "tree_ok off F (kv_get hashmap_ops (ts_db (tries s))) h Ids i t (m i)" using inv by (auto simp: trees_inv_def)
  then show ?thesis using tree_inv_typed [of F "kv_get hashmap_ops (ts_db (tries s))" t "m i"] by (simp add: tree_ok_def)
qed

theorem nodes_in_memory_typed_witness:
  "\<exists>t. ([200], t) \<in> set (trees (tries sample_storage)) \<and> slots_typed t"
proof -
  have "hm_get (trees (tries sample_storage)) [200] \<noteq> None"
    by (simp add: sample_storage_def storage_insert_def on_tries_def trees_set_def on_entry_def hm_simps split: prod.split)
  then obtain t where t: "([200], t) \<in> set (trees (tries sample_storage))" by (auto simp: hm_get_def dest!: map_of_SomeD)
  from nodes_in_memory_typed [OF sample_run _ _ _ _ t] t show ?thesis by auto
qed

section \<open>Logs and transactions\<close>

text \<open>
  C17. The log of a commit can be read back in whatever order the store returns it: after
  \<open>commit\<close> of the layer over the hash map store, searching the log entries of the identifier and
  deserialising them gives, for every key, the old value if the commit changed it, and nothing
  otherwise.
\<close>

theorem committed_log_reads_back:
  assumes "hashmap_ok (kv_db kv)" "hm_wf (current_changes (changes_store kv))"
    and "max_saved_trie_logs (config kv) \<noteq> Some 0"
    and "\<forall>b. prefix (to_bytes basic_ops i) b \<longrightarrow> hashmap_view (kv_db kv) (DbTrieLog b) = None"
  shows "\<exists>kv' xs out. kv_commit hashmap_ops basic_ops i kv = (Inr () :: (hashmap_db_error, unit) outcome, kv') \<and>
    hashmap_get_by_prefix (kv_db kv') (DbTrieLog (to_bytes basic_ops i)) = Inr xs \<and>
    deserialize basic_ops i xs = (Inr out :: (hashmap_db_error, change_batch) outcome) \<and>
    (\<forall>k. map_option old_value (hm_get out k) = undo_of (current_changes (changes_store kv)) k)"
proof -
  obtain kv' where kv': "kv_commit hashmap_ops basic_ops i kv = (Inr () :: (hashmap_db_error, unit) outcome, kv')"
    "hashmap_ok (kv_db kv')" "holds_log basic_ops (hashmap_view (kv_db kv')) i (current_changes (changes_store kv))"
    using hashmap_kv.kv_commit_log [OF assms] by blast
  show ?thesis
    using kv'(1) hashmap_kv.log_reads_back [OF kv'(2,3)] by (fastforce simp: hashmap_ops_def)
qed

theorem committed_log_reads_back_witness:
  "\<exists>kv' xs out. kv_commit hashmap_ops basic_ops (BasicId 0) sample_kv = (Inr () :: (hashmap_db_error, unit) outcome, kv') \<and>
    hashmap_get_by_prefix (kv_db kv') (DbTrieLog (to_bytes basic_ops (BasicId 0))) = Inr xs \<and>
    deserialize basic_ops (BasicId 0) xs = (Inr out :: (hashmap_db_error, change_batch) outcome) \<and>
    map_option old_value (hm_get out (Flat [1])) = Some None"
  using committed_log_reads_back [of sample_kv "BasicId 0"] by (auto simp del: map_option_eq_Some)

text \<open>
  C18. A transactional state over RocksDB: when the logs of the commits from the snapshot up to
  the requested one are in the database, it is the snapshot with the old values of these logs
  written over it, in the order of the commits.
\<close>

theorem rocks_transaction_contents:
  fixes A :: "('rdb, 'cf, 'wb, 'snap, 'txn, 'err) rocksdb_api" and kv :: "(('rdb, 'snap, basic_id) rocks_db, basic_id) key_value_db"
  assumes "rocks_ok A V (kv_db kv)" "btree_first_below i (rocks_snapshots (kv_db kv)) = Some (j, s)"
    and "\<forall>n \<in> {unat (basic_as_u64 j) ..< unat (basic_as_u64 i)}.
      holds_log basic_ops (rocks_view A V (kv_db kv)) (BasicId (word_of_nat n)) (L n)"
  shows "\<exists>t. get_transaction (rocks_ops A) (rocks_persistent A) (rocks_txn_ops A) basic_ops kv i =
      (Inr (Some t) :: ('err rocks_db_error, ('txn, 'snap, 'cf) rocks_db_transaction option) outcome) \<and>
    (\<forall>k. rocks_txn_get A t k = Inr (fold (\<lambda>n. undo (undo_of (L n))) [unat (basic_as_u64 j) ..< unat (basic_as_u64 i)]
        (row_of (cf_handle A (rdb (kv_db kv))) (snap_rows V s)) k))"
proof -
  obtain x where x: "rocks_transaction A (kv_db kv) i = Inr (Some (j, x))" "rocks_txn_ok A V x"
    "rocks_txn_view V x = row_of (cf_handle A (rdb (kv_db kv))) (snap_rows V s)"
    using rocks_transaction_ok [OF assms(1,2)] by blast
  have basic: "as_u64 basic_ops = basic_as_u64" "from_u64 basic_ops = BasicId" by (simp_all add: basic_ops_def)
  obtain t where t: "get_transaction (rocks_ops A) (rocks_persistent A) (rocks_txn_ops A) basic_ops kv i =
      (Inr (Some t) :: ('err rocks_db_error, ('txn, 'snap, 'cf) rocks_db_transaction option) outcome)" "rocks_txn_ok A V t"
    "rocks_txn_view V t = fold (\<lambda>n. undo (undo_of (L n))) [unat (basic_as_u64 j) ..< unat (basic_as_u64 i)] (rocks_txn_view V x)"
    using rocks_transactions.get_transaction_view [OF assms(1) _ x(2), of "rocks_persistent A" i j L] assms(3) x(1)
    by (auto simp: rocks_persistent_def basic)
  then show ?thesis using rocks_txn.get_view [OF t(2)] x(3) by (auto simp: rocks_txn_ops_def)
qed

theorem rocks_transaction_contents_witness:
  "\<exists>t. get_transaction (rocks_ops mem_api) (rocks_persistent mem_api) (rocks_txn_ops mem_api) basic_ops sample_txn_kv (BasicId 1) =
      (Inr (Some t) :: (unit rocks_db_error, _) outcome) \<and> rocks_txn_get mem_api t (DbFlat [1]) = Inr None"
  using rocks_transaction_contents [OF sample_txn_kv(1,2), of "\<lambda>_. sample_changes"] sample_txn_kv(3)
  by (auto simp: undo_def)

text \<open>
  C37. The transactional state at a commit is not the state at that commit: a key that was
  changed by a commit from the snapshot on, and not by a later one before the requested commit,
  has in it the value from before that change, which is another one.
\<close>

theorem transaction_undoes_last_change:
  fixes kv :: "(basic_id hashmap_db, basic_id) key_value_db"
  assumes "hashmap_ok (kv_db kv)" "hashmap_transaction (kv_db kv) i = Inr (Some (j, snap))" "hashmap_ok snap"
    and "\<forall>n \<in> {unat (basic_as_u64 j) ..< unat (basic_as_u64 i)}.
      holds_log basic_ops (hashmap_view (kv_db kv)) (BasicId (word_of_nat n)) (L n)"
    and "n \<in> {unat (basic_as_u64 j) ..< unat (basic_as_u64 i)}" "hm_get (filter effective (L n)) k = Some c"
    and "\<forall>n' \<in> {n <..< unat (basic_as_u64 i)}. hm_get (filter effective (L n')) k = None"
  shows "\<exists>t. get_transaction hashmap_ops hashmap_persistent hashmap_ops basic_ops kv i =
      (Inr (Some t) :: (hashmap_db_error, _) outcome) \<and>
    hashmap_get t (database_key_of k) = Inr (old_value c) \<and> old_value c \<noteq> new_value c"
proof -
  have basic: "as_u64 basic_ops = basic_as_u64" "from_u64 basic_ops = BasicId" by (simp_all add: basic_ops_def)
  let ?a = "unat (basic_as_u64 j)" and ?b = "unat (basic_as_u64 i)"
  obtain t where t: "get_transaction hashmap_ops hashmap_persistent hashmap_ops basic_ops kv i =
      (Inr (Some t) :: (hashmap_db_error, _) outcome)"
    "hashmap_view t = fold (\<lambda>n. undo (undo_of (L n))) [?a ..< ?b] (hashmap_view snap)"
    using hashmap_txn.get_transaction_view [OF assms(1) _ assms(3), of hashmap_persistent i j L] assms(2,4)
    by (auto simp: hashmap_persistent_def basic)
  have "[?a ..< ?b] = [?a ..< n] @ n # [Suc n ..< ?b]"
    using assms(5) by (intro upt_split) auto
  then have "hashmap_view t (database_key_of k) = old_value c"
    using fold_undo_last [of L n k "old_value c" "[Suc n ..< ?b]" "[?a ..< n]"] assms(6,7) t(2) by (simp add: undo_of_def)
  moreover have "effective (k, c)"
    using assms(6) by (auto simp: hm_get_def dest!: map_of_SomeD)
  ultimately show ?thesis using t(1) by (simp add: hashmap_get_def hashmap_view_def effective_def)
qed

theorem transaction_undoes_last_change_witness:
  "\<exists>t. get_transaction hashmap_ops hashmap_persistent hashmap_ops basic_ops sample_log_kv (BasicId 1) =
      (Inr (Some t) :: (hashmap_db_error, _) outcome) \<and>
    hashmap_get t (DbFlat [1]) = Inr None \<and> hashmap_get (kv_db sample_log_kv) (DbFlat [1]) = Inr (Some [7])"
  using transaction_undoes_last_change [OF sample_log_kv(1-3), of "\<lambda>_. sample_changes" 0 "Flat [1]"] sample_log_kv(4,5)
  by auto

end
